(* ===== verification/Rust_Prelude.thy ===== *)
theory Rust_Prelude
  imports Main "HOL-Library.Word" "HOL-Library.Code_Target_Nat"
begin

text \<open>
  Shared vocabulary of the development: the crate-wide error type and result monad
  (\<^verbatim>\<open>src/src/error.rs\<close>), the machine integers of Rust and their checked operations,
  little- and big-endian byte encodings, decimal rendering and parsing of \<^verbatim>\<open>i64\<close>, and
  Rust strings with their UTF-8 validity.

  Conventions.  A Rust \<^verbatim>\<open>String\<close> is the list of its UTF-8 bytes, as Isabelle characters, so
  \<^verbatim>\<open>len\<close>, \<^verbatim>\<open>cmp\<close>, \<^verbatim>\<open>as_bytes\<close> and the ASCII case functions are exact.  A fallible
  function returns \<open>exn + 'a\<close>: an \<^verbatim>\<open>Err\<close> of the source is \<open>Inl (Err e)\<close>, a panic of the
  source (an index out of range, an \<^verbatim>\<open>unreachable!\<close>) is \<open>Inl (Panic msg)\<close>.  Signed 64-bit
  integers are \<open>64 word\<close> read with \<open>sint\<close>; \<^verbatim>\<open>usize\<close> is \<open>nat\<close> with the bound
  \<open>2 ^ 64\<close> written out wherever the source checks it.
\<close>

unbundle bit_operations_syntax

named_theorems codec_simps \<open>round trips and lengths of the byte encodings\<close>
named_theorems result_simps \<open>inversion of the result monad\<close>

section \<open>Machine integers\<close>

type_synonym u8 = "8 word"
type_synonym u16 = "16 word"
type_synonym u32 = "32 word"
type_synonym u64 = "64 word"
type_synonym i64 = "64 word"

abbreviation usize_bound :: nat where
  "usize_bound \<equiv> 18446744073709551616"

abbreviation i64_max :: int where
  "i64_max \<equiv> 9223372036854775807"

abbreviation i64_min :: int where
  "i64_min \<equiv> - 9223372036854775808"

definition in_i64 :: "int \<Rightarrow> bool" where
  "in_i64 z \<longleftrightarrow> i64_min \<le> z \<and> z \<le> i64_max"

definition i64_of :: "int \<Rightarrow> i64 option" where
  "i64_of z = (if in_i64 z then Some (word_of_int z) else None)"

definition checked_add_i64 :: "i64 \<Rightarrow> i64 \<Rightarrow> i64 option" where
  "checked_add_i64 a b = i64_of (sint a + sint b)"

definition checked_mul_i64 :: "i64 \<Rightarrow> i64 \<Rightarrow> i64 option" where
  "checked_mul_i64 a b = i64_of (sint a * sint b)"

definition checked_pow10_i64 :: "nat \<Rightarrow> i64 option" where
  "checked_pow10_i64 n = i64_of (10 ^ n)"

definition checked_add_usize :: "nat \<Rightarrow> nat \<Rightarrow> nat option" where
  "checked_add_usize a b = (if a + b < usize_bound then Some (a + b) else None)"

lemma sint_i64_bounds: "i64_min \<le> sint (x :: i64)" "sint (x :: i64) \<le> i64_max"
  using sint_range_size [of x] by (auto simp: word_size)

lemma in_i64_sint [simp]: "in_i64 (sint (x :: i64))"
  using sint_i64_bounds [of x] by (simp add: in_i64_def)

lemma sint_uminus_i64: "sint x \<noteq> i64_min \<Longrightarrow> sint (- x :: i64) = - sint x"
proof -
  assume a: "sint x \<noteq> i64_min"
  have "- x = word_of_int (- sint x)" by simp
  moreover have "in_i64 (- sint x)" using a sint_i64_bounds [of x] by (simp add: in_i64_def)
  ultimately show ?thesis
    unfolding in_i64_def by (simp only: sint_sbintrunc') (simp add: signed_take_bit_int_eq_self)
qed

lemma sint_word_of_int_i64: "in_i64 z \<Longrightarrow> sint (word_of_int z :: i64) = z"
  unfolding in_i64_def by (simp add: sint_sbintrunc' signed_take_bit_int_eq_self)

lemma i64_of_sint [simp]: "i64_of (sint x) = Some x"
  by (simp add: i64_of_def)

lemma i64_of_SomeD: "i64_of z = Some w \<Longrightarrow> sint w = z"
  by (auto simp: i64_of_def sint_word_of_int_i64 split: if_splits)

lemma i64_of_Some_iff: "i64_of z = Some w \<longleftrightarrow> in_i64 z \<and> sint w = z"
  by (auto simp: i64_of_def sint_word_of_int_i64 split: if_splits)

lemma i64_of_Ex: "in_i64 z \<Longrightarrow> \<exists>w. i64_of z = Some w \<and> sint w = z"
  by (simp add: i64_of_def sint_word_of_int_i64)

lemma i64_of_None: "i64_of z = None \<longleftrightarrow> \<not> in_i64 z"
  by (simp add: i64_of_def)

lemma checked_add_i64_SomeD: "checked_add_i64 a b = Some c \<Longrightarrow> sint c = sint a + sint b"
  by (simp add: checked_add_i64_def i64_of_SomeD)

lemma checked_pow10_i64_Some_iff:
  "checked_pow10_i64 n = Some c \<longleftrightarrow> in_i64 (10 ^ n) \<and> sint c = 10 ^ n"
  by (simp add: checked_pow10_i64_def i64_of_Some_iff)

lemma checked_mul_i64_Some_iff:
  "checked_mul_i64 a b = Some c \<longleftrightarrow> in_i64 (sint a * sint b) \<and> sint c = sint a * sint b"
  by (simp add: checked_mul_i64_def i64_of_Some_iff)

section \<open>Errors and results\<close>

datatype error =
    Io string
  | Protocol string
  | Auth string
  | Parse string
  | Execution string
  | Unsupported string
  | Config string

text \<open>\<^verbatim>\<open>impl fmt::Display for Error\<close>.\<close>

fun error_text :: "error \<Rightarrow> string" where
  "error_text (Io m) = ''io error: '' @ m"
| "error_text (Protocol m) = ''protocol error: '' @ m"
| "error_text (Auth m) = ''authentication error: '' @ m"
| "error_text (Parse m) = ''parse error: '' @ m"
| "error_text (Execution m) = ''execution error: '' @ m"
| "error_text (Unsupported m) = ''unsupported: '' @ m"
| "error_text (Config m) = ''configuration error: '' @ m"

datatype exn = Err error | Panic string

type_synonym 'a result = "exn + 'a"

abbreviation Ok :: "'a \<Rightarrow> 'a result" where
  "Ok \<equiv> Inr"

abbreviation Fail :: "error \<Rightarrow> 'a result" where
  "Fail e \<equiv> Inl (Err e)"

abbreviation Panics :: "string \<Rightarrow> 'a result" where
  "Panics m \<equiv> Inl (Panic m)"

text \<open>The \<^verbatim>\<open>?\<close> operator of the source: stop at the first error.\<close>

fun bindR :: "'a result \<Rightarrow> ('a \<Rightarrow> 'b result) \<Rightarrow> 'b result" where
  "bindR (Inl e) f = Inl e"
| "bindR (Inr x) f = f x"

lemma bindR_cong [fundef_cong]:
  "m = m' \<Longrightarrow> (\<And>x. m' = Inr x \<Longrightarrow> f x = g x) \<Longrightarrow> bindR m f = bindR m' g"
  by (cases m') auto

lemma bindR_Ok_iff [result_simps]:
  "bindR m f = Inr y \<longleftrightarrow> (\<exists>x. m = Inr x \<and> f x = Inr y)"
  by (cases m) auto

lemma bindR_Inl_iff [result_simps]:
  "bindR m f = Inl e \<longleftrightarrow> m = Inl e \<or> (\<exists>x. m = Inr x \<and> f x = Inl e)"
  by (cases m) auto

lemma bindR_assoc: "bindR (bindR m f) g = bindR m (\<lambda>x. bindR (f x) g)"
  by (cases m) auto

lemma bindR_Ok [simp]: "bindR m Inr = m"
  by (cases m) auto

definition map_result :: "('a \<Rightarrow> 'b) \<Rightarrow> 'a result \<Rightarrow> 'b result" where
  "map_result f m = bindR m (\<lambda>x. Ok (f x))"

lemma map_result_simps [simp]:
  "map_result f (Inl e) = Inl e" "map_result f (Inr x) = Inr (f x)"
  by (simp_all add: map_result_def)

lemma map_result_Ok_iff [result_simps]:
  "map_result f m = Inr y \<longleftrightarrow> (\<exists>x. m = Inr x \<and> y = f x)"
  by (cases m) auto

lemma map_result_Inl_iff [result_simps]: "map_result f m = Inl e \<longleftrightarrow> m = Inl e"
  by (cases m) auto

definition ok_or :: "exn \<Rightarrow> 'a option \<Rightarrow> 'a result" where
  "ok_or e m = (case m of None \<Rightarrow> Inl e | Some x \<Rightarrow> Inr x)"

lemma ok_or_simps [simp]: "ok_or e None = Inl e" "ok_or e (Some x) = Inr x"
  by (simp_all add: ok_or_def)

lemma ok_or_Ok_iff [result_simps]: "ok_or e m = Inr x \<longleftrightarrow> m = Some x"
  by (cases m) auto

text \<open>\<^verbatim>\<open>iter().map(f).collect::<Result<Vec<_>>>()\<close>: the first error wins.\<close>

fun mapR :: "('a \<Rightarrow> 'b result) \<Rightarrow> 'a list \<Rightarrow> 'b list result" where
  "mapR f [] = Ok []"
| "mapR f (x # xs) = bindR (f x) (\<lambda>y. bindR (mapR f xs) (\<lambda>ys. Ok (y # ys)))"

lemma mapR_cong [fundef_cong]:
  "xs = ys \<Longrightarrow> (\<And>x. x \<in> set ys \<Longrightarrow> f x = g x) \<Longrightarrow> mapR f xs = mapR g ys"
  by (induction xs arbitrary: ys) auto

lemma mapR_Ok_list_all2: "mapR f xs = Inr ys \<longleftrightarrow> list_all2 (\<lambda>x y. f x = Inr y) xs ys"
  by (induction xs arbitrary: ys) (auto simp: result_simps list_all2_Cons1)

lemma mapR_Ok_length: "mapR f xs = Inr ys \<Longrightarrow> length ys = length xs"
  by (simp add: mapR_Ok_list_all2 list_all2_lengthD)

lemma mapR_total: "(\<And>x. x \<in> set xs \<Longrightarrow> f x = Inr (g x)) \<Longrightarrow> mapR f xs = Inr (map g xs)"
  by (induction xs) auto

text \<open>A \<^verbatim>\<open>for\<close> loop that threads a state and may return early with an error.\<close>

fun foldR :: "('s \<Rightarrow> 'a \<Rightarrow> 's result) \<Rightarrow> 's \<Rightarrow> 'a list \<Rightarrow> 's result" where
  "foldR f s [] = Ok s"
| "foldR f s (x # xs) = bindR (f s x) (\<lambda>s'. foldR f s' xs)"

lemma foldR_append: "foldR f s (xs @ ys) = bindR (foldR f s xs) (\<lambda>s'. foldR f s' ys)"
  by (induction xs arbitrary: s) (auto simp: bindR_assoc)

lemma foldR_invariant:
  assumes "\<And>s x s'. P s \<Longrightarrow> x \<in> set xs \<Longrightarrow> f s x = Inr s' \<Longrightarrow> P s'"
    and "P s" and "foldR f s xs = Inr s'"
  shows "P s'"
  using assms
proof (induction xs arbitrary: s)
  case Nil
  then show ?case by simp
next
  case (Cons x xs)
  from Cons.prems(3) obtain t where t: "f s x = Inr t" "foldR f t xs = Inr s'"
    by (auto simp: bindR_Ok_iff)
  have "P t" using Cons.prems(1,2) t(1) by (meson list.set_intros(1))
  then show ?case using Cons.prems(1) t(2) by (intro Cons.IH) (auto intro: list.set_intros(2))
qed

definition is_panic :: "'a result \<Rightarrow> bool" where
  "is_panic r \<longleftrightarrow> (\<exists>m. r = Panics m)"

text \<open>\<^verbatim>\<open>xs[i]\<close> and \<^verbatim>\<open>xs.get(i)\<close>: the first panics out of range, the second is \<^verbatim>\<open>None\<close>.\<close>

definition get_at :: "'a list \<Rightarrow> nat \<Rightarrow> 'a option" where
  "get_at xs i = (if i < length xs then Some (xs ! i) else None)"

definition index_at :: "'a list \<Rightarrow> nat \<Rightarrow> 'a result" where
  "index_at xs i = ok_or (Panic ''index out of bounds'') (get_at xs i)"

lemma get_at_simps [simp]:
  "i < length xs \<Longrightarrow> get_at xs i = Some (xs ! i)"
  "\<not> i < length xs \<Longrightarrow> get_at xs i = None"
  by (simp_all add: get_at_def)

lemma index_at_simps [simp]:
  "i < length xs \<Longrightarrow> index_at xs i = Ok (xs ! i)"
  "\<not> i < length xs \<Longrightarrow> index_at xs i = Panics ''index out of bounds''"
  by (simp_all add: index_at_def)

lemma index_at_Ok_iff [result_simps]: "index_at xs i = Inr x \<longleftrightarrow> i < length xs \<and> x = xs ! i"
  by (cases "i < length xs") auto

text \<open>\<^verbatim>\<open>iter().position(p)\<close>.\<close>

fun position :: "('a \<Rightarrow> bool) \<Rightarrow> 'a list \<Rightarrow> nat option" where
  "position P [] = None"
| "position P (x # xs) = (if P x then Some 0 else map_option Suc (position P xs))"

lemma position_SomeD:
  "position P xs = Some i \<Longrightarrow> i < length xs \<and> P (xs ! i) \<and> (\<forall>j < i. \<not> P (xs ! j))"
  by (induction xs arbitrary: i) (auto split: if_splits simp: nth_Cons split: nat.splits)

lemma position_None: "position P xs = None \<longleftrightarrow> (\<forall>x \<in> set xs. \<not> P x)"
  by (induction xs) auto

lemma position_Ex: "(\<exists>i. position P xs = Some i) \<longleftrightarrow> (\<exists>x \<in> set xs. P x)"
  using position_None [of P xs] by (cases "position P xs") auto

lemma position_Some_iff:
  "position P xs = Some i \<longleftrightarrow> i < length xs \<and> P (xs ! i) \<and> (\<forall>j < i. \<not> P (xs ! j))"
proof
  show "position P xs = Some i \<Longrightarrow> i < length xs \<and> P (xs ! i) \<and> (\<forall>j < i. \<not> P (xs ! j))"
    by (rule position_SomeD)
next
  assume i: "i < length xs \<and> P (xs ! i) \<and> (\<forall>j < i. \<not> P (xs ! j))"
  then have "position P xs \<noteq> None" by (auto simp: position_None)
  then obtain k where k: "position P xs = Some k" by blast
  from position_SomeD [OF k] i have "k = i" by (metis linorder_neqE_nat)
  with k show "position P xs = Some i" by simp
qed

lemma position_append:
  "position P (xs @ ys) =
     (case position P xs of Some i \<Rightarrow> Some i | None \<Rightarrow> map_option (\<lambda>i. length xs + i) (position P ys))"
  by (cases "position P ys"; induction xs) (auto split: option.split)

lemma position_update:
  "P (xs ! i) = P y \<Longrightarrow> position P (xs[i := y]) = position P xs"
  by (induction xs arbitrary: i) (auto split: nat.splits)

lemma position_remove:
  assumes "position P xs = Some i" "j < length xs" "\<not> P (xs ! j)"
  shows "i \<noteq> j" "position P (take j xs @ drop (Suc j) xs) = Some (if i < j then i else i - 1)"
proof -
  note i = position_SomeD [OF assms(1)]
  show "i \<noteq> j" using i assms(3) by auto
  let ?k = "if i < j then i else i - 1"
  have "?k < length (take j xs @ drop (Suc j) xs)" using i assms(2) \<open>i \<noteq> j\<close> by auto
  moreover have "P ((take j xs @ drop (Suc j) xs) ! ?k)"
    using i assms(2) \<open>i \<noteq> j\<close> by (auto simp: nth_append min_def)
  moreover have "\<not> P ((take j xs @ drop (Suc j) xs) ! n)" if "n < ?k" for n
    using i assms(2) \<open>i \<noteq> j\<close> that by (auto simp: nth_append min_def split: if_splits)
  ultimately show "position P (take j xs @ drop (Suc j) xs) = Some ?k"
    by (subst position_Some_iff) blast
qed

lemma foldR_map: "foldR (\<lambda>s x. f s (g x)) s xs = foldR f s (map g xs)"
  by (induction xs arbitrary: s) auto

end
