(* ===== verification/Rust_Bytes.thy ===== *)
theory Rust_Bytes
  imports Rust_Prelude
begin

text \<open>
  Bytes and text of the Rust standard library as the crate uses them:
  \<^verbatim>\<open>to_le_bytes\<close>/\<^verbatim>\<open>from_le_bytes\<close> (and the big-endian forms the digests need),
  \<^verbatim>\<open>String::from_utf8\<close>, \<^verbatim>\<open>to_string\<close> and \<^verbatim>\<open>parse\<close> for integers, ASCII case folding.
\<close>

section \<open>Endianness\<close>

lemma unat_bound: "unat (w :: 'a::len word) < 2 ^ LENGTH('a)"
  by (rule unsigned_less)

text \<open>\<open>le_bytes k n\<close>: the low \<open>k\<close> bytes of \<open>n\<close>, least significant first.\<close>

fun le_bytes :: "nat \<Rightarrow> nat \<Rightarrow> u8 list" where
  "le_bytes 0 n = []"
| "le_bytes (Suc k) n = word_of_nat (n mod 256) # le_bytes k (n div 256)"

fun from_le :: "u8 list \<Rightarrow> nat" where
  "from_le [] = 0"
| "from_le (b # bs) = unat b + 256 * from_le bs"

lemma length_le_bytes [simp, codec_simps]: "length (le_bytes k n) = k"
  by (induction k arbitrary: n) auto

lemma unat_byte_mod [simp]: "unat (word_of_nat (n mod 256) :: u8) = n mod 256"
  by (simp add: unat_of_nat)

lemma from_le_le_bytes [codec_simps]: "from_le (le_bytes k n) = n mod 256 ^ k"
proof (induction k arbitrary: n)
  case 0
  then show ?case by simp
next
  case (Suc k)
  have "n mod 256 ^ Suc k = 256 * (n div 256 mod 256 ^ k) + n mod 256"
    by (simp add: mod_mult2_eq)
  then show ?case using Suc by simp
qed

lemma from_le_bound: "from_le bs < 256 ^ length bs"
proof (induction bs)
  case Nil
  then show ?case by simp
next
  case (Cons b bs)
  have "unat b < 256" using unat_bound [of b] by simp
  moreover have "Suc (from_le bs) * 256 \<le> 256 ^ length bs * 256"
    using Cons by (intro mult_le_mono1) simp
  ultimately show ?case by simp
qed

lemma le_bytes_from_le [codec_simps]: "le_bytes (length bs) (from_le bs) = bs"
proof (induction bs)
  case Nil
  then show ?case by simp
next
  case (Cons b bs)
  have b: "unat b < 256" using unat_bound [of b] by simp
  then have "(unat b + 256 * from_le bs) div 256 = from_le bs" by simp
  moreover have "word_of_nat (unat b) = b" by simp
  ultimately show ?case using b Cons by simp
qed

lemma le_bytes_inject:
  "m < 256 ^ k \<Longrightarrow> n < 256 ^ k \<Longrightarrow> le_bytes k m = le_bytes k n \<longleftrightarrow> m = n"
  by (metis from_le_le_bytes mod_less)

definition u16_le :: "u16 \<Rightarrow> u8 list" where "u16_le w = le_bytes 2 (unat w)"
definition u32_le :: "u32 \<Rightarrow> u8 list" where "u32_le w = le_bytes 4 (unat w)"
definition u64_le :: "u64 \<Rightarrow> u8 list" where "u64_le w = le_bytes 8 (unat w)"
definition u16_from_le :: "u8 list \<Rightarrow> u16" where "u16_from_le bs = word_of_nat (from_le bs)"
definition u32_from_le :: "u8 list \<Rightarrow> u32" where "u32_from_le bs = word_of_nat (from_le bs)"
definition u64_from_le :: "u8 list \<Rightarrow> u64" where "u64_from_le bs = word_of_nat (from_le bs)"

lemma length_uN_le [simp, codec_simps]:
  "length (u16_le a) = 2" "length (u32_le b) = 4" "length (u64_le c) = 8"
  by (simp_all add: u16_le_def u32_le_def u64_le_def)

lemma uN_from_le_le [simp, codec_simps]:
  "u16_from_le (u16_le a) = a" "u32_from_le (u32_le b) = b" "u64_from_le (u64_le c) = c"
  using unat_bound [of a] unat_bound [of b] unat_bound [of c]
  by (simp_all add: u16_le_def u32_le_def u64_le_def u16_from_le_def u32_from_le_def
      u64_from_le_def from_le_le_bytes)

lemma unat_u32_from_le: "length bs = 4 \<Longrightarrow> unat (u32_from_le bs) = from_le bs"
  using from_le_bound [of bs] by (simp add: u32_from_le_def unat_of_nat)

text \<open>Big-endian, for the digests.\<close>

definition u32_be :: "u32 \<Rightarrow> u8 list" where "u32_be w = rev (u32_le w)"
definition u64_be :: "u64 \<Rightarrow> u8 list" where "u64_be w = rev (u64_le w)"
definition u32_from_be :: "u8 list \<Rightarrow> u32" where "u32_from_be bs = u32_from_le (rev bs)"

lemma length_uN_be [simp, codec_simps]: "length (u32_be b) = 4" "length (u64_be c) = 8"
  by (simp_all add: u32_be_def u64_be_def)

lemma u32_from_be_be [simp, codec_simps]: "u32_from_be (u32_be w) = w"
  by (simp add: u32_from_be_def u32_be_def)

section \<open>Slices\<close>

text \<open>\<^verbatim>\<open>bytes.get(a..b)\<close>: \<^verbatim>\<open>None\<close> when the range does not lie within the slice.\<close>

definition get_range :: "'a list \<Rightarrow> nat \<Rightarrow> nat \<Rightarrow> 'a list option" where
  "get_range bs a b = (if a \<le> b \<and> b \<le> length bs then Some (take (b - a) (drop a bs)) else None)"

lemma get_range_append [simp]:
  "get_range (pre @ xs @ post) (length pre) (length pre + length xs) = Some xs"
  by (simp add: get_range_def)

lemma get_range_append2 [simp]:
  "b = length pre + length xs \<Longrightarrow> get_range (pre @ xs @ post) (length pre) b = Some xs"
  by simp

lemma get_range_SomeD:
  "get_range bs a b = Some xs \<Longrightarrow> a \<le> b \<and> b \<le> length bs \<and> length xs = b - a"
  by (auto simp: get_range_def split: if_splits)

section \<open>Strings\<close>

definition as_bytes :: "string \<Rightarrow> u8 list" where
  "as_bytes s = map (\<lambda>c. word_of_nat (of_char c)) s"

definition string_of_bytes :: "u8 list \<Rightarrow> string" where
  "string_of_bytes bs = map (\<lambda>b. char_of (unat b)) bs"

lemma length_as_bytes [simp, codec_simps]: "length (as_bytes s) = length s"
  by (simp add: as_bytes_def)

lemma string_of_bytes_as_bytes [simp, codec_simps]: "string_of_bytes (as_bytes s) = s"
  by (induction s) (auto simp: string_of_bytes_def as_bytes_def unat_of_nat)

lemma as_bytes_string_of_bytes [simp, codec_simps]: "as_bytes (string_of_bytes bs) = bs"
proof (induction bs)
  case Nil
  then show ?case by (simp add: string_of_bytes_def as_bytes_def)
next
  case (Cons b bs)
  have "unat b < 256" using unat_bound [of b] by simp
  then have "(word_of_nat (of_char (char_of (unat b) :: char)) :: u8) = b" by simp
  with Cons show ?case by (simp add: string_of_bytes_def as_bytes_def)
qed

text \<open>
  Well-formed UTF-8 (the validation of \<^verbatim>\<open>core::str\<close>, Unicode table 3-7): no overlong
  forms, no surrogates, nothing above U+10FFFF.
\<close>

definition in_range8 :: "nat \<Rightarrow> nat \<Rightarrow> u8 \<Rightarrow> bool" where
  "in_range8 lo hi b \<longleftrightarrow> lo \<le> unat b \<and> unat b \<le> hi"

abbreviation cont8 :: "u8 \<Rightarrow> bool" where
  "cont8 \<equiv> in_range8 0x80 0xBF"

fun utf8_valid :: "u8 list \<Rightarrow> bool" where
  "utf8_valid [] = True"
| "utf8_valid (a # bs) =
     (if in_range8 0x00 0x7F a then utf8_valid bs
      else case bs of
        [] \<Rightarrow> False
      | b # cs \<Rightarrow>
          if in_range8 0xC2 0xDF a then cont8 b \<and> utf8_valid cs
          else case cs of
            [] \<Rightarrow> False
          | c # ds \<Rightarrow>
              if in_range8 0xE0 0xEF a then
                (if unat a = 0xE0 then in_range8 0xA0 0xBF b
                 else if unat a = 0xED then in_range8 0x80 0x9F b else cont8 b)
                \<and> cont8 c \<and> utf8_valid ds
              else case ds of
                [] \<Rightarrow> False
              | d # es \<Rightarrow>
                  in_range8 0xF0 0xF4 a
                  \<and> (if unat a = 0xF0 then in_range8 0x90 0xBF b
                     else if unat a = 0xF4 then in_range8 0x80 0x8F b else cont8 b)
                  \<and> cont8 c \<and> cont8 d \<and> utf8_valid es)"

definition from_utf8 :: "u8 list \<Rightarrow> string option" where
  "from_utf8 bs = (if utf8_valid bs then Some (string_of_bytes bs) else None)"

text \<open>Every \<^verbatim>\<open>String\<close> the program holds is valid UTF-8.\<close>

definition str_ok :: "string \<Rightarrow> bool" where
  "str_ok s \<longleftrightarrow> utf8_valid (as_bytes s)"

lemma from_utf8_as_bytes [codec_simps]: "str_ok s \<Longrightarrow> from_utf8 (as_bytes s) = Some s"
  by (simp add: from_utf8_def str_ok_def)

lemma from_utf8_SomeD: "from_utf8 bs = Some s \<Longrightarrow> str_ok s \<and> as_bytes s = bs"
  by (auto simp: from_utf8_def str_ok_def split: if_splits)

definition is_ascii :: "char \<Rightarrow> bool" where
  "is_ascii c \<longleftrightarrow> of_char c < (128 :: nat)"

lemma utf8_valid_ascii_Cons: "unat a \<le> 127 \<Longrightarrow> utf8_valid (a # bs) = utf8_valid bs"
  by (simp add: in_range8_def)

lemma str_ok_ascii: "list_all is_ascii s \<Longrightarrow> str_ok s"
proof (induction s)
  case Nil
  then show ?case by (simp add: str_ok_def as_bytes_def)
next
  case (Cons c s)
  have "unat (word_of_nat (of_char c) :: u8) \<le> 127"
    using Cons.prems by (simp add: is_ascii_def unat_of_nat)
  then show ?case using Cons
    by (simp add: str_ok_def as_bytes_def utf8_valid_ascii_Cons del: utf8_valid.simps)
qed

text \<open>ASCII case folding: \<^verbatim>\<open>to_ascii_uppercase\<close>, \<^verbatim>\<open>to_ascii_lowercase\<close>,
  \<^verbatim>\<open>eq_ignore_ascii_case\<close>.\<close>

definition upper_char :: "char \<Rightarrow> char" where
  "upper_char c = (let n = of_char c :: nat in if 97 \<le> n \<and> n \<le> 122 then char_of (n - 32) else c)"

definition lower_char :: "char \<Rightarrow> char" where
  "lower_char c = (let n = of_char c :: nat in if 65 \<le> n \<and> n \<le> 90 then char_of (n + 32) else c)"

definition to_ascii_uppercase :: "string \<Rightarrow> string" where
  "to_ascii_uppercase = map upper_char"

definition to_ascii_lowercase :: "string \<Rightarrow> string" where
  "to_ascii_lowercase = map lower_char"

definition eq_ignore_ascii_case :: "string \<Rightarrow> string \<Rightarrow> bool" where
  "eq_ignore_ascii_case a b \<longleftrightarrow> to_ascii_lowercase a = to_ascii_lowercase b"

section \<open>Decimal integers\<close>

definition is_ascii_digit :: "char \<Rightarrow> bool" where
  "is_ascii_digit c \<longleftrightarrow> 48 \<le> (of_char c :: nat) \<and> (of_char c :: nat) \<le> 57"

definition digit_char :: "nat \<Rightarrow> char" where
  "digit_char d = char_of (48 + d)"

definition digit_value :: "char \<Rightarrow> nat" where
  "digit_value c = of_char c - 48"

lemma of_char_digit_char: "d < 10 \<Longrightarrow> (of_char (digit_char d) :: nat) = 48 + d"
  by (simp add: digit_char_def)

lemma digit_char_props [simp]:
  "d < 10 \<Longrightarrow> is_ascii_digit (digit_char d)" "d < 10 \<Longrightarrow> digit_value (digit_char d) = d"
  by (simp_all add: is_ascii_digit_def digit_value_def of_char_digit_char)

lemma digit_value_less: "is_ascii_digit c \<Longrightarrow> digit_value c < 10"
  by (auto simp: is_ascii_digit_def digit_value_def)

lemma digit_char_value: "is_ascii_digit c \<Longrightarrow> digit_char (digit_value c) = c"
  by (auto simp: is_ascii_digit_def digit_value_def digit_char_def)

text \<open>\<^verbatim>\<open>u64::to_string\<close>.\<close>

fun show_nat :: "nat \<Rightarrow> string" where
  "show_nat n = (if n < 10 then [digit_char n] else show_nat (n div 10) @ [digit_char (n mod 10)])"

declare show_nat.simps [simp del]

text \<open>The value of a digit string, most significant digit first.\<close>

definition digits_value :: "string \<Rightarrow> nat" where
  "digits_value s = foldl (\<lambda>n c. 10 * n + digit_value c) 0 s"

lemma digits_value_simps [simp]:
  "digits_value [] = 0" "digits_value (s @ [c]) = 10 * digits_value s + digit_value c"
  by (simp_all add: digits_value_def)

lemma show_nat_digits: "list_all is_ascii_digit (show_nat n)"
proof (induction n rule: show_nat.induct)
  case (1 n)
  then show ?case by (subst show_nat.simps) auto
qed

lemma show_nat_nonempty [simp]: "show_nat n \<noteq> []"
  by (subst show_nat.simps) simp

lemma digits_value_show_nat [simp]: "digits_value (show_nat n) = n"
proof (induction n rule: show_nat.induct)
  case (1 n)
  show ?case
  proof (cases "n < 10")
    case True
    then show ?thesis
      using digits_value_simps(2) [of "[]" "digit_char n"] by (simp add: show_nat.simps [of n])
  next
    case False
    then show ?thesis using 1 by (simp add: show_nat.simps [of n])
  qed
qed

text \<open>\<^verbatim>\<open>i64::to_string\<close>.\<close>

definition show_i64 :: "i64 \<Rightarrow> string" where
  "show_i64 w = (if sint w < 0 then CHR ''-'' # show_nat (nat (- sint w)) else show_nat (nat (sint w)))"

text \<open>
  \<^verbatim>\<open>str::parse::<i64>\<close>: an optional sign, then at least one digit, and the value must fit.
\<close>

definition parse_i64 :: "string \<Rightarrow> i64 option" where
  "parse_i64 s =
     (let neg = (s \<noteq> [] \<and> hd s = CHR ''-'');
          ds = (if s \<noteq> [] \<and> (hd s = CHR ''-'' \<or> hd s = CHR ''+'') then tl s else s)
      in if ds = [] \<or> \<not> list_all is_ascii_digit ds then None
         else i64_of (if neg then - int (digits_value ds) else int (digits_value ds)))"

text \<open>\<^verbatim>\<open>str::parse::<uN>\<close>: as above without the minus sign, bounded by \<open>m\<close>.\<close>

definition parse_unsigned :: "nat \<Rightarrow> string \<Rightarrow> nat option" where
  "parse_unsigned m s =
     (let ds = (if s \<noteq> [] \<and> hd s = CHR ''+'' then tl s else s)
      in if ds = [] \<or> \<not> list_all is_ascii_digit ds then None
         else if digits_value ds < m then Some (digits_value ds) else None)"

lemma minus_not_digit [simp]: "\<not> is_ascii_digit CHR ''-''" "\<not> is_ascii_digit CHR ''+''"
  "\<not> is_ascii_digit CHR ''.''"
  by (simp_all add: is_ascii_digit_def)

lemma hd_show_nat [simp]: "hd (show_nat n) \<noteq> CHR ''-''" "hd (show_nat n) \<noteq> CHR ''+''"
  using show_nat_digits [of n] minus_not_digit
  by (metis hd_in_set list_all_iff show_nat_nonempty)+

theorem parse_show_i64: "parse_i64 (show_i64 w) = Some w"
proof (cases "sint w < 0")
  case True
  then show ?thesis by (simp add: show_i64_def parse_i64_def show_nat_digits)
next
  case False
  then show ?thesis by (simp add: show_i64_def parse_i64_def show_nat_digits Let_def)
qed

section \<open>Comparison and trimming of strings\<close>

datatype ordering = Less | Equal | Greater

text \<open>\<^verbatim>\<open>Ordering::reverse\<close> and the comparison of integers.\<close>

fun reverse_ordering :: "ordering \<Rightarrow> ordering" where
  "reverse_ordering Less = Greater"
| "reverse_ordering Equal = Equal"
| "reverse_ordering Greater = Less"

definition int_cmp :: "int \<Rightarrow> int \<Rightarrow> ordering" where
  "int_cmp a b = (if a < b then Less else if a = b then Equal else Greater)"

text \<open>\<^verbatim>\<open>str::cmp\<close>: lexicographic on the UTF-8 bytes.\<close>

fun str_cmp :: "string \<Rightarrow> string \<Rightarrow> ordering" where
  "str_cmp [] [] = Equal"
| "str_cmp [] (b # bs) = Less"
| "str_cmp (a # as) [] = Greater"
| "str_cmp (a # as) (b # bs) =
     (let x = of_char a :: nat; y = of_char b in
      if x < y then Less else if y < x then Greater else str_cmp as bs)"

lemma str_cmp_Equal_iff: "str_cmp a b = Equal \<longleftrightarrow> a = b"
  by (induction a b rule: str_cmp.induct) (auto simp: Let_def)

lemma str_cmp_swap: "str_cmp b a = reverse_ordering (str_cmp a b)"
  by (induction a b rule: str_cmp.induct) (auto simp: Let_def)

lemma str_cmp_refl [simp]: "str_cmp a a = Equal"
  by (simp add: str_cmp_Equal_iff)

lemma str_cmp_Less_iff:
  "str_cmp (a # as) (b # bs) = Less \<longleftrightarrow>
     (of_char a :: nat) < of_char b \<or> (of_char a :: nat) = of_char b \<and> str_cmp as bs = Less"
  by (auto simp: Let_def)

declare str_cmp.simps(4) [simp del]

lemma str_cmp_Less_trans: "str_cmp a b = Less \<Longrightarrow> str_cmp b c = Less \<Longrightarrow> str_cmp a c = Less"
proof (induction a arbitrary: b c)
  case Nil
  then show ?case by (cases b; cases c) auto
next
  case (Cons x xs)
  from Cons.prems(1) obtain y ys where b: "b = y # ys" by (cases b) auto
  from Cons.prems(2) b obtain z zs where c: "c = z # zs" by (cases c) auto
  have 1: "(of_char x :: nat) < of_char y \<or> (of_char x :: nat) = of_char y \<and> str_cmp xs ys = Less"
    using Cons.prems(1) by (simp only: b str_cmp_Less_iff)
  have 2: "(of_char y :: nat) < of_char z \<or> (of_char y :: nat) = of_char z \<and> str_cmp ys zs = Less"
    using Cons.prems(2) by (simp only: b c str_cmp_Less_iff)
  have "(of_char x :: nat) < of_char z \<or> (of_char x :: nat) = of_char z \<and> str_cmp xs zs = Less"
    using 1 2 Cons.IH by (metis order.strict_trans)
  then show ?case by (simp only: c str_cmp_Less_iff)
qed

text \<open>
  \<^verbatim>\<open>str::trim\<close>: the characters with the Unicode property White\_Space, as UTF-8.
\<close>

definition ws_chars :: "string list" where
  "ws_chars = map (map char_of)
     ([[0x09], [0x0A], [0x0B], [0x0C], [0x0D], [0x20 :: nat], [0xC2, 0x85], [0xC2, 0xA0],
       [0xE1, 0x9A, 0x80]]
      @ map (\<lambda>n. [0xE2, 0x80, n])
          [0x80, 0x81, 0x82, 0x83, 0x84, 0x85, 0x86, 0x87, 0x88, 0x89, 0x8A, 0xA8, 0xA9, 0xAF]
      @ [[0xE2, 0x81, 0x9F], [0xE3, 0x80, 0x80]])"

definition strip_prefix :: "string \<Rightarrow> string \<Rightarrow> string option" where
  "strip_prefix p s = (if take (length p) s = p then Some (drop (length p) s) else None)"

definition strip_suffix :: "string \<Rightarrow> string \<Rightarrow> string option" where
  "strip_suffix p s = map_option rev (strip_prefix (rev p) (rev s))"

fun strip_any :: "string list \<Rightarrow> string \<Rightarrow> string option" where
  "strip_any [] s = None"
| "strip_any (p # ps) s = (case strip_prefix p s of Some r \<Rightarrow> Some r | None \<Rightarrow> strip_any ps s)"

lemma strip_any_shorter:
  "strip_any ps s = Some r \<Longrightarrow> (\<forall>p \<in> set ps. p \<noteq> []) \<Longrightarrow> length r < length s"
proof (induction ps)
  case (Cons p ps)
  show ?case
  proof (cases "strip_prefix p s")
    case None
    with Cons show ?thesis by simp
  next
    case (Some t)
    then have t: "take (length p) s = p" "t = drop (length p) s"
      by (auto simp: strip_prefix_def split: if_splits)
    from Cons.prems have "p \<noteq> []" by simp
    then have "0 < length p" by simp
    moreover from t(1) have "length p \<le> length s" by (metis length_take min.cobounded1)
    moreover have "r = t" using Cons.prems Some by simp
    ultimately have "length r = length s - length p" "0 < length p" "length p \<le> length s"
      using t(2) by simp_all
    then show ?thesis by linarith
  qed
qed simp

fun trim_with :: "nat \<Rightarrow> string list \<Rightarrow> string \<Rightarrow> string" where
  "trim_with 0 ps s = s"
| "trim_with (Suc n) ps s = (case strip_any ps s of Some r \<Rightarrow> trim_with n ps r | None \<Rightarrow> s)"

text \<open>Each step removes at least one byte, so the length of the text bounds the steps.\<close>

definition trim_start :: "string \<Rightarrow> string" where
  "trim_start s = trim_with (length s) ws_chars s"

definition trim_end :: "string \<Rightarrow> string" where
  "trim_end s = rev (trim_with (length s) (map rev ws_chars) (rev s))"

definition trim :: "string \<Rightarrow> string" where
  "trim s = trim_end (trim_start s)"

lemma trim_with_done:
  "length s \<le> n \<Longrightarrow> (\<forall>p \<in> set ps. p \<noteq> []) \<Longrightarrow> strip_any ps (trim_with n ps s) = None"
proof (induction n arbitrary: s)
  case 0
  have "strip_any ps s = None"
    using strip_any_shorter [of ps s] 0 by (cases "strip_any ps s") auto
  then show ?case by simp
next
  case (Suc n)
  show ?case
  proof (cases "strip_any ps s")
    case (Some r)
    then have "length r \<le> n" using strip_any_shorter [OF Some] Suc.prems by simp
    with Some Suc show ?thesis by simp
  qed simp
qed

text \<open>\<^verbatim>\<open>str::split_once\<close> and \<^verbatim>\<open>str::split\<close> at an ASCII character.\<close>

fun split_once :: "char \<Rightarrow> string \<Rightarrow> (string \<times> string) option" where
  "split_once c [] = None"
| "split_once c (x # xs) =
     (if x = c then Some ([], xs) else map_option (\<lambda>(a, b). (x # a, b)) (split_once c xs))"

fun split_str :: "char \<Rightarrow> string \<Rightarrow> string list" where
  "split_str c [] = [[]]"
| "split_str c (x # xs) =
     (if x = c then [] # split_str c xs
      else case split_str c xs of [] \<Rightarrow> [[x]] | p # ps \<Rightarrow> (x # p) # ps)"

lemma split_once_None: "split_once c s = None \<longleftrightarrow> c \<notin> set s"
  by (induction s) auto

lemma split_once_append: "c \<notin> set a \<Longrightarrow> split_once c (a @ c # b) = Some (a, b)"
  by (induction a) auto

lemma split_once_SomeD: "split_once c s = Some (a, b) \<Longrightarrow> s = a @ c # b \<and> c \<notin> set a"
  by (induction s arbitrary: a) (auto split: if_splits)

text \<open>\<^verbatim>\<open>str::get(a..b)\<close>: \<^verbatim>\<open>None\<close> out of range or inside a multi-byte character.\<close>

definition is_char_boundary :: "string \<Rightarrow> nat \<Rightarrow> bool" where
  "is_char_boundary s i \<longleftrightarrow>
     i = 0 \<or> i = length s \<or> (i < length s \<and> \<not> cont8 (word_of_nat (of_char (s ! i))))"

definition str_get :: "string \<Rightarrow> nat \<Rightarrow> nat \<Rightarrow> string option" where
  "str_get s a b =
     (if a \<le> b \<and> is_char_boundary s a \<and> is_char_boundary s b then Some (take (b - a) (drop a s))
      else None)"

text \<open>The text \<open>'s'\<close> in quotes, as the messages of the crate have it.\<close>

definition quoted :: "string \<Rightarrow> string" where
  "quoted s = CHR 0x27 # s @ [CHR 0x27]"

end
