(* ===== verification/Sql_Value.thy ===== *)
theory Sql_Value
  imports Rust_Bytes
begin

text \<open>
  Typed values and schemas (\<^verbatim>\<open>src/src/storage/value.rs\<close>): the enums \<^verbatim>\<open>Value\<close> and
  \<^verbatim>\<open>ColumnType\<close>, rendering and rescaling of fixed-point decimals, the decimal and date
  literal parsers, and the recognition of SQL type names.  The lemmas show that rescaling is
  exact when it widens and rounds half away from zero when it narrows, that decimal rendering
  and parsing are inverse, and that the text of accepted dates sorts chronologically.
\<close>

section \<open>Data\<close>

datatype "value" =
    VInt i64
  | VVarchar string
  | VDecimal i64 u8
  | VDate string
  | VNull

datatype column_type = TInt | TVarchar | TDecimal u8 | TDate

record column_schema =
  cs_name :: string
  cs_type :: column_type
  cs_nullable :: bool
  cs_auto_increment :: bool

record table_schema =
  ts_columns :: "column_schema list"
  ts_primary_key :: "string option"

type_synonym row = "value list"

section \<open>Decimals\<close>

definition format_decimal :: "i64 \<Rightarrow> u8 \<Rightarrow> string" where
  "format_decimal unscaled scale =
     (if scale = 0 then show_i64 unscaled
      else
        let negative = sint unscaled < 0;
            sc = unat scale;
            digits0 = show_nat (nat \<bar>sint unscaled\<bar>);
            digits = (if length digits0 \<le> sc
                      then replicate (sc + 1 - length digits0) (CHR ''0'') @ digits0
                      else digits0);
            int_part = take (length digits - sc) digits;
            frac_part = drop (length digits - sc) digits
        in (if negative then ''-'' else []) @ int_part @ ''.'' @ frac_part)"

definition to_display_string :: "value \<Rightarrow> string option" where
  "to_display_string v =
     (case v of
        VInt n \<Rightarrow> Some (show_i64 n)
      | VVarchar s \<Rightarrow> Some s
      | VDecimal unscaled scale \<Rightarrow> Some (format_decimal unscaled scale)
      | VDate s \<Rightarrow> Some s
      | VNull \<Rightarrow> None)"

definition unwrap_or_default :: "string option \<Rightarrow> string" where
  "unwrap_or_default m = (case m of None \<Rightarrow> [] | Some s \<Rightarrow> s)"

text \<open>
  The narrowing branch computes in \<^verbatim>\<open>u64\<close>: \<^verbatim>\<open>10u64.checked_pow\<close>, \<^verbatim>\<open>unsigned_abs\<close> and an
  unchecked addition, which the model keeps modulo \<open>2 ^ 64\<close>.
\<close>

definition checked_pow10_u64 :: "nat \<Rightarrow> nat option" where
  "checked_pow10_u64 n = (if (10 :: nat) ^ n < 2 ^ 64 then Some (10 ^ n) else None)"

definition err_decimal_range :: "string \<Rightarrow> exn" where
  "err_decimal_range column_name =
     Err (Execution (''decimal value out of range for column '' @ quoted column_name))"

definition rescale_decimal :: "i64 \<Rightarrow> u8 \<Rightarrow> u8 \<Rightarrow> string \<Rightarrow> i64 result" where
  "rescale_decimal unscaled from_scale to_scale column_name =
     (let out_of_range = err_decimal_range column_name
      in if from_scale \<le> to_scale then
           bindR (ok_or out_of_range (checked_pow10_i64 (unat to_scale - unat from_scale)))
             (\<lambda>factor. ok_or out_of_range (checked_mul_i64 unscaled factor))
         else
           bindR (ok_or out_of_range (checked_pow10_u64 (unat from_scale - unat to_scale)))
             (\<lambda>divisor.
                let magnitude = nat \<bar>sint unscaled\<bar>;
                    rounded = ((magnitude + divisor div 2) mod 2 ^ 64) div divisor
                in bindR (ok_or out_of_range (i64_of (int rounded)))
                     (\<lambda>r. Ok (if sint unscaled < 0 then - r else r))))"

definition err_decimal_value :: "string \<Rightarrow> string \<Rightarrow> exn" where
  "err_decimal_value s column_name =
     Err (Execution (''Incorrect decimal value: '' @ quoted s @ '' for column '' @ quoted column_name))"

definition parse_decimal_literal :: "string \<Rightarrow> string \<Rightarrow> (i64 \<times> u8) result" where
  "parse_decimal_literal s column_name =
     (let invalid = err_decimal_value s column_name;
          (negative, rest) = (case strip_prefix ''-'' s of Some r \<Rightarrow> (True, r) | None \<Rightarrow> (False, s));
          (int_part, frac_part) = (case split_once (CHR ''.'') rest of
                                     Some (i, f) \<Rightarrow> (i, f) | None \<Rightarrow> (rest, []))
      in if int_part = [] \<and> frac_part = [] then Inl invalid
         else if \<not> list_all is_ascii_digit int_part \<or> \<not> list_all is_ascii_digit frac_part
         then Inl invalid
         else if length frac_part > 255 then Inl invalid
         else bindR (ok_or invalid (parse_i64 (int_part @ frac_part)))
                (\<lambda>magnitude. Ok (if negative then - magnitude else magnitude,
                                  word_of_nat (length frac_part))))"

section \<open>Dates\<close>

definition err_date_value :: "string \<Rightarrow> string \<Rightarrow> exn" where
  "err_date_value s column_name =
     Err (Execution (''Incorrect date value: '' @ quoted s @ '' for column '' @ quoted column_name))"

definition parse_date_literal :: "string \<Rightarrow> string \<Rightarrow> string result" where
  "parse_date_literal s column_name =
     (let invalid = err_date_value s column_name;
          digits = (\<lambda>a b. ok_or invalid
             (Option.bind (str_get s a b)
               (\<lambda>part. if part \<noteq> [] \<and> list_all is_ascii_digit part
                        then parse_unsigned (2 ^ 32) part else None)))
      in if length s \<noteq> 10 \<or> s ! 4 \<noteq> CHR ''-'' \<or> s ! 7 \<noteq> CHR ''-'' then Inl invalid
         else bindR (digits 0 4) (\<lambda>year.
              bindR (digits 5 7) (\<lambda>month.
              bindR (digits 8 10) (\<lambda>day.
                if \<not> (1 \<le> month \<and> month \<le> 12) \<or> \<not> (1 \<le> day \<and> day \<le> 31) then Inl invalid
                else Ok s))))"

section \<open>Type names\<close>

definition decimal_scale :: "string \<Rightarrow> u8" where
  "decimal_scale type_text =
     (case Option.bind (split_once (CHR ''('') type_text) (\<lambda>(_, rest).
           Option.bind (strip_suffix '')'' rest) (\<lambda>args.
           Option.bind (get_at (split_str (CHR '','') args) 1) (\<lambda>scale.
             parse_unsigned 256 (trim scale)))) of
        None \<Rightarrow> 0 | Some n \<Rightarrow> word_of_nat n)"

definition from_name :: "string \<Rightarrow> column_type option" where
  "from_name name =
     (let trimmed = trim name;
          base = to_ascii_uppercase (trim (hd (split_str (CHR ''('') trimmed)))
      in if base \<in> {''INT'', ''INTEGER'', ''BIGINT'', ''SMALLINT'', ''TINYINT'', ''MEDIUMINT'',
                     ''BOOLEAN'', ''BOOL''} then Some TInt
         else if base \<in> {''VARCHAR'', ''CHAR'', ''TEXT'', ''TINYTEXT'', ''MEDIUMTEXT'', ''LONGTEXT''}
         then Some TVarchar
         else if base = ''DATE'' then Some TDate
         else if base \<in> {''DECIMAL'', ''NUMERIC'', ''DEC''} then Some (TDecimal (decimal_scale trimmed))
         else None)"

section \<open>Well-typed values\<close>

text \<open>
  What the executor and the log promise of a stored value: it has the representation of its
  column's type, and a decimal carries the column's own scale.
\<close>

fun has_type :: "value \<Rightarrow> column_type \<Rightarrow> bool" where
  "has_type VNull t = True"
| "has_type (VInt n) t = (t = TInt)"
| "has_type (VVarchar s) t = (t = TVarchar)"
| "has_type (VDecimal u s) t = (t = TDecimal s)"
| "has_type (VDate s) t = (t = TDate)"

section \<open>Rescaling\<close>

lemma rescale_widen:
  assumes "from_scale \<le> to_scale"
  shows "rescale_decimal x from_scale to_scale c = Ok u \<longleftrightarrow>
    in_i64 (10 ^ (unat to_scale - unat from_scale)) \<and>
    in_i64 (sint x * 10 ^ (unat to_scale - unat from_scale)) \<and>
    sint u = sint x * 10 ^ (unat to_scale - unat from_scale)"
  using assms i64_of_Ex [of "10 ^ (unat to_scale - unat from_scale)"]
  by (auto simp: rescale_decimal_def result_simps checked_pow10_i64_Some_iff
      checked_mul_i64_Some_iff Let_def i64_of_Some_iff) metis

lemma pow10_19: "(10 :: nat) ^ n < 2 ^ 64 \<longleftrightarrow> n \<le> 19"
proof
  assume l: "(10 :: nat) ^ n < 2 ^ 64"
  show "n \<le> 19"
  proof (rule ccontr)
    assume "\<not> n \<le> 19"
    then have "(10 :: nat) ^ 20 \<le> 10 ^ n" by (intro power_increasing) auto
    with l show False by simp
  qed
next
  assume "n \<le> 19"
  then have "(10 :: nat) ^ n \<le> 10 ^ 19" by (intro power_increasing) auto
  then show "(10 :: nat) ^ n < 2 ^ 64" by simp
qed

text \<open>The unchecked \<^verbatim>\<open>u64\<close> addition of the narrowing branch never wraps.\<close>

lemma rescale_no_wrap:
  assumes "n \<le> 19"
  shows "nat \<bar>sint (x :: i64)\<bar> + 10 ^ n div 2 < (2 :: nat) ^ 64"
proof -
  have "nat \<bar>sint x\<bar> \<le> 9223372036854775808"
    using sint_i64_bounds [of x] by linarith
  moreover have "(10 :: nat) ^ n \<le> 10 ^ 19" using assms by (intro power_increasing) auto
  then have "(10 :: nat) ^ n div 2 \<le> 10 ^ 19 div 2" by (rule div_le_mono)
  ultimately show ?thesis by simp
qed

lemma div_round_half:
  assumes "10 \<le> (D :: nat)"
  shows "2 * ((m + D div 2) div D) \<le> m"
proof -
  define r where "r = (m + D div 2) div D"
  have "r * D \<le> m + D div 2" by (simp add: r_def)
  then have 1: "2 * (r * D) \<le> 2 * m + D" by linarith
  have "2 * r \<le> m"
  proof (cases "r = 0")
    case False
    then have "D \<le> r * D" by simp
    with 1 have "r * D \<le> 2 * m" by linarith
    moreover have "r * 10 \<le> r * D" using assms by simp
    ultimately show ?thesis by linarith
  qed simp
  then show ?thesis by (simp add: r_def)
qed

lemma rescale_narrow:
  assumes "to_scale < from_scale"
  defines "n \<equiv> unat from_scale - unat to_scale"
  assumes "n \<le> 19"
  shows "\<exists>u. rescale_decimal x from_scale to_scale c = Ok u \<and>
    sint u = sgn (sint x) * ((\<bar>sint x\<bar> + 10 ^ n div 2) div 10 ^ n)"
proof -
  define m where "m = nat \<bar>sint x\<bar>"
  define r where "r = (m + 10 ^ n div 2) div 10 ^ n"
  have pow: "checked_pow10_u64 n = Some (10 ^ n)"
    using assms(3) pow10_19 [of n] by (simp add: checked_pow10_u64_def)
  have nowrap: "(m + 10 ^ n div 2) mod 2 ^ 64 = m + 10 ^ n div 2"
    using rescale_no_wrap [OF assms(3), of x] unfolding m_def by (rule mod_less)
  have n0: "n \<noteq> 0" using assms(1) by (simp add: n_def word_less_nat_alt)
  have m: "m \<le> 9223372036854775808" using sint_i64_bounds [of x] by (simp add: m_def)
  have rm: "2 * r \<le> m"
    unfolding r_def by (rule div_round_half) (use n0 in \<open>auto intro: power_increasing [of 1, simplified]\<close>)
  then have "in_i64 (int r)" using m by (simp add: in_i64_def)
  then obtain w where w: "i64_of (int r) = Some w" "sint w = int r" using i64_of_Ex by blast
  have le: "\<not> from_scale \<le> to_scale" using assms(1) by simp
  have eq: "rescale_decimal x from_scale to_scale c = Ok (if sint x < 0 then - w else w)"
    unfolding rescale_decimal_def Let_def using le pow nowrap w(1)
    by (simp only: n_def [symmetric] m_def [symmetric] r_def [symmetric] ok_or_simps bindR.simps if_False)
  have neg: "sint (- w) = - int r" using w(2) by (simp add: sint_uminus_i64)
  have int_r: "int r = (\<bar>sint x\<bar> + 10 ^ n div 2) div 10 ^ n"
    by (simp add: r_def m_def zdiv_int)
  show ?thesis
  proof (cases "sint x < 0")
    case True
    then show ?thesis using eq neg int_r by simp
  next
    case False
    moreover have "r = 0" if "sint x = 0" using that rm by (simp add: m_def)
    ultimately show ?thesis using eq w(2) int_r by (cases "sint x = 0") auto
  qed
qed

lemma rescale_narrow_error:
  assumes "to_scale < from_scale" "19 < unat from_scale - unat to_scale"
  shows "rescale_decimal x from_scale to_scale c = Inl (err_decimal_range c)"
proof -
  have "checked_pow10_u64 (unat from_scale - unat to_scale) = None"
    using assms(2) pow10_19 [of "unat from_scale - unat to_scale"]
    by (simp add: checked_pow10_u64_def)
  moreover have "\<not> from_scale \<le> to_scale" using assms(1) by simp
  ultimately show ?thesis by (simp add: rescale_decimal_def Let_def)
qed

definition round_half_away :: "int \<Rightarrow> nat \<Rightarrow> int" where
  "round_half_away x n = sgn x * ((\<bar>x\<bar> + 10 ^ n div 2) div 10 ^ n)"

lemma rescale_narrow_Ok:
  assumes "to_scale < from_scale" "unat from_scale - unat to_scale \<le> 19"
  shows "rescale_decimal x from_scale to_scale c =
    Ok (word_of_int (round_half_away (sint x) (unat from_scale - unat to_scale)))"
proof -
  obtain u where u: "rescale_decimal x from_scale to_scale c = Ok u"
    "sint u = round_half_away (sint x) (unat from_scale - unat to_scale)"
    using rescale_narrow [OF assms(1), of x c] assms(2) by (auto simp: round_half_away_def)
  have "u = word_of_int (sint u)" by simp
  with u show ?thesis by simp
qed

lemma rescale_widen_eq:
  assumes "from_scale \<le> to_scale"
  defines "f \<equiv> 10 ^ (unat to_scale - unat from_scale)"
  shows "rescale_decimal x from_scale to_scale c =
    (if in_i64 f \<and> in_i64 (sint x * f) then Ok (word_of_int (sint x * f))
     else Inl (err_decimal_range c))"
proof (cases "in_i64 f \<and> in_i64 (sint x * f)")
  case True
  then have "sint (word_of_int (sint x * f) :: i64) = sint x * f"
    by (metis sint_word_of_int_i64)
  with True have "rescale_decimal x from_scale to_scale c = Ok (word_of_int (sint x * f))"
    using rescale_widen [OF assms(1)] unfolding f_def by blast
  with True show ?thesis by (simp only: if_True simp_thms)
next
  case False
  then have "\<nexists>u. rescale_decimal x from_scale to_scale c = Ok u"
    using rescale_widen [OF assms(1), of x c] by (auto simp: f_def)
  moreover have "rescale_decimal x from_scale to_scale c = Inl (err_decimal_range c) \<or>
    (\<exists>u. rescale_decimal x from_scale to_scale c = Ok u)"
    using assms(1) by (auto simp: rescale_decimal_def Let_def ok_or_def split: option.splits)
  ultimately show ?thesis using False by auto
qed

text \<open>
  Claim (C30). Rescaling a decimal, on every branch. Widening multiplies by the power of ten
  exactly, and is the range error when the power or the product leaves \<^verbatim>\<open>i64\<close>. Narrowing by at
  most 19 digits rounds half away from zero and cannot fail or wrap, for every \<^verbatim>\<open>i64\<close> including
  the least one; narrowing by more is the range error.
\<close>

theorem rescale_decimal_correct:
  "rescale_decimal x from_scale to_scale c =
     (if from_scale \<le> to_scale
      then let f = 10 ^ (unat to_scale - unat from_scale)
           in if in_i64 f \<and> in_i64 (sint x * f) then Ok (word_of_int (sint x * f))
              else Inl (err_decimal_range c)
      else if unat from_scale - unat to_scale \<le> 19
      then Ok (word_of_int (round_half_away (sint x) (unat from_scale - unat to_scale)))
      else Inl (err_decimal_range c))"
  using rescale_widen_eq [of from_scale to_scale x c]
    rescale_narrow_Ok [of to_scale from_scale x c] rescale_narrow_error [of to_scale from_scale x c]
  by (simp add: Let_def not_le)

section \<open>Rendering and parsing decimals\<close>

lemma digits_value_zeros [simp]: "digits_value (replicate k (CHR ''0'') @ ds) = digits_value ds"
proof -
  have "foldl (\<lambda>n c. 10 * n + digit_value c) 0 (replicate k (CHR ''0'')) = 0"
    by (induction k) (auto simp: digit_value_def)
  then show ?thesis by (simp add: digits_value_def)
qed

lemma zero_digit [simp]: "is_ascii_digit CHR ''0''"
  by (simp add: is_ascii_digit_def)

lemma digits_no_dot: "list_all is_ascii_digit ds \<Longrightarrow> CHR ''.'' \<notin> set ds"
  by (auto simp: list_all_iff)

lemma digits_hd: "list_all is_ascii_digit ds \<Longrightarrow> ds \<noteq> [] \<Longrightarrow> hd ds \<noteq> CHR ''-'' \<and> hd ds \<noteq> CHR ''+''"
  by (cases ds) auto

lemma parse_i64_digits:
  assumes "list_all is_ascii_digit ds" "ds \<noteq> []"
  shows "parse_i64 ds = i64_of (int (digits_value ds))"
  using assms digits_hd [OF assms] by (simp add: parse_i64_def)

lemma strip_minus:
  assumes "list_all is_ascii_digit ds"
  shows "strip_prefix ''-'' ((if neg then ''-'' else []) @ ds @ rest) =
    (if neg then Some (ds @ rest) else if ds = [] then strip_prefix ''-'' rest else None)"
  using assms by (cases ds) (auto simp: strip_prefix_def)

lemma parse_decimal_literal_point:
  assumes "list_all is_ascii_digit ip" "list_all is_ascii_digit fp" "ip \<noteq> []" "length fp \<le> 255"
    and "i64_of (int (digits_value (ip @ fp))) = Some m"
  shows "parse_decimal_literal ((if neg then ''-'' else []) @ ip @ ''.'' @ fp) c =
    Ok (if neg then - m else m, word_of_nat (length fp))"
  using assms strip_minus [OF assms(1), of neg "''.'' @ fp"]
  by (simp add: parse_decimal_literal_def split_once_append digits_no_dot parse_i64_digits Let_def)

lemma parse_decimal_literal_plain:
  assumes "list_all is_ascii_digit ip" "ip \<noteq> []" and "i64_of (int (digits_value ip)) = Some m"
  shows "parse_decimal_literal ((if neg then ''-'' else []) @ ip) c =
    Ok (if neg then - m else m, 0)"
proof -
  have "split_once (CHR ''.'') ip = None" using assms(1) by (simp add: split_once_None digits_no_dot)
  then show ?thesis using assms strip_minus [OF assms(1), of neg "[]"]
    by (simp add: parse_decimal_literal_def parse_i64_digits Let_def)
qed

lemma i64_of_abs:
  assumes "sint u \<noteq> i64_min"
  shows "i64_of \<bar>sint u\<bar> = Some (if sint u < 0 then - u else u)"
  using assms sint_i64_bounds [of u]
  by (auto simp: i64_of_Some_iff in_i64_def sint_uminus_i64)

text \<open>
  Claim (C31). Round trip: the text a decimal is displayed as parses back to the same unscaled
  integer and the same scale. The least \<^verbatim>\<open>i64\<close> is the one exception: its digits do not fit.
\<close>

theorem parse_format_decimal:
  assumes "sint u \<noteq> i64_min"
  shows "parse_decimal_literal (format_decimal u scale) c = Ok (u, scale)"
proof (cases "scale = 0")
  case True
  have "format_decimal u scale = (if sint u < 0 then ''-'' else []) @ show_nat (nat \<bar>sint u\<bar>)"
    using True by (simp add: format_decimal_def show_i64_def)
  moreover have "i64_of (int (digits_value (show_nat (nat \<bar>sint u\<bar>)))) = Some (if sint u < 0 then - u else u)"
    using i64_of_abs [OF assms] by simp
  ultimately show ?thesis
    using parse_decimal_literal_plain [OF show_nat_digits show_nat_nonempty, of "nat \<bar>sint u\<bar>" _ "sint u < 0" c] True
    by simp
next
  case False
  define sc where "sc = unat scale"
  define ds0 where "ds0 = show_nat (nat \<bar>sint u\<bar>)"
  define ds where "ds = (if length ds0 \<le> sc then replicate (sc + 1 - length ds0) (CHR ''0'') @ ds0 else ds0)"
  define ip where "ip = take (length ds - sc) ds"
  define fp where "fp = drop (length ds - sc) ds"
  have fmt: "format_decimal u scale = (if sint u < 0 then ''-'' else []) @ ip @ ''.'' @ fp"
    using False unfolding format_decimal_def Let_def
    by (simp only: if_False sc_def [symmetric] ds0_def [symmetric] ds_def [symmetric]
        ip_def [symmetric] fp_def [symmetric])
  have len: "sc < length ds" by (auto simp: ds_def)
  have dig: "list_all is_ascii_digit ds"
    using show_nat_digits by (simp add: ds_def ds0_def list_all_iff)
  have ipfp: "ip @ fp = ds" by (simp add: ip_def fp_def)
  then have ipd: "list_all is_ascii_digit ip" "list_all is_ascii_digit fp"
    using dig by (metis list_all_append)+
  have lfp: "length fp = sc" using len by (simp add: fp_def)
  have "sc \<le> 255" using unat_bound [of scale] by (simp add: sc_def)
  have "digits_value (ip @ fp) = nat \<bar>sint u\<bar>" unfolding ipfp by (simp add: ds_def ds0_def)
  then have v: "i64_of (int (digits_value (ip @ fp))) = Some (if sint u < 0 then - u else u)"
    using i64_of_abs [OF assms] by simp
  have "ip \<noteq> []" using len by (auto simp: ip_def)
  then have "parse_decimal_literal (format_decimal u scale) c =
      Ok (if sint u < 0 then - (if sint u < 0 then - u else u) else (if sint u < 0 then - u else u),
          word_of_nat (length fp))"
    unfolding fmt using ipd lfp \<open>sc \<le> 255\<close> v by (intro parse_decimal_literal_point) auto
  then show ?thesis by (simp add: lfp sc_def)
qed

theorem parse_format_decimal_witness:
  "format_decimal (word_of_int (- 5)) 2 = ''-0.05'' \<and>
   parse_decimal_literal (format_decimal (word_of_int (- 5)) 2) ''c'' = Ok (word_of_int (- 5), 2)"
proof -
  have "format_decimal (word_of_int (- 5)) 2 = ''-0.05''" by code_simp
  moreover have "sint (word_of_int (- 5) :: i64) \<noteq> i64_min" by code_simp
  ultimately show ?thesis using parse_format_decimal [of "word_of_int (- 5)" 2 "''c''"] by blast
qed

section \<open>Dates sort as text\<close>

definition date_fields :: "string \<Rightarrow> nat \<times> nat \<times> nat" where
  "date_fields s =
     (digits_value (take 4 s), digits_value (take 2 (drop 5 s)), digits_value (take 2 (drop 8 s)))"

definition date_ok :: "string \<Rightarrow> bool" where
  "date_ok s \<longleftrightarrow>
     (\<exists>y m d. s = y @ ''-'' @ m @ ''-'' @ d \<and> length y = 4 \<and> length m = 2 \<and> length d = 2
        \<and> list_all is_ascii_digit (y @ m @ d)
        \<and> digits_value m \<in> {1..12} \<and> digits_value d \<in> {1..31})"

definition then_cmp :: "ordering \<Rightarrow> ordering \<Rightarrow> ordering" where
  "then_cmp a b = (if a = Equal then b else a)"

definition date_cmp :: "nat \<times> nat \<times> nat \<Rightarrow> nat \<times> nat \<times> nat \<Rightarrow> ordering" where
  "date_cmp a b = then_cmp (int_cmp (int (fst a)) (int (fst b)))
     (then_cmp (int_cmp (int (fst (snd a))) (int (fst (snd b))))
               (int_cmp (int (snd (snd a))) (int (snd (snd b)))))"

lemma str_cmp_append:
  "length a = length b \<Longrightarrow> str_cmp (a @ x) (b @ y) = then_cmp (str_cmp a b) (str_cmp x y)"
  by (induction a b rule: list_induct2) (auto simp: then_cmp_def str_cmp.simps(4) Let_def)

lemma digits_value_bound: "list_all is_ascii_digit s \<Longrightarrow> digits_value s < 10 ^ length s"
proof (induction s rule: rev_induct)
  case (snoc c s)
  then have "digit_value c < 10" "digits_value s < 10 ^ length s"
    by (auto intro: digit_value_less)
  then show ?case by simp
qed simp

lemma digits_value_Cons:
  "digits_value (c # s) = digit_value c * 10 ^ length s + digits_value s"
  by (induction s rule: rev_induct) (simp_all flip: append_Cons add: digits_value_def)

lemma digit_value_less_iff:
  "is_ascii_digit a \<Longrightarrow> is_ascii_digit b \<Longrightarrow>
     ((of_char a :: nat) < of_char b) = (digit_value a < digit_value b)"
  by (auto simp: is_ascii_digit_def digit_value_def)

lemma lex_weight: "(x :: nat) < y \<Longrightarrow> u < P \<Longrightarrow> x * P + u < y * P + v"
proof -
  assume "x < y" "u < P"
  then have "x * P + u < Suc x * P" by simp
  also have "\<dots> \<le> y * P" using \<open>x < y\<close> by (intro mult_le_mono1) simp
  finally show ?thesis by simp
qed

lemma str_cmp_digits:
  assumes "length a = length b" "list_all is_ascii_digit a" "list_all is_ascii_digit b"
  shows "str_cmp a b = int_cmp (int (digits_value a)) (int (digits_value b))"
  using assms
proof (induction a b rule: list_induct2)
  case Nil
  then show ?case by (simp add: int_cmp_def)
next
  case (Cons x xs y ys)
  from Cons.prems have d: "is_ascii_digit x" "is_ascii_digit y" and
    ds: "list_all is_ascii_digit xs" "list_all is_ascii_digit ys" by auto
  have b: "digits_value xs < 10 ^ length ys" "digits_value ys < 10 ^ length ys"
    using digits_value_bound [OF ds(1)] digits_value_bound [OF ds(2)] Cons.hyps by auto
  consider (lt) "digit_value x < digit_value y" | (gt) "digit_value y < digit_value x"
    | (eq) "digit_value x = digit_value y" by linarith
  then show ?case
  proof cases
    case lt
    then have "digits_value (x # xs) < digits_value (y # ys)"
      using b Cons.hyps by (simp add: digits_value_Cons lex_weight)
    then show ?thesis using lt d by (simp add: str_cmp.simps(4) Let_def digit_value_less_iff int_cmp_def)
  next
    case gt
    then have "digits_value (y # ys) < digits_value (x # xs)"
      using b Cons.hyps by (simp add: digits_value_Cons lex_weight)
    then show ?thesis using gt d
      by (simp add: str_cmp.simps(4) Let_def digit_value_less_iff int_cmp_def)
  next
    case eq
    then have "str_cmp (x # xs) (y # ys) = str_cmp xs ys"
      using d by (simp add: str_cmp.simps(4) Let_def digit_value_less_iff)
    then show ?thesis using Cons.IH [OF ds] eq Cons.hyps by (simp add: digits_value_Cons int_cmp_def)
  qed
qed

lemma then_cmp_simps [simp]: "then_cmp Equal x = x" "then_cmp Less x = Less" "then_cmp Greater x = Greater"
  by (simp_all add: then_cmp_def)

lemma digit_not_cont8: "is_ascii_digit c \<Longrightarrow> \<not> cont8 (word_of_nat (of_char c))"
  by (auto simp: is_ascii_digit_def in_range8_def unat_of_nat)

lemma date_part_iff:
  assumes "0 < b - a" "b - a \<le> 4" "b \<le> length s"
  shows "ok_or e (Option.bind (str_get s a b) (\<lambda>part.
            if part \<noteq> [] \<and> list_all is_ascii_digit part then parse_unsigned (2 ^ 32) part else None)) = Ok n
         \<longleftrightarrow> str_get s a b \<noteq> None \<and> list_all is_ascii_digit (take (b - a) (drop a s))
             \<and> n = digits_value (take (b - a) (drop a s))"
proof -
  let ?p = "take (b - a) (drop a s)"
  have len: "length ?p = b - a" "?p \<noteq> []" using assms by auto
  have pu: "parse_unsigned (2 ^ 32) ?p = Some (digits_value ?p)" if d: "list_all is_ascii_digit ?p"
  proof -
    have "digits_value ?p < 10 ^ (b - a)" using digits_value_bound [OF d] len by simp
    also have "\<dots> \<le> 10 ^ 4" using assms by (intro power_increasing) auto
    finally have "digits_value ?p < 2 ^ 32" by simp
    moreover have "hd ?p \<noteq> CHR ''+''" using d len by (cases ?p) auto
    ultimately show ?thesis using d len by (simp add: parse_unsigned_def)
  qed
  show ?thesis
    using pu len(2) by (auto simp: str_get_def ok_or_def split: if_splits)
qed

lemma date_shape:
  assumes "length s = 10" "s ! 4 = CHR ''-''" "s ! 7 = CHR ''-''"
  shows "s = take 4 s @ ''-'' @ take 2 (drop 5 s) @ ''-'' @ take 2 (drop 8 s)"
proof -
  have "drop 4 s = s ! 4 # drop 5 s" "drop 7 s = s ! 7 # drop 8 s"
    using assms(1) by (simp_all add: Cons_nth_drop_Suc [symmetric])
  moreover have "drop 5 s = take 2 (drop 5 s) @ drop 7 s"
    using append_take_drop_id [of 2 "drop 5 s"] by simp
  moreover have "s = take 4 s @ drop 4 s" by simp
  ultimately show ?thesis using assms by simp
qed

lemma parse_date_literal_iff: "parse_date_literal s c = Ok t \<longleftrightarrow> t = s \<and> date_ok s"
proof
  assume l: "parse_date_literal s c = Ok t"
  then have sh: "length s = 10" "s ! 4 = CHR ''-''" "s ! 7 = CHR ''-''"
    by (auto simp: parse_date_literal_def Let_def split: if_splits)
  let ?m = "take 2 (drop 5 s)" and ?d = "take 2 (drop 8 s)"
  from l sh have "t = s" and "list_all is_ascii_digit (take 4 s @ ?m @ ?d)"
    and "digits_value ?m \<in> {1..12}" and "digits_value ?d \<in> {1..31}"
    by (auto simp: parse_date_literal_def Let_def bindR_Ok_iff date_part_iff split: if_splits)
  moreover have "length (take 4 s) = 4" "length ?m = 2" "length ?d = 2" using sh by simp_all
  ultimately show "t = s \<and> date_ok s"
    unfolding date_ok_def using date_shape [OF sh] by blast
next
  assume r: "t = s \<and> date_ok s"
  then obtain y m d where s: "s = y @ ''-'' @ m @ ''-'' @ d"
    and l: "length y = 4" "length m = 2" "length d = 2" and dg: "list_all is_ascii_digit (y @ m @ d)"
    and v: "digits_value m \<in> {1..12}" "digits_value d \<in> {1..31}" and t: "t = s"
    unfolding date_ok_def by blast
  have sh: "length s = 10" "s ! 4 = CHR ''-''" "s ! 7 = CHR ''-''"
    using l by (simp_all add: s nth_append)
  have tk: "take 4 s = y" "take 2 (drop 5 s) = m" "take 2 (drop 8 s) = d"
    using l by (simp_all add: s)
  have "s ! 5 = hd m" "s ! 8 = hd d" using l by (cases m; cases d; simp add: s nth_append)+
  then have "is_ascii_digit (s ! 5)" "is_ascii_digit (s ! 8)" using dg l by (cases m; cases d; simp)+
  moreover have dash: "\<not> cont8 (word_of_nat (of_char CHR ''-''))" by (simp add: in_range8_def)
  ultimately have "str_get s 0 4 \<noteq> None" "str_get s 5 7 \<noteq> None" "str_get s 8 10 \<noteq> None"
    using sh dash by (simp_all add: str_get_def is_char_boundary_def digit_not_cont8)
  then show "parse_date_literal s c = Ok t"
    using sh tk dg v t l
    by (simp add: parse_date_literal_def Let_def bindR_Ok_iff date_part_iff)
qed

text \<open>
  The order the server gives to dates it has accepted, byte order of their text, is
  the chronological order: year, then month, then day.
\<close>

theorem date_text_order:
  assumes "parse_date_literal a c = Ok a'" "parse_date_literal b c = Ok b'"
  shows "str_cmp a' b' = date_cmp (date_fields a') (date_fields b')"
proof -
  from assms have "date_ok a'" "date_ok b'" by (auto simp: parse_date_literal_iff)
  then obtain y m d y' m' d' where a: "a' = y @ ''-'' @ m @ ''-'' @ d" "b' = y' @ ''-'' @ m' @ ''-'' @ d'"
    and l: "length y = 4" "length m = 2" "length d = 2" "length y' = 4" "length m' = 2" "length d' = 2"
    and dg: "list_all is_ascii_digit (y @ m @ d)" "list_all is_ascii_digit (y' @ m' @ d')"
    unfolding date_ok_def by blast
  have "str_cmp a' b' = then_cmp (str_cmp y y') (then_cmp (str_cmp m m') (str_cmp d d'))"
    unfolding a using l by (simp add: str_cmp_append str_cmp_append [of "''-''" "''-''", simplified])
  moreover have "date_fields a' = (digits_value y, digits_value m, digits_value d)"
    "date_fields b' = (digits_value y', digits_value m', digits_value d')"
    unfolding a date_fields_def using l by simp_all
  ultimately show ?thesis using l dg by (simp add: date_cmp_def str_cmp_digits)
qed

theorem date_text_order_witness:
  "str_cmp ''2024-02-30'' ''2024-11-05'' =
     date_cmp (date_fields ''2024-02-30'') (date_fields ''2024-11-05'')"
proof -
  have "parse_date_literal ''2024-02-30'' ''d'' = Ok ''2024-02-30''"
    "parse_date_literal ''2024-11-05'' ''d'' = Ok ''2024-11-05''" by code_simp+
  then show ?thesis by (rule date_text_order)
qed

end
