(* ===== verification/Log_Codec.thy ===== *)
theory Log_Codec
  imports Sql_Value
begin

text \<open>
  The payload encoding of the write-ahead log (\<^verbatim>\<open>src/src/storage/log.rs\<close>, lines 53 to 486):
  the writers \<^verbatim>\<open>write_*\<close> and \<^verbatim>\<open>encode_*\<close>, the readers \<^verbatim>\<open>read_*\<close> and
  \<^verbatim>\<open>decode_entry\<close>, and the schema changes of \<^verbatim>\<open>src/src/storage/mod.rs\<close>.

  A writer of the source pushes onto a buffer; here it returns the bytes it pushes.  A reader
  takes the whole slice and a position, and returns what it read with the position behind it,
  as the \<^verbatim>\<open>&mut pos\<close> of the source does.  The interface \<open>codec\<close> pairs a writer
  with its reader: reading at a place that holds what was written gives it back.
\<close>

section \<open>Records\<close>

datatype schema_change =
    AddColumn column_schema bool
  | DropColumn string
  | ModifyColumn column_schema
  | AddPrimaryKey string
  | DropPrimaryKey

datatype entry =
    CreateTable string "column_schema list" "string option"
  | InsertRow string row
  | Transaction "(string \<times> row) list"
  | CreateDatabase string
  | DropDatabase string
  | AlterTable string schema_change

abbreviation (input) TAG_CREATE_TABLE :: u8 where "TAG_CREATE_TABLE \<equiv> 1"
abbreviation (input) TAG_INSERT_ROW :: u8 where "TAG_INSERT_ROW \<equiv> 2"
abbreviation (input) TAG_TRANSACTION :: u8 where "TAG_TRANSACTION \<equiv> 3"
abbreviation (input) TAG_CREATE_DATABASE :: u8 where "TAG_CREATE_DATABASE \<equiv> 4"
abbreviation (input) TAG_DROP_DATABASE :: u8 where "TAG_DROP_DATABASE \<equiv> 5"
abbreviation (input) TAG_ALTER_TABLE :: u8 where "TAG_ALTER_TABLE \<equiv> 6"

abbreviation (input) ALTER_ADD_COLUMN :: u8 where "ALTER_ADD_COLUMN \<equiv> 0"
abbreviation (input) ALTER_DROP_COLUMN :: u8 where "ALTER_DROP_COLUMN \<equiv> 1"
abbreviation (input) ALTER_MODIFY_COLUMN :: u8 where "ALTER_MODIFY_COLUMN \<equiv> 2"
abbreviation (input) ALTER_ADD_PRIMARY_KEY :: u8 where "ALTER_ADD_PRIMARY_KEY \<equiv> 3"
abbreviation (input) ALTER_DROP_PRIMARY_KEY :: u8 where "ALTER_DROP_PRIMARY_KEY \<equiv> 4"

abbreviation (input) VALUE_NULL :: u8 where "VALUE_NULL \<equiv> 0"
abbreviation (input) VALUE_INT :: u8 where "VALUE_INT \<equiv> 1"
abbreviation (input) VALUE_VARCHAR :: u8 where "VALUE_VARCHAR \<equiv> 2"
abbreviation (input) VALUE_DECIMAL :: u8 where "VALUE_DECIMAL \<equiv> 3"
abbreviation (input) VALUE_DATE :: u8 where "VALUE_DATE \<equiv> 4"

abbreviation (input) COLUMN_TYPE_INT :: u8 where "COLUMN_TYPE_INT \<equiv> 0"
abbreviation (input) COLUMN_TYPE_VARCHAR :: u8 where "COLUMN_TYPE_VARCHAR \<equiv> 1"
abbreviation (input) COLUMN_TYPE_DECIMAL :: u8 where "COLUMN_TYPE_DECIMAL \<equiv> 2"
abbreviation (input) COLUMN_TYPE_DATE :: u8 where "COLUMN_TYPE_DATE \<equiv> 3"

abbreviation (input) COLUMN_FLAG_NULLABLE :: u8 where "COLUMN_FLAG_NULLABLE \<equiv> 1"
abbreviation (input) COLUMN_FLAG_AUTO_INCREMENT :: u8 where "COLUMN_FLAG_AUTO_INCREMENT \<equiv> 2"

section \<open>Writers\<close>

definition write_u32 :: "u32 \<Rightarrow> u8 list" where
  "write_u32 n = u32_le n"

definition write_string :: "string \<Rightarrow> u8 list" where
  "write_string s = write_u32 (word_of_nat (length s)) @ as_bytes s"

fun write_value :: "value \<Rightarrow> u8 list" where
  "write_value VNull = [VALUE_NULL]"
| "write_value (VInt n) = VALUE_INT # u64_le n"
| "write_value (VVarchar s) = VALUE_VARCHAR # write_string s"
| "write_value (VDecimal unscaled scale) = VALUE_DECIMAL # u64_le unscaled @ [scale]"
| "write_value (VDate s) = VALUE_DATE # write_string s"

definition write_column_schema :: "column_schema \<Rightarrow> u8 list" where
  "write_column_schema col =
     write_string (cs_name col)
     @ (case cs_type col of
          TInt \<Rightarrow> [COLUMN_TYPE_INT]
        | TVarchar \<Rightarrow> [COLUMN_TYPE_VARCHAR]
        | TDate \<Rightarrow> [COLUMN_TYPE_DATE]
        | TDecimal scale \<Rightarrow> [COLUMN_TYPE_DECIMAL, scale])
     @ [(if cs_nullable col then COLUMN_FLAG_NULLABLE else 0)
        OR (if cs_auto_increment col then COLUMN_FLAG_AUTO_INCREMENT else 0)]"

definition encode_create_table :: "string \<Rightarrow> column_schema list \<Rightarrow> string option \<Rightarrow> u8 list" where
  "encode_create_table tbl columns primary_key =
     [TAG_CREATE_TABLE] @ write_string tbl
     @ (case primary_key of Some pk \<Rightarrow> [1] @ write_string pk | None \<Rightarrow> [0])
     @ write_u32 (word_of_nat (length columns))
     @ concat (map write_column_schema columns)"

definition encode_alter_table :: "string \<Rightarrow> schema_change \<Rightarrow> u8 list" where
  "encode_alter_table tbl change =
     [TAG_ALTER_TABLE] @ write_string tbl
     @ (case change of
          AddColumn column is_primary_key \<Rightarrow>
            [ALTER_ADD_COLUMN] @ write_column_schema column @ [if is_primary_key then 1 else 0]
        | DropColumn name \<Rightarrow> [ALTER_DROP_COLUMN] @ write_string name
        | ModifyColumn column \<Rightarrow> [ALTER_MODIFY_COLUMN] @ write_column_schema column
        | AddPrimaryKey name \<Rightarrow> [ALTER_ADD_PRIMARY_KEY] @ write_string name
        | DropPrimaryKey \<Rightarrow> [ALTER_DROP_PRIMARY_KEY])"

text \<open>The count and the values of a row, a loop the source writes out twice.\<close>

definition write_row :: "row \<Rightarrow> u8 list" where
  "write_row row = write_u32 (word_of_nat (length row)) @ concat (map write_value row)"

definition encode_insert_row :: "string \<Rightarrow> row \<Rightarrow> u8 list" where
  "encode_insert_row tbl row = [TAG_INSERT_ROW] @ write_string tbl @ write_row row"

definition write_table_row :: "string \<times> row \<Rightarrow> u8 list" where
  "write_table_row tr = write_string (fst tr) @ write_row (snd tr)"

definition encode_transaction :: "(string \<times> row) list \<Rightarrow> u8 list" where
  "encode_transaction rows =
     [TAG_TRANSACTION] @ write_u32 (word_of_nat (length rows)) @ concat (map write_table_row rows)"

definition encode_create_database :: "string \<Rightarrow> u8 list" where
  "encode_create_database name = [TAG_CREATE_DATABASE] @ write_string name"

definition encode_drop_database :: "string \<Rightarrow> u8 list" where
  "encode_drop_database name = [TAG_DROP_DATABASE] @ write_string name"

fun encode_entry :: "entry \<Rightarrow> u8 list" where
  "encode_entry (CreateTable tbl cols pk) = encode_create_table tbl cols pk"
| "encode_entry (InsertRow tbl row) = encode_insert_row tbl row"
| "encode_entry (Transaction rows) = encode_transaction rows"
| "encode_entry (CreateDatabase n) = encode_create_database n"
| "encode_entry (DropDatabase n) = encode_drop_database n"
| "encode_entry (AlterTable tbl ch) = encode_alter_table tbl ch"

section \<open>Readers\<close>

type_synonym 'a reader = "u8 list \<Rightarrow> nat \<Rightarrow> ('a \<times> nat) result"

definition corrupt :: "string \<Rightarrow> exn" where
  "corrupt context = Err (Execution (''corrupt data file: '' @ context))"

definition err_length_overflow :: exn where "err_length_overflow = corrupt ''length overflow''"
definition err_truncated_u32 :: exn where "err_truncated_u32 = corrupt ''truncated u32''"
definition err_truncated_i64 :: exn where "err_truncated_i64 = corrupt ''truncated i64''"
definition err_truncated_tag :: exn where "err_truncated_tag = corrupt ''truncated tag byte''"
definition err_truncated_string :: exn where "err_truncated_string = corrupt ''truncated string''"
definition err_invalid_utf8 :: exn where "err_invalid_utf8 = corrupt ''invalid utf-8''"

definition err_unknown :: "string \<Rightarrow> u8 \<Rightarrow> exn" where
  "err_unknown what b = corrupt (''unknown '' @ what @ '' '' @ show_nat (unat b))"

definition read_u32 :: "u32 reader" where
  "read_u32 bytes pos =
     bindR (ok_or err_length_overflow (checked_add_usize pos 4)) (\<lambda>endp.
     bindR (ok_or err_truncated_u32 (get_range bytes pos endp)) (\<lambda>slice.
     Ok (u32_from_le slice, endp)))"

definition read_i64 :: "i64 reader" where
  "read_i64 bytes pos =
     bindR (ok_or err_length_overflow (checked_add_usize pos 8)) (\<lambda>endp.
     bindR (ok_or err_truncated_i64 (get_range bytes pos endp)) (\<lambda>slice.
     Ok (u64_from_le slice, endp)))"

definition read_byte :: "u8 reader" where
  "read_byte bytes pos =
     bindR (ok_or err_truncated_tag (get_at bytes pos)) (\<lambda>b. Ok (b, pos + 1))"

definition read_string :: "string reader" where
  "read_string bytes pos =
     bindR (read_u32 bytes pos) (\<lambda>(len, pos).
     bindR (ok_or err_length_overflow (checked_add_usize pos (unat len))) (\<lambda>endp.
     bindR (ok_or err_truncated_string (get_range bytes pos endp)) (\<lambda>slice.
     bindR (ok_or err_invalid_utf8 (from_utf8 slice)) (\<lambda>s.
     Ok (s, endp)))))"

text \<open>A \<^verbatim>\<open>for _ in 0..n\<close> loop that pushes what a reader returns.\<close>

fun read_many :: "nat \<Rightarrow> 'a reader \<Rightarrow> 'a list reader" where
  "read_many 0 rd bytes pos = Ok ([], pos)"
| "read_many (Suc n) rd bytes pos =
     bindR (rd bytes pos) (\<lambda>(x, pos).
     bindR (read_many n rd bytes pos) (\<lambda>(xs, pos).
     Ok (x # xs, pos)))"

definition read_column_type :: "column_type reader" where
  "read_column_type bytes pos =
     bindR (read_byte bytes pos) (\<lambda>(tag, pos).
     if tag = COLUMN_TYPE_INT then Ok (TInt, pos)
     else if tag = COLUMN_TYPE_VARCHAR then Ok (TVarchar, pos)
     else if tag = COLUMN_TYPE_DATE then Ok (TDate, pos)
     else if tag = COLUMN_TYPE_DECIMAL then
       bindR (read_byte bytes pos) (\<lambda>(scale, pos). Ok (TDecimal scale, pos))
     else Inl (err_unknown ''column type tag'' tag))"

definition read_column_schema :: "column_schema reader" where
  "read_column_schema bytes pos =
     bindR (read_string bytes pos) (\<lambda>(name, pos).
     bindR (read_column_type bytes pos) (\<lambda>(ct, pos).
     bindR (read_byte bytes pos) (\<lambda>(flags, pos).
     Ok (\<lparr>cs_name = name, cs_type = ct,
          cs_nullable = (flags AND COLUMN_FLAG_NULLABLE \<noteq> 0),
          cs_auto_increment = (flags AND COLUMN_FLAG_AUTO_INCREMENT \<noteq> 0)\<rparr>, pos))))"

definition read_value :: "value reader" where
  "read_value bytes pos =
     bindR (read_byte bytes pos) (\<lambda>(tag, pos).
     if tag = VALUE_NULL then Ok (VNull, pos)
     else if tag = VALUE_INT then bindR (read_i64 bytes pos) (\<lambda>(n, pos). Ok (VInt n, pos))
     else if tag = VALUE_VARCHAR then
       bindR (read_string bytes pos) (\<lambda>(s, pos). Ok (VVarchar s, pos))
     else if tag = VALUE_DECIMAL then
       bindR (read_i64 bytes pos) (\<lambda>(unscaled, pos).
       bindR (read_byte bytes pos) (\<lambda>(scale, pos). Ok (VDecimal unscaled scale, pos)))
     else if tag = VALUE_DATE then
       bindR (read_string bytes pos) (\<lambda>(s, pos). Ok (VDate s, pos))
     else Inl (err_unknown ''value tag'' tag))"

definition read_row :: "row reader" where
  "read_row bytes pos =
     bindR (read_u32 bytes pos) (\<lambda>(value_count, pos).
     read_many (unat value_count) read_value bytes pos)"

definition read_table_row :: "(string \<times> row) reader" where
  "read_table_row bytes pos =
     bindR (read_string bytes pos) (\<lambda>(tbl, pos).
     bindR (read_row bytes pos) (\<lambda>(row, pos). Ok ((tbl, row), pos)))"

definition read_primary_key :: "string option reader" where
  "read_primary_key bytes pos =
     bindR (read_byte bytes pos) (\<lambda>(flag, pos).
     if flag = 0 then Ok (None, pos)
     else if flag = 1 then bindR (read_string bytes pos) (\<lambda>(s, pos). Ok (Some s, pos))
     else Inl (err_unknown ''primary-key flag'' flag))"

definition read_schema_change :: "schema_change reader" where
  "read_schema_change bytes pos =
     bindR (read_byte bytes pos) (\<lambda>(tag, pos).
     if tag = ALTER_ADD_COLUMN then
       bindR (read_column_schema bytes pos) (\<lambda>(column, pos).
       bindR (read_byte bytes pos) (\<lambda>(b, pos). Ok (AddColumn column (b \<noteq> 0), pos)))
     else if tag = ALTER_DROP_COLUMN then
       bindR (read_string bytes pos) (\<lambda>(s, pos). Ok (DropColumn s, pos))
     else if tag = ALTER_MODIFY_COLUMN then
       bindR (read_column_schema bytes pos) (\<lambda>(column, pos). Ok (ModifyColumn column, pos))
     else if tag = ALTER_ADD_PRIMARY_KEY then
       bindR (read_string bytes pos) (\<lambda>(s, pos). Ok (AddPrimaryKey s, pos))
     else if tag = ALTER_DROP_PRIMARY_KEY then Ok (DropPrimaryKey, pos)
     else Inl (err_unknown ''alter-table sub-tag'' tag))"

definition decode_entry :: "u8 list \<Rightarrow> entry result" where
  "decode_entry bytes =
     bindR (read_byte bytes 0) (\<lambda>(tag, pos).
     if tag = TAG_CREATE_TABLE then
       bindR (read_string bytes pos) (\<lambda>(tbl, pos).
       bindR (read_primary_key bytes pos) (\<lambda>(primary_key, pos).
       bindR (read_u32 bytes pos) (\<lambda>(column_count, pos).
       bindR (read_many (unat column_count) read_column_schema bytes pos) (\<lambda>(columns, pos).
       Ok (CreateTable tbl columns primary_key)))))
     else if tag = TAG_INSERT_ROW then
       bindR (read_table_row bytes pos) (\<lambda>((tbl, row), pos). Ok (InsertRow tbl row))
     else if tag = TAG_TRANSACTION then
       bindR (read_u32 bytes pos) (\<lambda>(row_count, pos).
       bindR (read_many (unat row_count) read_table_row bytes pos) (\<lambda>(rows, pos).
       Ok (Transaction rows)))
     else if tag = TAG_CREATE_DATABASE then
       bindR (read_string bytes pos) (\<lambda>(s, pos). Ok (CreateDatabase s))
     else if tag = TAG_DROP_DATABASE then
       bindR (read_string bytes pos) (\<lambda>(s, pos). Ok (DropDatabase s))
     else if tag = TAG_ALTER_TABLE then
       bindR (read_string bytes pos) (\<lambda>(tbl, pos).
       bindR (read_schema_change bytes pos) (\<lambda>(change, pos). Ok (AlterTable tbl change)))
     else Inl (err_unknown ''entry tag'' tag))"

section \<open>What can be encoded\<close>

text \<open>
  The lengths are written \<^verbatim>\<open>as u32\<close>, so a record encodes faithfully when every string is text
  and every count fits 32 bits.
\<close>

definition enc_string_ok :: "string \<Rightarrow> bool" where
  "enc_string_ok s \<longleftrightarrow> str_ok s \<and> length s < 2 ^ 32"

fun enc_value_ok :: "value \<Rightarrow> bool" where
  "enc_value_ok (VVarchar s) = enc_string_ok s"
| "enc_value_ok (VDate s) = enc_string_ok s"
| "enc_value_ok _ = True"

definition enc_row_ok :: "row \<Rightarrow> bool" where
  "enc_row_ok row \<longleftrightarrow> length row < 2 ^ 32 \<and> list_all enc_value_ok row"

definition enc_table_row_ok :: "string \<times> row \<Rightarrow> bool" where
  "enc_table_row_ok tr \<longleftrightarrow> enc_string_ok (fst tr) \<and> enc_row_ok (snd tr)"

definition enc_column_ok :: "column_schema \<Rightarrow> bool" where
  "enc_column_ok col \<longleftrightarrow> enc_string_ok (cs_name col)"

fun enc_key_ok :: "string option \<Rightarrow> bool" where
  "enc_key_ok None = True"
| "enc_key_ok (Some s) = enc_string_ok s"

fun enc_change_ok :: "schema_change \<Rightarrow> bool" where
  "enc_change_ok (AddColumn col b) = enc_column_ok col"
| "enc_change_ok (DropColumn s) = enc_string_ok s"
| "enc_change_ok (ModifyColumn col) = enc_column_ok col"
| "enc_change_ok (AddPrimaryKey s) = enc_string_ok s"
| "enc_change_ok DropPrimaryKey = True"

fun enc_entry_ok :: "entry \<Rightarrow> bool" where
  "enc_entry_ok (CreateTable tbl cols pk) =
     (enc_string_ok tbl \<and> length cols < 2 ^ 32 \<and> list_all enc_column_ok cols
      \<and> enc_key_ok pk)"
| "enc_entry_ok (InsertRow tbl row) = (enc_string_ok tbl \<and> enc_row_ok row)"
| "enc_entry_ok (Transaction rows) = (length rows < 2 ^ 32 \<and> list_all enc_table_row_ok rows)"
| "enc_entry_ok (CreateDatabase n) = enc_string_ok n"
| "enc_entry_ok (DropDatabase n) = enc_string_ok n"
| "enc_entry_ok (AlterTable tbl ch) = (enc_string_ok tbl \<and> enc_change_ok ch)"

section \<open>Positions that hold given bytes\<close>

definition holds_at :: "u8 list \<Rightarrow> nat \<Rightarrow> u8 list \<Rightarrow> bool" where
  "holds_at bytes pos xs \<longleftrightarrow> take (length xs) (drop pos bytes) = xs"

lemma holds_at_Nil [simp]: "holds_at bytes pos []"
  by (simp add: holds_at_def)

lemma holds_at_append [simp]:
  "holds_at bytes pos (xs @ ys) \<longleftrightarrow> holds_at bytes pos xs \<and> holds_at bytes (pos + length xs) ys"
proof
  assume "holds_at bytes pos (xs @ ys)"
  then have h: "take (length xs + length ys) (drop pos bytes) = xs @ ys"
    by (simp add: holds_at_def)
  have "take (length xs) (drop pos bytes) = xs"
    using arg_cong [OF h, of "take (length xs)"] by (simp add: min_def)
  moreover have "take (length ys) (drop (pos + length xs) bytes) = ys"
    using arg_cong [OF h, of "drop (length xs)"] by (simp add: drop_take add.commute)
  ultimately show "holds_at bytes pos xs \<and> holds_at bytes (pos + length xs) ys"
    by (simp add: holds_at_def)
qed (simp add: holds_at_def take_add add.commute)

lemma holds_at_Cons:
  "holds_at bytes pos (x # xs) \<longleftrightarrow> holds_at bytes pos [x] \<and> holds_at bytes (Suc pos) xs"
  using holds_at_append [of bytes pos "[x]" xs] by simp

lemma holds_at_length: "holds_at bytes pos xs \<Longrightarrow> xs \<noteq> [] \<Longrightarrow> pos + length xs \<le> length bytes"
  unfolding holds_at_def
  by (drule arg_cong [of _ _ length]) (cases xs; auto simp: min_def split: if_splits)

lemma holds_at_range:
  assumes "holds_at bytes pos xs" "xs \<noteq> []"
  shows "get_range bytes pos (pos + length xs) = Some xs"
  using assms holds_at_length [OF assms] by (simp add: get_range_def holds_at_def)

lemma holds_at_self: "holds_at xs 0 xs"
  by (simp add: holds_at_def)

section \<open>The interface of a codec\<close>

locale codec =
  fixes wr :: "'a \<Rightarrow> u8 list" and rd :: "'a reader" and ok :: "'a \<Rightarrow> bool"
  assumes nonempty: "wr x \<noteq> []"
    and rd_wr: "holds_at bytes pos (wr x) \<Longrightarrow> ok x \<Longrightarrow> length bytes < usize_bound \<Longrightarrow>
      rd bytes pos = Ok (x, pos + length (wr x))"
begin

lemma read_many_wr:
  assumes "list_all ok xs" "length bytes < usize_bound" "holds_at bytes pos (concat (map wr xs))"
  shows "read_many (length xs) rd bytes pos = Ok (xs, pos + length (concat (map wr xs)))"
  using assms
proof (induction xs arbitrary: pos)
  case (Cons x xs)
  then show ?case using rd_wr [of bytes pos x] by (simp add: add.assoc)
qed simp

lemma counted_wr:
  assumes "list_all ok xs" "length xs < 2 ^ 32" "length bytes < usize_bound"
    and "holds_at bytes pos (concat (map wr xs))"
  shows "read_many (unat (word_of_nat (length xs) :: u32)) rd bytes pos =
    Ok (xs, pos + length (concat (map wr xs)))"
proof -
  have "unat (word_of_nat (length xs) :: u32) = length xs"
    using assms(2) by (simp add: unat_of_nat)
  then show ?thesis using read_many_wr assms by simp
qed

lemma decode_at_start:
  assumes "ok x" "length (wr x) < usize_bound"
  shows "rd (wr x) 0 = Ok (x, length (wr x))"
  using rd_wr [OF holds_at_self assms] by simp

end

section \<open>Every writer has its reader\<close>

lemma read_byte_at: "holds_at bytes pos [b] \<Longrightarrow> read_byte bytes pos = Ok (b, Suc pos)"
  using holds_at_length [of bytes pos "[b]"]
  by (auto simp: read_byte_def holds_at_def take_Suc hd_drop_conv_nth split: if_splits)

lemma read_u32_at:
  assumes "holds_at bytes pos (write_u32 n)" "length bytes < usize_bound"
  shows "read_u32 bytes pos = Ok (n, pos + 4)"
proof -
  have ne: "u32_le n \<noteq> []" by (metis length_uN_le(2) list.size(3) zero_neq_numeral)
  from holds_at_length [of bytes pos "u32_le n"] holds_at_range [of bytes pos "u32_le n"] assms ne
  show ?thesis by (simp add: read_u32_def write_u32_def checked_add_usize_def)
qed

lemma u64_le_nonempty: "u64_le n \<noteq> []"
  by (metis length_uN_le(3) list.size(3) zero_neq_numeral)

lemma read_i64_at:
  assumes "holds_at bytes pos (u64_le n)" "length bytes < usize_bound"
  shows "read_i64 bytes pos = Ok (n, pos + 8)"
proof -
  have ne: "u64_le n \<noteq> []" by (rule u64_le_nonempty)
  from holds_at_length [of bytes pos "u64_le n"] holds_at_range [of bytes pos "u64_le n"] assms ne
  show ?thesis by (simp add: read_i64_def checked_add_usize_def)
qed

lemma length_write_u32 [simp, codec_simps]: "length (write_u32 n) = 4"
  by (simp add: write_u32_def)

lemma write_u32_nonempty [simp]: "write_u32 n \<noteq> []"
  by (metis length_write_u32 list.size(3) zero_neq_numeral)

lemma length_write_string [simp, codec_simps]: "length (write_string s) = 4 + length s"
  by (simp add: write_string_def)

interpretation u32_codec: codec write_u32 read_u32 "\<lambda>_. True"
  by unfold_locales (simp_all add: read_u32_at)

interpretation i64_codec: codec u64_le read_i64 "\<lambda>_. True"
  by unfold_locales (simp_all add: read_i64_at u64_le_nonempty)

interpretation byte_codec: codec "\<lambda>b. [b]" read_byte "\<lambda>_. True"
  by unfold_locales (simp_all add: read_byte_at)

lemma get_range_empty: "pos \<le> length bytes \<Longrightarrow> get_range bytes pos pos = Some []"
  by (simp add: get_range_def)

interpretation string_codec: codec write_string read_string enc_string_ok
proof
  show "write_string s \<noteq> []" for s by (simp add: write_string_def)
next
  fix s bytes pos
  assume h: "holds_at bytes pos (write_string s)" and ok: "enc_string_ok s"
    and len: "length bytes < usize_bound"
  have l: "unat (word_of_nat (length s) :: u32) = length s"
    using ok by (simp add: enc_string_ok_def unat_of_nat)
  have e: "pos + 4 + length s \<le> length bytes"
    using holds_at_length [OF h] by (simp add: write_string_def)
  have h2: "holds_at bytes (pos + 4) (as_bytes s)" and h1: "holds_at bytes pos (write_u32 (word_of_nat (length s)))"
    using h by (simp_all add: write_string_def)
  have "get_range bytes (pos + 4) (pos + 4 + length s) = Some (as_bytes s)"
    using holds_at_range [OF h2] e by (cases "s = []") (auto simp: as_bytes_def get_range_empty)
  then show "read_string bytes pos = Ok (s, pos + length (write_string s))"
    using ok e len read_u32_at [OF h1 len] l
    by (simp add: read_string_def checked_add_usize_def enc_string_ok_def from_utf8_as_bytes)
qed

interpretation value_codec: codec write_value read_value enc_value_ok
proof
  show "write_value v \<noteq> []" for v by (cases v) simp_all
next
  fix v bytes pos
  assume "holds_at bytes pos (write_value v)" "enc_value_ok v" "length bytes < usize_bound"
  then show "read_value bytes pos = Ok (v, pos + length (write_value v))"
    by (cases v) (auto simp: read_value_def holds_at_Cons [of _ _ _ "_ # _"]
        holds_at_Cons [of _ _ _ "u64_le _"] holds_at_Cons [of _ _ _ "write_string _"]
        holds_at_Cons [of _ _ _ "_ @ _"] read_byte_at read_i64_at string_codec.rd_wr)
qed

interpretation row_codec: codec write_row read_row enc_row_ok
proof
  show "write_row r \<noteq> []" for r by (simp add: write_row_def)
next
  fix r bytes pos
  assume "holds_at bytes pos (write_row r)" "enc_row_ok r" "length bytes < usize_bound"
  then show "read_row bytes pos = Ok (r, pos + length (write_row r))"
    using value_codec.counted_wr [of r bytes "pos + 4"]
    by (auto simp: write_row_def read_row_def enc_row_ok_def read_u32_at add.assoc)
qed

interpretation table_row_codec: codec write_table_row read_table_row enc_table_row_ok
proof
  show "write_table_row r \<noteq> []" for r
    by (simp add: write_table_row_def string_codec.nonempty)
next
  fix r bytes pos
  assume "holds_at bytes pos (write_table_row r)" "enc_table_row_ok r" "length bytes < usize_bound"
  then show "read_table_row bytes pos = Ok (r, pos + length (write_table_row r))"
    using string_codec.rd_wr [of bytes pos "fst r"]
      row_codec.rd_wr [of bytes "pos + length (write_string (fst r))" "snd r"]
    by (simp add: write_table_row_def read_table_row_def enc_table_row_ok_def add.assoc)
qed

fun write_column_type :: "column_type \<Rightarrow> u8 list" where
  "write_column_type TInt = [COLUMN_TYPE_INT]"
| "write_column_type TVarchar = [COLUMN_TYPE_VARCHAR]"
| "write_column_type TDate = [COLUMN_TYPE_DATE]"
| "write_column_type (TDecimal scale) = [COLUMN_TYPE_DECIMAL, scale]"

interpretation column_type_codec: codec write_column_type read_column_type "\<lambda>_. True"
proof
  show "write_column_type t \<noteq> []" for t by (cases t) simp_all
next
  fix t bytes pos
  assume "holds_at bytes pos (write_column_type t)"
  then show "read_column_type bytes pos = Ok (t, pos + length (write_column_type t))"
    by (cases t) (auto simp: read_column_type_def holds_at_Cons [of _ _ _ "_ # _"] read_byte_at)
qed

definition column_flags :: "column_schema \<Rightarrow> u8" where
  "column_flags col = (if cs_nullable col then COLUMN_FLAG_NULLABLE else 0)
     OR (if cs_auto_increment col then COLUMN_FLAG_AUTO_INCREMENT else 0)"

lemma column_flags_bits:
  "column_flags col AND COLUMN_FLAG_NULLABLE \<noteq> 0 \<longleftrightarrow> cs_nullable col"
  "column_flags col AND COLUMN_FLAG_AUTO_INCREMENT \<noteq> 0 \<longleftrightarrow> cs_auto_increment col"
  by (simp_all add: column_flags_def)

lemma write_column_schema_alt:
  "write_column_schema col =
     write_string (cs_name col) @ write_column_type (cs_type col) @ [column_flags col]"
  by (simp add: write_column_schema_def column_flags_def split: column_type.split)

interpretation column_codec: codec write_column_schema read_column_schema enc_column_ok
proof
  show "write_column_schema c \<noteq> []" for c
    by (simp add: write_column_schema_alt)
next
  fix c bytes pos
  assume "holds_at bytes pos (write_column_schema c)" "enc_column_ok c" "length bytes < usize_bound"
  then show "read_column_schema bytes pos = Ok (c, pos + length (write_column_schema c))"
    using string_codec.rd_wr [of bytes pos "cs_name c"]
      column_type_codec.rd_wr [of bytes "pos + length (write_string (cs_name c))" "cs_type c"]
    by (auto simp: write_column_schema_alt read_column_schema_def enc_column_ok_def read_byte_at
        add.assoc column_flags_bits [simplified])
qed

fun write_primary_key :: "string option \<Rightarrow> u8 list" where
  "write_primary_key None = [0]"
| "write_primary_key (Some pk) = [1] @ write_string pk"

interpretation primary_key_codec: codec write_primary_key read_primary_key enc_key_ok
proof
  show "write_primary_key k \<noteq> []" for k by (cases k) simp_all
next
  fix k bytes pos
  assume "holds_at bytes pos (write_primary_key k)" "enc_key_ok k"
    "length bytes < usize_bound"
  then show "read_primary_key bytes pos = Ok (k, pos + length (write_primary_key k))"
    by (cases k) (auto simp: read_primary_key_def read_byte_at string_codec.rd_wr
        holds_at_Cons [of _ _ _ "write_string _"])
qed

fun write_schema_change :: "schema_change \<Rightarrow> u8 list" where
  "write_schema_change (AddColumn column is_primary_key) =
     [ALTER_ADD_COLUMN] @ write_column_schema column @ [if is_primary_key then 1 else 0]"
| "write_schema_change (DropColumn name) = [ALTER_DROP_COLUMN] @ write_string name"
| "write_schema_change (ModifyColumn column) = [ALTER_MODIFY_COLUMN] @ write_column_schema column"
| "write_schema_change (AddPrimaryKey name) = [ALTER_ADD_PRIMARY_KEY] @ write_string name"
| "write_schema_change DropPrimaryKey = [ALTER_DROP_PRIMARY_KEY]"

interpretation change_codec: codec write_schema_change read_schema_change enc_change_ok
proof
  show "write_schema_change ch \<noteq> []" for ch by (cases ch) simp_all
next
  fix ch bytes pos
  assume "holds_at bytes pos (write_schema_change ch)" "enc_change_ok ch"
    "length bytes < usize_bound"
  then show "read_schema_change bytes pos = Ok (ch, pos + length (write_schema_change ch))"
    by (cases ch) (auto simp: read_schema_change_def read_byte_at string_codec.rd_wr
        column_codec.rd_wr holds_at_Cons [of _ _ _ "write_string _"]
        holds_at_Cons [of _ _ _ "write_column_schema _"] holds_at_Cons [of _ _ _ "_ @ _"])
qed

section \<open>Whole records\<close>

lemma encode_create_table_alt:
  "encode_create_table tbl cols pk = [TAG_CREATE_TABLE] @ write_string tbl @ write_primary_key pk
     @ write_u32 (word_of_nat (length cols)) @ concat (map write_column_schema cols)"
  by (simp add: encode_create_table_def split: option.split)

lemma encode_alter_table_alt:
  "encode_alter_table tbl ch = [TAG_ALTER_TABLE] @ write_string tbl @ write_schema_change ch"
  by (simp add: encode_alter_table_def split: schema_change.split)

lemma encode_insert_row_alt:
  "encode_insert_row tbl row = [TAG_INSERT_ROW] @ write_table_row (tbl, row)"
  by (simp add: encode_insert_row_def write_table_row_def)

lemma decode_create_table:
  assumes "enc_entry_ok (CreateTable tbl cols pk)" "length bytes < usize_bound"
    and "holds_at bytes 0 (encode_create_table tbl cols pk)"
  shows "decode_entry bytes = Ok (CreateTable tbl cols pk)"
  using assms string_codec.rd_wr [of bytes 1 tbl] read_byte_at [of bytes 0 1]
    primary_key_codec.rd_wr [of bytes "1 + length (write_string tbl)" pk]
    read_u32_at [of bytes "1 + length (write_string tbl) + length (write_primary_key pk)"
      "word_of_nat (length cols)"]
    column_codec.counted_wr
      [of cols bytes "1 + length (write_string tbl) + length (write_primary_key pk) + 4"]
  by (simp add: encode_create_table_alt decode_entry_def holds_at_Cons [of _ _ _ "_ @ _"] add.assoc)

lemma decode_insert_row:
  assumes "enc_entry_ok (InsertRow tbl row)" "length bytes < usize_bound"
    and "holds_at bytes 0 (encode_insert_row tbl row)"
  shows "decode_entry bytes = Ok (InsertRow tbl row)"
  using assms read_byte_at [of bytes 0 2] table_row_codec.rd_wr [of bytes 1 "(tbl, row)"]
  by (simp add: encode_insert_row_alt decode_entry_def enc_table_row_ok_def
      holds_at_Cons [of _ _ _ "write_table_row _"])

lemma decode_transaction:
  assumes "enc_entry_ok (Transaction rows)" "length bytes < usize_bound"
    and "holds_at bytes 0 (encode_transaction rows)"
  shows "decode_entry bytes = Ok (Transaction rows)"
  using assms read_byte_at [of bytes 0 3] read_u32_at [of bytes 1 "word_of_nat (length rows)"]
    table_row_codec.counted_wr [of rows bytes 5]
  by (simp add: encode_transaction_def decode_entry_def holds_at_Cons [of _ _ _ "_ @ _"])

lemma decode_databases:
  assumes "enc_string_ok n" "length bytes < usize_bound"
  shows "holds_at bytes 0 (encode_create_database n) \<Longrightarrow> decode_entry bytes = Ok (CreateDatabase n)"
    and "holds_at bytes 0 (encode_drop_database n) \<Longrightarrow> decode_entry bytes = Ok (DropDatabase n)"
  using assms string_codec.rd_wr [of bytes 1 n] read_byte_at [of bytes 0 4] read_byte_at [of bytes 0 5]
  by (simp_all add: encode_create_database_def encode_drop_database_def decode_entry_def
      holds_at_Cons [of _ _ _ "write_string _"])

lemma decode_alter_table:
  assumes "enc_entry_ok (AlterTable tbl ch)" "length bytes < usize_bound"
    and "holds_at bytes 0 (encode_alter_table tbl ch)"
  shows "decode_entry bytes = Ok (AlterTable tbl ch)"
  using assms string_codec.rd_wr [of bytes 1 tbl] read_byte_at [of bytes 0 6]
    change_codec.rd_wr [of bytes "1 + length (write_string tbl)" ch]
  by (simp add: encode_alter_table_alt decode_entry_def holds_at_Cons [of _ _ _ "_ @ _"] add.assoc)

lemmas decode_at = decode_create_table decode_insert_row decode_transaction decode_databases
  decode_alter_table

lemma decode_encode_entry:
  assumes "enc_entry_ok e" "length (encode_entry e) < usize_bound"
  shows "decode_entry (encode_entry e) = Ok e"
  using assms holds_at_self [of "encode_entry e"] by (cases e) (auto intro: decode_at)

text \<open>
  Claim (C26). The record codec is a round trip: an entry of any of the six kinds whose strings and
  counts fit 32 bits is decoded from its bytes unchanged, and no other such entry has these bytes.
\<close>

theorem entry_round_trip:
  assumes "enc_entry_ok e" "length (encode_entry e) < usize_bound"
  shows "decode_entry (encode_entry e) = Ok e
    \<and> (\<forall>e'. enc_entry_ok e' \<and> encode_entry e' = encode_entry e \<longrightarrow> e' = e)"
  using decode_encode_entry [OF assms] decode_encode_entry assms(2) by (metis sum.inject(2))

definition demo_entry :: entry where
  "demo_entry = AlterTable ''t'' (AddColumn
     \<lparr>cs_name = ''price'', cs_type = TDecimal 2, cs_nullable = True, cs_auto_increment = False\<rparr> False)"

theorem entry_round_trip_witness:
  "decode_entry (encode_entry demo_entry) = Ok demo_entry \<and> length (encode_entry demo_entry) = 20"
proof -
  have "enc_entry_ok demo_entry" unfolding demo_entry_def by code_simp
  moreover have "length (encode_entry demo_entry) = 20"
    by (simp add: demo_entry_def encode_alter_table_def write_string_def write_u32_def write_column_schema_def as_bytes_def)
  ultimately show ?thesis using entry_round_trip [of demo_entry] by simp
qed

end
