(* ===== verification/Storage_Log.thy ===== *)
theory Storage_Log
  imports Log_Codec
begin

text \<open>
  The write-ahead log file (\<^verbatim>\<open>src/src/storage/log.rs\<close>, lines 276 to 787): the CRC-32, the framing
  of a record, the streaming replay \<^verbatim>\<open>Log::open\<close> with its torn-tail recovery, and the append
  path.

  The file is the list of its bytes.  The streaming reader of the source is the list of the bytes
  not yet read.  System calls that only fail for reasons outside the program are taken to succeed
  when opening; the write and the sync of an append have their failure as an argument
  (\<open>io_outcome\<close>), because what the file holds afterwards depends on it.
\<close>

section \<open>Checksum\<close>

abbreviation POLY :: u32 where "POLY \<equiv> 0xEDB88320"

definition crc_bit :: "u32 \<Rightarrow> u32" where
  "crc_bit crc = (if crc AND 1 = 1 then drop_bit 1 crc XOR POLY else drop_bit 1 crc)"

definition crc_byte :: "u32 \<Rightarrow> u8 \<Rightarrow> u32" where
  "crc_byte crc byte = (crc_bit ^^ 8) (crc XOR ucast byte)"

definition crc32 :: "u8 list \<Rightarrow> u32" where
  "crc32 data = NOT (foldl crc_byte 0xFFFFFFFF data)"

definition record_crc :: "u32 \<Rightarrow> u8 list \<Rightarrow> u32" where
  "record_crc len payload = crc32 (u32_le len @ payload)"

definition frame_record :: "u8 list \<Rightarrow> u8 list" where
  "frame_record entry_bytes =
     (let len = word_of_nat (length entry_bytes);
          crc = record_crc len entry_bytes
      in write_u32 len @ write_u32 crc @ entry_bytes)"

section \<open>Reading one record\<close>

datatype stream_record_read = RecordOk entry nat | TornTail

definition read_exact_or_eof :: "u8 list \<Rightarrow> nat \<Rightarrow> (u8 list \<times> u8 list) option" where
  "read_exact_or_eof rdr n = (if n \<le> length rdr then Some (take n rdr, drop n rdr) else None)"

definition checked_add_u64 :: "nat \<Rightarrow> nat \<Rightarrow> nat option" where
  "checked_add_u64 a b = (if a + b < 2 ^ 64 then Some (a + b) else None)"

definition err_checksum :: exn where
  "err_checksum = corrupt ''checksum mismatch with valid data still following it''"

definition read_one_record ::
    "u8 list \<Rightarrow> nat \<Rightarrow> nat \<Rightarrow> (stream_record_read \<times> u8 list) result" where
  "read_one_record rdr pos file_len =
     (case read_exact_or_eof rdr 8 of
        None \<Rightarrow> Ok (TornTail, rdr)
      | Some (header, rdr) \<Rightarrow>
          let len = u32_from_le (take 4 header);
              crc = u32_from_le (drop 4 header)
          in case Option.bind (checked_add_u64 pos 8)
                    (\<lambda>after_header. checked_add_u64 after_header (unat len)) of
               None \<Rightarrow> Ok (TornTail, rdr)
             | Some payload_end \<Rightarrow>
                 if payload_end > file_len then Ok (TornTail, rdr)
                 else case read_exact_or_eof rdr (unat len) of
                   None \<Rightarrow> Ok (TornTail, rdr)
                 | Some (payload, rdr) \<Rightarrow>
                     if record_crc len payload \<noteq> crc then
                       (if payload_end = file_len then Ok (TornTail, rdr) else Inl err_checksum)
                     else bindR (decode_entry payload) (\<lambda>entry.
                            Ok (RecordOk entry payload_end, rdr)))"

section \<open>Replay\<close>

lemma read_one_record_shorter:
  "read_one_record rdr pos file_len = Ok (RecordOk e p, rdr') \<Longrightarrow> length rdr' < length rdr"
  by (auto simp: read_one_record_def read_exact_or_eof_def Let_def bindR_Ok_iff
      split: option.splits if_splits) arith

text \<open>The loop of \<^verbatim>\<open>Log::open\<close>: \<open>apply_fn\<close> is its \<^verbatim>\<open>apply\<close> closure, acting on \<open>st\<close>.\<close>

function replay :: "('s \<Rightarrow> entry \<Rightarrow> 's) \<Rightarrow> 's \<Rightarrow> u8 list \<Rightarrow> nat \<Rightarrow> nat \<Rightarrow> ('s \<times> nat) result" where
  "replay apply_fn st rdr pos file_len =
     (case read_one_record rdr pos file_len of
        Inl e \<Rightarrow> Inl e
      | Inr (TornTail, _) \<Rightarrow> Ok (st, pos)
      | Inr (RecordOk entry next_pos, rdr') \<Rightarrow>
          replay apply_fn (apply_fn st entry) rdr' next_pos file_len)"
  by pat_completeness auto
termination
  by (relation "measure (\<lambda>(_, _, rdr, _, _). length rdr)") (auto dest: read_one_record_shorter)

declare replay.simps [simp del]

datatype sync_policy = Always | Never

record log =
  lg_file :: "u8 list"
  lg_synced :: nat
  lg_policy :: sync_policy

text \<open>
  A log just opened on the given bytes: what a restart reads back is what the crash left on disk,
  so all of it counts as synced.
\<close>

definition opened_log :: "sync_policy \<Rightarrow> u8 list \<Rightarrow> log" where
  "opened_log policy bytes = \<lparr>lg_file = bytes, lg_synced = length bytes, lg_policy = policy\<rparr>"

definition log_open ::
    "('s \<Rightarrow> entry \<Rightarrow> 's) \<Rightarrow> 's \<Rightarrow> sync_policy \<Rightarrow> u8 list option \<Rightarrow> ('s \<times> log) result" where
  "log_open apply_fn st policy file =
     (case file of
        None \<Rightarrow> Ok (st, opened_log policy [])
      | Some bytes \<Rightarrow>
          bindR (replay apply_fn st bytes 0 (length bytes)) (\<lambda>(st', pos).
          Ok (st', opened_log policy (if pos < length bytes then take pos bytes else bytes))))"

section \<open>Appending\<close>

text \<open>
  \<open>lg_synced\<close> is the length of the prefix that a completed \<^verbatim>\<open>fdatasync\<close> has made durable:
  what the operating system may lose in a crash is behind it.  \<^verbatim>\<open>write_all\<close> may fail after
  some of the bytes went to the file, and the sync may fail after all of them did.
\<close>

datatype io_outcome = IoOk | WriteFails nat string | SyncFails string

definition write_framed_batch :: "io_outcome \<Rightarrow> log \<Rightarrow> u8 list \<Rightarrow> unit result \<times> log" where
  "write_framed_batch io lg framed =
     (case io of
        WriteFails k m \<Rightarrow> (Fail (Io m), lg\<lparr>lg_file := lg_file lg @ take k framed\<rparr>)
      | SyncFails m \<Rightarrow>
          (let lg' = lg\<lparr>lg_file := lg_file lg @ framed\<rparr>
           in if lg_policy lg = Always then (Fail (Io m), lg') else (Ok (), lg'))
      | IoOk \<Rightarrow>
          (let lg' = lg\<lparr>lg_file := lg_file lg @ framed\<rparr>
           in (Ok (), if lg_policy lg = Always then lg'\<lparr>lg_synced := length (lg_file lg')\<rparr>
                      else lg')))"

definition log_append :: "io_outcome \<Rightarrow> log \<Rightarrow> u8 list \<Rightarrow> unit result \<times> log" where
  "log_append io lg entry_bytes = write_framed_batch io lg (frame_record entry_bytes)"

text \<open>What a crash leaves: any prefix that keeps the synced bytes.\<close>

definition crash_files :: "log \<Rightarrow> u8 list set" where
  "crash_files lg = {take n (lg_file lg) | n. lg_synced lg \<le> n}"

section \<open>The checksum is linear and injective in its state\<close>

lemma bit_POLY_31: "bit POLY 31"
  by simp

lemma bit_crc_bit: "bit (crc_bit x) n \<longleftrightarrow> bit x (Suc n) \<noteq> (bit x 0 \<and> bit POLY n)"
proof -
  have o: "x AND 1 = 1 \<longleftrightarrow> bit x 0" by (simp add: and_one_eq bit_0 odd_iff_mod_2_eq_one)
  show ?thesis unfolding crc_bit_def o by (simp add: bit_xor_iff bit_drop_bit_eq)
qed

lemma crc_bit_xor: "crc_bit (x XOR y) = crc_bit x XOR crc_bit y"
  by (rule bit_eqI) (auto simp: bit_crc_bit bit_xor_iff)

lemma crc_bit_0 [simp]: "crc_bit 0 = 0"
  by (simp add: crc_bit_def)

lemma crc_bit_double:
  assumes "unat (crc_bit x) < 2 ^ 31"
  shows "unat x = 2 * unat (crc_bit x)"
proof -
  have "\<not> bit (crc_bit x) 31"
  proof -
    have "bit (unat (crc_bit x)) 31 = bit (crc_bit x) 31" by (simp add: bit_unsigned_iff)
    moreover have "\<not> bit (unat (crc_bit x)) 31"
      using assms unfolding bit_iff_odd by simp
    ultimately show ?thesis by simp
  qed
  then have e: "\<not> bit x 0" using bit_imp_le_length [of x 32] by (auto simp: bit_crc_bit)
  then have "crc_bit x = drop_bit 1 x" by (simp add: crc_bit_def and_one_eq bit_0 odd_iff_mod_2_eq_one)
  then have "unat (crc_bit x) = unat x div 2" by (simp add: drop_bit_eq_div unat_div_distrib)
  moreover have "even (unat x)"
  proof -
    have "bit (unat x) 0 = bit x 0" by (simp add: bit_unsigned_iff)
    with e show ?thesis by (simp add: bit_0)
  qed
  ultimately show ?thesis by simp
qed

lemma crc_bits_xor: "(crc_bit ^^ k) (x XOR y) = (crc_bit ^^ k) x XOR (crc_bit ^^ k) y"
  by (induction k arbitrary: x y) (simp_all add: crc_bit_xor)

lemma crc_bits_0 [simp]: "(crc_bit ^^ k) 0 = 0"
  by (induction k) simp_all

lemma crc_bits_shift:
  "k \<le> 31 \<Longrightarrow> unat ((crc_bit ^^ k) x) < 2 ^ (32 - k) \<Longrightarrow> unat x = 2 ^ k * unat ((crc_bit ^^ k) x)"
proof (induction k)
  case (Suc k)
  let ?y = "(crc_bit ^^ k) x"
  from Suc.prems have b: "unat (crc_bit ?y) < 2 ^ (31 - k)" "k \<le> 31" by simp_all
  have "(2 :: nat) ^ (31 - k) \<le> 2 ^ 31" by (intro power_increasing) auto
  with b have d: "unat ?y = 2 * unat (crc_bit ?y)" by (intro crc_bit_double) linarith
  have "(2 :: nat) ^ (32 - k) = 2 * 2 ^ (31 - k)" using b(2) by (simp add: Suc_diff_le flip: power_Suc)
  with b d have "unat ?y < 2 ^ (32 - k)" by simp
  with Suc.IH b(2) d show ?case by simp
qed simp

lemma crc_bits_eq_0: "k \<le> 31 \<Longrightarrow> (crc_bit ^^ k) x = 0 \<Longrightarrow> x = 0"
  using crc_bits_shift [of k x] by (simp add: unat_eq_zero)

text \<open>The difference of two checksum states is driven by the differences of their bytes.\<close>

lemma crc_byte_xor: "crc_byte s a XOR crc_byte t b = crc_byte (s XOR t) (a XOR b)"
proof -
  have "(s XOR ucast a) XOR (t XOR ucast b) = (s XOR t) XOR ucast (a XOR b)"
    by (simp add: unsigned_xor_eq ac_simps)
  then show ?thesis unfolding crc_byte_def by (simp only: flip: crc_bits_xor)
qed

lemma foldl_crc_xor:
  "length as = length bs \<Longrightarrow>
     foldl crc_byte s as XOR foldl crc_byte t bs = foldl crc_byte (s XOR t) (map2 (XOR) as bs)"
  by (induction as bs arbitrary: s t rule: list_induct2) (simp_all add: crc_byte_xor)

lemma unat_ucast_byte: "unat (ucast (b :: u8) :: u32) = unat b" "unat (b :: u8) < 256"
  using unat_bound [of b] by (simp_all add: unsigned_ucast_eq take_bit_nat_eq_self)

lemma unat_xor_less: "unat x < 2 ^ n \<Longrightarrow> unat y < 2 ^ n \<Longrightarrow> unat (x XOR y :: u32) < 2 ^ n"
  by (simp add: unsigned_xor_eq take_bit_xor flip: take_bit_nat_eq_self_iff)

lemma foldl_crc_0_small:
  "length es \<le> 3 \<Longrightarrow> foldl crc_byte d es = 0 \<Longrightarrow> unat d < 2 ^ (8 * length es)"
proof (induction es arbitrary: d)
  case (Cons e es)
  let ?x = "d XOR ucast e"
  from Cons have "unat ((crc_bit ^^ 8) ?x) < 2 ^ (8 * length es)" by (simp add: crc_byte_def)
  moreover have "(2 :: nat) ^ (8 * length es) \<le> 2 ^ 24"
    using Cons.prems(1) by (intro power_increasing) auto
  ultimately have "unat ((crc_bit ^^ 8) ?x) < 2 ^ 24" by (rule less_le_trans)
  then have "unat ?x = 2 ^ 8 * unat ((crc_bit ^^ 8) ?x)" by (intro crc_bits_shift) simp_all
  with \<open>unat ((crc_bit ^^ 8) ?x) < 2 ^ (8 * length es)\<close> have "unat ?x < 2 ^ (8 * length (e # es))"
    by (simp add: power_add)
  moreover have "unat (ucast e :: u32) < 2 ^ (8 * length (e # es))"
    using unat_ucast_byte [of e] power_increasing [of 8 "8 * length (e # es)" "2 :: nat"] by simp
  ultimately have "unat (?x XOR ucast e) < 2 ^ (8 * length (e # es))" by (rule unat_xor_less)
  then show ?case by (simp add: ac_simps)
qed simp

lemma foldl_crc_0_zeros:
  "length es \<le> 4 \<Longrightarrow> foldl crc_byte 0 es = 0 \<Longrightarrow> es = replicate (length es) 0"
proof (induction es)
  case (Cons e es)
  let ?d = "(crc_bit ^^ 8) (ucast e)"
  have "unat ?d < 2 ^ (8 * length es)"
    using Cons.prems foldl_crc_0_small [of es ?d] by (simp add: crc_byte_def [of 0])
  moreover have "(2 :: nat) ^ (8 * length es) \<le> 2 ^ 24"
    using Cons.prems(1) by (intro power_increasing) auto
  ultimately have "unat ?d < 2 ^ 24" by (rule less_le_trans)
  then have "unat (ucast e :: u32) = 2 ^ 8 * unat ?d" by (intro crc_bits_shift) simp_all
  moreover have "b = 0 \<and> a = 0" if "a = 2 ^ 8 * b" "a < 256" for a b :: nat using that by auto
  ultimately have "unat ?d = 0 \<and> unat e = 0" using unat_ucast_byte [of e] by metis
  then have z: "?d = 0" "unat e = 0" by (simp_all add: unat_eq_zero)
  with Cons show ?case by (simp add: crc_byte_def [of 0] unat_eq_zero)
qed simp

lemma crc_byte_inj: "crc_byte s b = crc_byte t b \<Longrightarrow> s = t"
proof -
  assume "crc_byte s b = crc_byte t b"
  then have "crc_byte (s XOR t) 0 = 0" using crc_byte_xor [of s b t b] by simp
  then have "s XOR t = 0" using crc_bits_eq_0 [of 8 "s XOR t"] by (simp add: crc_byte_def)
  moreover have "s = (s XOR t) XOR t" by (simp add: xor.assoc)
  ultimately show ?thesis by simp
qed

lemma foldl_crc_inj: "foldl crc_byte s bs = foldl crc_byte t bs \<Longrightarrow> s = t"
  by (induction bs arbitrary: s t) (auto dest: crc_byte_inj)

lemma map2_xor_zeros:
  "length as = length bs \<Longrightarrow> map2 (XOR) as bs = replicate (length as) (0 :: u8) \<Longrightarrow> as = bs"
proof (induction as bs rule: list_induct2)
  case (Cons x xs y ys)
  have "x = (x XOR y) XOR y" by (simp add: xor.assoc)
  with Cons show ?case by simp
qed simp

lemma crc32_burst:
  assumes "length as = length bs" "length as \<le> 4" "as \<noteq> bs"
  shows "crc32 (pre @ as @ post) \<noteq> crc32 (pre @ bs @ post)"
proof
  let ?s = "foldl crc_byte 0xFFFFFFFF pre"
  assume "crc32 (pre @ as @ post) = crc32 (pre @ bs @ post)"
  then have "foldl crc_byte (foldl crc_byte ?s as) post = foldl crc_byte (foldl crc_byte ?s bs) post"
    by (simp add: crc32_def)
  then have "foldl crc_byte ?s as = foldl crc_byte ?s bs" by (rule foldl_crc_inj)
  then have "foldl crc_byte 0 (map2 (XOR) as bs) = 0"
    using foldl_crc_xor [OF assms(1), of ?s ?s] by simp
  then have "map2 (XOR) as bs = replicate (length as) 0"
    using foldl_crc_0_zeros [of "map2 (XOR) as bs"] assms(1,2) by simp
  with assms(1,3) map2_xor_zeros show False by blast
qed

text \<open>The published check value of CRC-32, which the unit test of the source also uses.\<close>

lemma crc_bits_8:
  "(crc_bit ^^ 8) x = crc_bit (crc_bit (crc_bit (crc_bit (crc_bit (crc_bit (crc_bit (crc_bit x)))))))"
  by (simp add: eval_nat_numeral)

lemma crc32_check: "crc32 (as_bytes ''123456789'') = 0xCBF43926"
  by (simp add: as_bytes_def crc32_def crc_byte_def crc_bits_8 crc_bit_def)

section \<open>Frames\<close>

definition loggable :: "entry \<Rightarrow> bool" where
  "loggable e \<longleftrightarrow> enc_entry_ok e \<and> length (encode_entry e) < 2 ^ 32"

abbreviation frame :: "entry \<Rightarrow> u8 list" where
  "frame e \<equiv> frame_record (encode_entry e)"

definition frames :: "entry list \<Rightarrow> u8 list" where
  "frames es = concat (map frame es)"

lemma frames_simps [simp]:
  "frames [] = []" "frames (e # es) = frame e @ frames es" "frames (es @ fs) = frames es @ frames fs"
  by (simp_all add: frames_def)

lemma length_frame [simp]: "length (frame_record p) = 8 + length p"
  by (simp add: frame_record_def Let_def)

lemma read_framed:
  assumes "length p < 2 ^ 32" "length q = length p"
  shows "read_one_record (write_u32 (word_of_nat (length p)) @ write_u32 crc @ q @ rest) pos file_len =
    (if \<not> pos + 8 + length p < 2 ^ 64 \<or> pos + 8 + length p > file_len
     then Ok (TornTail, q @ rest)
     else if record_crc (word_of_nat (length p)) q \<noteq> crc
     then (if pos + 8 + length p = file_len then Ok (TornTail, rest) else Inl err_checksum)
     else bindR (decode_entry q) (\<lambda>entry. Ok (RecordOk entry (pos + 8 + length p), rest)))"
proof -
  let ?len = "word_of_nat (length p) :: u32"
  have u: "unat ?len = length p" using assms(1) by (simp add: unat_of_nat)
  have h: "read_exact_or_eof (write_u32 ?len @ write_u32 crc @ q @ rest) 8 =
      Some (write_u32 ?len @ write_u32 crc, q @ rest)"
    by (simp add: read_exact_or_eof_def)
  have l: "u32_from_le (take 4 (write_u32 ?len @ write_u32 crc)) = ?len"
    and c: "u32_from_le (drop 4 (write_u32 ?len @ write_u32 crc)) = crc"
    by (simp_all add: write_u32_def)
  have q: "read_exact_or_eof (q @ rest) (length p) = Some (q, rest)"
    using assms(2) by (simp add: read_exact_or_eof_def)
  show ?thesis
    unfolding read_one_record_def h option.case prod.case Let_def l c u q
    by (simp add: checked_add_u64_def)
qed

lemma read_frame:
  assumes "loggable e" "pos + length (frame e) \<le> file_len" "file_len < 2 ^ 64"
  shows "read_one_record (frame e @ rest) pos file_len = Ok (RecordOk e (pos + length (frame e)), rest)"
proof -
  from assms(1) have l: "length (encode_entry e) < 2 ^ 32" and ok: "enc_entry_ok e"
    by (simp_all add: loggable_def)
  have "decode_entry (encode_entry e) = Ok e" using l by (intro decode_encode_entry ok) simp
  then show ?thesis
    using assms(2,3) read_framed [OF l refl, of _ rest pos file_len] unfolding frame_record_def Let_def
    by simp
qed

lemma read_torn:
  assumes "length p < 2 ^ 32" "n < length (frame_record p)" "pos + n = file_len"
  shows "\<exists>r. read_one_record (take n (frame_record p)) pos file_len = Ok (TornTail, r)"
proof (cases "n < 8")
  case True
  then show ?thesis by (simp add: read_one_record_def read_exact_or_eof_def)
next
  case False
  let ?len = "word_of_nat (length p) :: u32"
  have u: "unat ?len = length p" using assms(1) by (simp add: unat_of_nat)
  have h: "read_exact_or_eof (take n (frame_record p)) 8 =
      Some (write_u32 ?len @ write_u32 (record_crc ?len p), take (n - 8) p)"
    using False assms(2) by (simp add: read_exact_or_eof_def frame_record_def Let_def min_def)
  have l: "u32_from_le (take 4 (write_u32 ?len @ w)) = ?len" for w
    by (simp add: write_u32_def)
  have "pos + 8 + length p > file_len" using assms(2,3) by simp
  then show ?thesis
    unfolding read_one_record_def h option.case prod.case Let_def l u
    by (auto simp: checked_add_u64_def)
qed

section \<open>Recovery after a crash\<close>

text \<open>The records that lie wholly within the first \<open>n\<close> bytes of the file.\<close>

fun complete :: "nat \<Rightarrow> entry list \<Rightarrow> entry list" where
  "complete n [] = []"
| "complete n (e # es) = (if length (frame e) \<le> n then e # complete (n - length (frame e)) es else [])"

lemma complete_prefix: "\<exists>rest. es = complete n es @ rest"
  by (induction es arbitrary: n) auto

lemma frames_complete: "frames (complete n es) = take (length (frames (complete n es))) (take n (frames es))"
proof (induction es arbitrary: n)
  case (Cons e es)
  show ?case
  proof (cases "length (frame e) \<le> n")
    case True
    have "length (frames (complete (n - length (frame e)) es)) \<le> n - length (frame e)"
      using arg_cong [OF Cons.IH, of length "n - length (frame e)"] by simp
    then show ?thesis using True Cons.IH [of "n - length (frame e)"] by simp
  qed simp
qed simp

lemma complete_all: "length (frames es) \<le> n \<Longrightarrow> complete n es = es"
  by (induction es arbitrary: n) auto

lemma complete_append:
  "length (frames es) \<le> n \<Longrightarrow> complete n (es @ fs) = es @ complete (n - length (frames es)) fs"
  by (induction es arbitrary: n) auto

lemma replay_frame:
  assumes "loggable e" "pos + length (frame e) \<le> file_len" "file_len < 2 ^ 64"
  shows "replay f st (frame e @ rest) pos file_len =
    replay f (f st e) rest (pos + length (frame e)) file_len"
  using read_frame [OF assms] by (simp add: replay.simps [of f st "frame e @ rest"])

lemma replay_frames:
  assumes "list_all loggable es" "pos + length (frames es) \<le> file_len" "file_len < 2 ^ 64"
  shows "replay f st (frames es @ rest) pos file_len =
    replay f (foldl f st es) rest (pos + length (frames es)) file_len"
  using assms
proof (induction es arbitrary: st pos)
  case (Cons e es)
  then show ?case using replay_frame [of e pos file_len f st "frames es @ rest"] by (simp add: add.assoc)
qed simp

lemma replay_Nil: "replay f st [] pos file_len = Ok (st, pos)"
  by (simp add: replay.simps [of f st "[]"] read_one_record_def read_exact_or_eof_def)

lemma replay_crash:
  assumes "list_all loggable es" "pos + length (take n (frames es)) = file_len" "file_len < 2 ^ 64"
  shows "replay f st (take n (frames es)) pos file_len =
    Ok (foldl f st (complete n es), pos + length (frames (complete n es)))"
  using assms
proof (induction es arbitrary: st pos n)
  case Nil
  then show ?case by (simp add: replay_Nil)
next
  case (Cons e es)
  show ?case
  proof (cases "length (frame e) \<le> n")
    case True
    then have s: "take n (frames (e # es)) = frame e @ take (n - length (frame e)) (frames es)"
      by simp
    have "replay f st (take n (frames (e # es))) pos file_len =
        replay f (f st e) (take (n - length (frame e)) (frames es)) (pos + length (frame e)) file_len"
      unfolding s using Cons.prems True by (intro replay_frame) auto
    also have "\<dots> = Ok (foldl f (f st e) (complete (n - length (frame e)) es),
        pos + length (frame e) + length (frames (complete (n - length (frame e)) es)))"
      using Cons.prems True by (intro Cons.IH) auto
    finally show ?thesis using True by (simp add: add.assoc)
  next
    case False
    from Cons.prems(1) have "length (encode_entry e) < 2 ^ 32" by (simp add: loggable_def)
    then obtain r where "read_one_record (take n (frame e)) pos file_len = Ok (TornTail, r)"
      using read_torn [of "encode_entry e" n pos file_len] False Cons.prems(2) by auto
    with False show ?thesis by (simp add: replay.simps [of f st "take n (frame e)"])
  qed
qed

lemma log_open_crash:
  assumes "list_all loggable es" "length (frames es) < 2 ^ 64"
  shows "log_open f st policy (Some (take n (frames es))) =
    Ok (foldl f st (complete n es),
        opened_log policy (frames (complete n es)))"
proof -
  let ?b = "take n (frames es)" and ?k = "length (frames (complete n es))"
  have "length ?b < 2 ^ 64" using assms(2) by simp
  then have "replay f st ?b 0 (length ?b) = Ok (foldl f st (complete n es), ?k)"
    using replay_crash [OF assms(1), of 0 n "length ?b" f st] by simp
  moreover have "(if ?k < length ?b then take ?k ?b else ?b) = frames (complete n es)"
    using frames_complete [of n es] by (metis not_less take_all)
  ultimately show ?thesis by (simp add: log_open_def)
qed

section \<open>Damage\<close>

text \<open>
  A frame with damage confined to its checksum, or to its payload in a run of at most four bytes,
  still has its length field, so it is read to its end and its checksum does not match.
\<close>

definition damaged :: "u8 list \<Rightarrow> u8 list \<Rightarrow> bool" where
  "damaged fr fr' \<longleftrightarrow>
     (\<exists>pre as bs post. fr = pre @ as @ post \<and> fr' = pre @ bs @ post \<and> as \<noteq> bs
        \<and> length as = length bs \<and> length as \<le> 4
        \<and> (8 \<le> length pre \<or> 4 \<le> length pre \<and> length pre + length as \<le> 8))"

lemma split_header:
  assumes "a @ b @ p = pre @ as @ post" "length a = 4" "length b = 4" "8 \<le> length pre"
  shows "pre = a @ b @ drop 8 pre" "p = drop 8 pre @ as @ post"
proof -
  have "take 8 pre = a @ b"
    using arg_cong [OF assms(1), of "take 8"] assms(2-4) by simp
  then show p: "pre = a @ b @ drop 8 pre" using append_take_drop_id [of 8 pre] by simp
  have "a @ b @ p = a @ b @ (drop 8 pre @ as @ post)" using assms(1) p by (metis append.assoc)
  then show "p = drop 8 pre @ as @ post" by simp
qed

lemma damaged_checksum:
  assumes "damaged (frame_record p) fr'" "length p < 2 ^ 32"
  obtains crc q where "fr' = write_u32 (word_of_nat (length p)) @ write_u32 crc @ q"
    and "length q = length p" and "record_crc (word_of_nat (length p)) q \<noteq> crc"
proof -
  let ?len = "word_of_nat (length p) :: u32"
  let ?a = "write_u32 ?len" and ?b = "write_u32 (record_crc ?len p)"
  obtain pre as bs post where f: "?a @ ?b @ p = pre @ as @ post" "fr' = pre @ bs @ post"
    and ab: "as \<noteq> bs" "length as = length bs" "length as \<le> 4"
    and w: "8 \<le> length pre \<or> 4 \<le> length pre \<and> length pre + length as \<le> 8"
    using assms(1) unfolding damaged_def frame_record_def Let_def by blast
  show thesis
  proof (cases "8 \<le> length pre")
    case True
    note s = split_header [OF f(1) _ _ True, simplified]
    have "crc32 ((u32_le ?len @ drop 8 pre) @ as @ post) \<noteq> crc32 ((u32_le ?len @ drop 8 pre) @ bs @ post)"
      using ab by (intro crc32_burst) auto
    then have "record_crc ?len (drop 8 pre @ bs @ post) \<noteq> record_crc ?len p"
      using s(2) by (simp add: record_crc_def)
    moreover have "fr' = ?a @ ?b @ (drop 8 pre @ bs @ post)" using f(2) s(1) by (metis append.assoc)
    moreover have "length (drop 8 pre @ bs @ post) = length p" using s(2) ab(2) by simp
    ultimately show thesis using that by blast
  next
    case False
    with w have w4: "4 \<le> length pre" "length pre + length as \<le> 8" by auto
    let ?r = "drop 4 pre" and ?k = "8 - length pre - length as"
    have pre: "pre = ?a @ ?r" using arg_cong [OF f(1), of "take 4"] w4
      by (metis append_take_drop_id length_write_u32 take_append append_eq_conv_conj diff_is_0_eq take0 append_Nil2)
    have bp: "?b @ p = ?r @ as @ post"
      using f(1) pre by (metis append.assoc same_append_eq)
    have post1: "?b = ?r @ as @ take ?k post"
      using arg_cong [OF bp, of "take 4"] w4 by simp
    moreover have "(?r @ as @ take ?k post) @ p = (?r @ as @ take ?k post) @ drop ?k post"
      using bp post1 by (metis append.assoc append_take_drop_id)
    ultimately have post: "?b = ?r @ as @ take ?k post" "p = drop ?k post"
      by (simp, metis same_append_eq)
    let ?b' = "?r @ bs @ take ?k post"
    have l: "length ?b' = 4" using arg_cong [OF post(1), of length] ab(2) by simp
    have "le_bytes (length ?b') (from_le ?b') = ?b'" by (rule le_bytes_from_le)
    then have b': "write_u32 (u32_from_le ?b') = ?b'"
      using l unat_u32_from_le [OF l] by (simp add: write_u32_def u32_le_def)
    moreover have "?b' \<noteq> ?b" unfolding post(1) using ab by auto
    ultimately have "u32_from_le ?b' \<noteq> record_crc ?len p" by metis
    moreover have "fr' = ?a @ write_u32 (u32_from_le ?b') @ p"
      unfolding b' using f(2) pre post(2) by (metis append.assoc append_take_drop_id)
    ultimately show thesis using that [of "u32_from_le ?b'" p] by metis
  qed
qed

lemma replay_damaged:
  assumes "damaged (frame_record p) fr'" "length p < 2 ^ 32"
    and "pos + length fr' + length rest = file_len" "file_len < 2 ^ 64"
  shows "replay f st (fr' @ rest) pos file_len = (if rest = [] then Ok (st, pos) else Inl err_checksum)"
proof -
  obtain crc q where q: "fr' = write_u32 (word_of_nat (length p)) @ write_u32 crc @ q"
    "length q = length p" "record_crc (word_of_nat (length p)) q \<noteq> crc"
    using damaged_checksum [OF assms(1,2)] by blast
  have "read_one_record (fr' @ rest) pos file_len = (if rest = [] then Ok (TornTail, rest) else Inl err_checksum)"
    using read_framed [OF assms(2) q(2), of crc rest pos file_len] q assms(3,4) by auto
  then show ?thesis by (simp add: replay.simps [of f st "fr' @ rest"])
qed

section \<open>Properties of the log\<close>

lemma complete_take: "\<exists>k \<le> length es. complete n es = take k es
    \<and> length (frames (take k es)) \<le> n \<and> (k = length es \<or> n < length (frames (take (Suc k) es)))"
proof (induction es arbitrary: n)
  case (Cons e es)
  show ?case
  proof (cases "length (frame e) \<le> n")
    case True
    obtain k where k: "k \<le> length es" "complete (n - length (frame e)) es = take k es"
      "length (frames (take k es)) \<le> n - length (frame e)"
      "k = length es \<or> n - length (frame e) < length (frames (take (Suc k) es))"
      using Cons.IH by blast
    then show ?thesis using True by (intro exI [of _ "Suc k"]) auto
  qed (auto intro!: exI [of _ 0])
qed simp

text \<open>
  Claim (C22). Crash recovery. Cut the file of any sequence of appended records at any byte \<open>n\<close>:
  opening it succeeds, replays exactly the records that lie wholly before the cut, in order, and
  leaves a file that holds exactly those records, so a later append continues after good data.
  With \<open>n\<close> beyond the end this is the round trip of the whole log.
\<close>

theorem crash_recovery:
  assumes "list_all loggable es" "length (frames es) < 2 ^ 64"
  shows "\<exists>k \<le> length es.
    log_open apply_fn st policy (Some (take n (frames es))) =
      Ok (foldl apply_fn st (take k es),
          opened_log policy (frames (take k es)))
    \<and> length (frames (take k es)) \<le> n
    \<and> (k = length es \<or> n < length (frames (take (Suc k) es)))"
  using complete_take [of es n] log_open_crash [OF assms, of apply_fn st policy n] by auto

theorem crash_recovery_witness:
  "log_open (\<lambda>xs e. xs @ [e]) [] Always
     (Some (take 20 (frames [CreateDatabase ''a'', CreateDatabase ''b'']))) =
   Ok ([CreateDatabase ''a''],
       opened_log Always (frames [CreateDatabase ''a'']))"
proof -
  define es where "es = [CreateDatabase ''a'', CreateDatabase ''b'']"
  have a: "list_all loggable es" unfolding es_def by code_simp
  have l: "length (frames es) < 2 ^ 64" by (simp add: es_def encode_create_database_def)
  from crash_recovery [OF a l, of "\<lambda>xs e. xs @ [e]" "[]" Always 20]
  obtain k where k: "k \<le> length es" "length (frames (take k es)) \<le> 20"
    "k = length es \<or> 20 < length (frames (take (Suc k) es))"
    and o: "log_open (\<lambda>xs e. xs @ [e]) [] Always (Some (take 20 (frames es))) =
      Ok (foldl (\<lambda>xs e. xs @ [e]) [] (take k es),
          opened_log Always (frames (take k es)))" by blast
  have "k \<in> {0, 1, 2}" using k(1) by (auto simp: es_def)
  with k(2,3) have "k = 1" by (auto simp: es_def encode_create_database_def)
  with o show ?thesis unfolding es_def by simp
qed

text \<open>
  Claim (C25). Damage is never replayed. Behind any good records, damage a record anywhere in its
  checksum, or in up to four adjacent bytes of its payload: when data follows, the open is refused
  with the checksum error; when it is the last record, exactly the records before it are recovered.
\<close>

theorem damage_detected:
  assumes "list_all loggable es" "loggable e" "damaged (frame e) fr'"
    and "length (frames es @ fr' @ rest) < 2 ^ 64"
  shows "log_open apply_fn st policy (Some (frames es @ fr' @ rest)) =
    (if rest = []
     then Ok (foldl apply_fn st es, opened_log policy (frames es))
     else Inl err_checksum)"
proof -
  let ?b = "frames es @ fr' @ rest"
  have p: "length (encode_entry e) < 2 ^ 32" using assms(2) by (simp add: loggable_def)
  have "length fr' = length (frame e)" using assms(3) by (auto simp: damaged_def simp del: length_frame)
  then have "0 < length fr'" by simp
  moreover have "replay apply_fn st ?b 0 (length ?b) =
      replay apply_fn (foldl apply_fn st es) (fr' @ rest) (length (frames es)) (length ?b)"
    using replay_frames [OF assms(1), of 0 "length ?b" apply_fn st "fr' @ rest"] assms(4) by simp
  moreover have "replay apply_fn (foldl apply_fn st es) (fr' @ rest) (length (frames es)) (length ?b) =
      (if rest = [] then Ok (foldl apply_fn st es, length (frames es)) else Inl err_checksum)"
    using assms(4) by (intro replay_damaged [OF assms(3) p]) simp_all
  ultimately show ?thesis by (cases "rest = []") (simp_all add: log_open_def)
qed

theorem damage_detected_witness:
  "log_open (\<lambda>xs e. xs @ [e]) [] Always
     (Some (frames [] @ (take 13 (frame (CreateDatabase ''a'')) @ [0x62]) @ [0])) = Inl err_checksum"
proof -
  let ?e = "CreateDatabase ''a''"
  have f: "frame ?e = take 13 (frame ?e) @ [0x61] @ []"
    by (simp add: frame_record_def Let_def encode_create_database_def write_string_def as_bytes_def)
  have d: "damaged (frame ?e) (take 13 (frame ?e) @ [0x62])"
    unfolding damaged_def
    by (rule exI [of _ "take 13 (frame ?e)"], rule exI [of _ "[0x61]"], rule exI [of _ "[0x62]"],
        rule exI [of _ "[]"]) (use f in \<open>simp add: encode_create_database_def\<close>)
  have "loggable ?e" by code_simp
  from damage_detected [of "[]", OF _ this d, of "[0]" "\<lambda>xs e. xs @ [e]" "[]" Always] show ?thesis
    by (simp add: encode_create_database_def)
qed

lemma opened_log_simps [simp]:
  "lg_file (opened_log policy bytes) = bytes" "lg_synced (opened_log policy bytes) = length bytes"
  "lg_policy (opened_log policy bytes) = policy"
  by (simp_all add: opened_log_def)

lemma crash_keeps_synced:
  assumes "lg_file lg = frames (acked @ pending)" "length (frames acked) \<le> lg_synced lg"
    and "list_all loggable (acked @ pending)" "length (lg_file lg) < 2 ^ 64"
    and "file \<in> crash_files lg"
  shows "\<exists>k \<le> length pending. log_open f st policy (Some file) =
    Ok (foldl f st (acked @ take k pending),
        opened_log policy (frames (acked @ take k pending)))"
proof -
  obtain n where n: "file = take n (lg_file lg)" "lg_synced lg \<le> n"
    using assms(5) by (auto simp: crash_files_def)
  obtain k where "k \<le> length pending" "complete (n - length (frames acked)) pending = take k pending"
    using complete_take [of pending "n - length (frames acked)"] by blast
  moreover have "complete n (acked @ pending) = acked @ complete (n - length (frames acked)) pending"
    using assms(2) n(2) by (intro complete_append) linarith
  moreover have "log_open f st policy (Some file) = Ok (foldl f st (complete n (acked @ pending)),
      opened_log policy (frames (complete n (acked @ pending))))"
    using log_open_crash [of "acked @ pending" f st policy n] assms(1,3,4) n(1) by simp
  ultimately show ?thesis by (intro exI [of _ k]) simp
qed

lemma replay_long_claim:
  assumes "length hdr = 8" "length body < unat (u32_from_le (take 4 hdr))"
    and "pos + length hdr + length body = file_len"
  shows "replay f st (hdr @ body) pos file_len = Ok (st, pos)"
proof -
  have "read_exact_or_eof (hdr @ body) 8 = Some (hdr, body)"
    using assms(1) by (simp add: read_exact_or_eof_def)
  then have "read_one_record (hdr @ body) pos file_len = Ok (TornTail, body)"
    using assms by (auto simp: read_one_record_def Let_def checked_add_u64_def)
  then show ?thesis by (simp add: replay.simps [of f st "hdr @ body"])
qed

lemma log_open_long_claim:
  assumes "list_all loggable es" "length hdr = 8"
    and "length body < unat (u32_from_le (take 4 hdr))"
    and "length (frames es @ hdr @ body) < 2 ^ 64"
  shows "log_open f st policy (Some (frames es @ hdr @ body)) =
    Ok (foldl f st es, opened_log policy (frames es))"
proof -
  let ?b = "frames es @ hdr @ body"
  have "replay f st ?b 0 (length ?b) =
      replay f (foldl f st es) (hdr @ body) (length (frames es)) (length ?b)"
    using replay_frames [OF assms(1), of 0 "length ?b" f st "hdr @ body"] assms(4) by simp
  also have "\<dots> = Ok (foldl f st es, length (frames es))"
    using assms(2,3) by (intro replay_long_claim) simp_all
  finally show ?thesis using assms(2) by (simp add: log_open_def)
qed

lemma u32_le_bytes:
  "u32_le n = [word_of_nat (unat n mod 256), word_of_nat (unat n div 256 mod 256),
     word_of_nat (unat n div 256 div 256 mod 256), word_of_nat (unat n div 256 div 256 div 256 mod 256)]"
proof -
  have "(4 :: nat) = Suc (Suc (Suc (Suc 0)))" by simp
  then show ?thesis unfolding u32_le_def by (simp only: le_bytes.simps)
qed

text \<open>
  A length field that claims more than the file holds ends the replay wherever it
  stands. The open succeeds, and everything behind the damaged header is cut off the file, however
  many intact records that is: damage to a length field in mid-file is not refused.
\<close>

theorem length_damage_truncates:
  assumes "list_all loggable es" "length hdr = 8"
    and "length body < unat (u32_from_le (take 4 hdr))"
    and "length (frames es @ hdr @ body) < 2 ^ 64"
  shows "log_open apply_fn st policy (Some (frames es @ hdr @ body)) =
    Ok (foldl apply_fn st es, opened_log policy (frames es))"
  using assms by (rule log_open_long_claim)

theorem length_damage_truncates_witness:
  "let a = frame (CreateDatabase ''a''); b = frame (CreateDatabase ''b'')
   in log_open (\<lambda>xs e. xs @ [e]) [] Always (Some (frames [] @ a @ b)) =
        Ok ([CreateDatabase ''a'', CreateDatabase ''b''],
            opened_log Always (a @ b))
      \<and> log_open (\<lambda>xs e. xs @ [e]) [] Always
          (Some (frames [] @ (take 3 a @ [1] @ take 4 (drop 4 a)) @ (drop 8 a @ b))) =
        Ok ([], opened_log Always [])"
proof -
  let ?es = "[CreateDatabase ''a'', CreateDatabase ''b'']"
  let ?a = "frame (CreateDatabase ''a'')" and ?b = "frame (CreateDatabase ''b'')"
  have "list_all loggable ?es" by code_simp
  from log_open_crash [OF this, of "\<lambda>xs e. xs @ [e]" "[]" Always 100]
  have 1: "log_open (\<lambda>xs e. xs @ [e]) [] Always (Some (?a @ ?b)) =
      Ok (?es, opened_log Always (?a @ ?b))"
    by (simp add: encode_create_database_def)
  have "take 4 (take 3 ?a @ [1] @ take 4 (drop 4 ?a)) = [6, 0, 0, 1]"
    by (simp add: frame_record_def Let_def encode_create_database_def write_u32_def u32_le_bytes)
  then have "unat (u32_from_le (take 4 (take 3 ?a @ [1] @ take 4 (drop 4 ?a)))) = 16777222"
    by (simp add: u32_from_le_def)
  then have "log_open (\<lambda>xs e. xs @ [e]) [] Always
      (Some (frames [] @ (take 3 ?a @ [1] @ take 4 (drop 4 ?a)) @ (drop 8 ?a @ ?b))) =
      Ok (foldl (\<lambda>xs e. xs @ [e]) [] [], opened_log Always (frames []))"
    by (intro length_damage_truncates) (simp_all add: encode_create_database_def)
  with 1 show ?thesis by (simp add: Let_def)
qed

text \<open>
  Claim (C33). A failed write can swallow later acknowledged ones. A write that stops after the
  eight bytes of its header reports an error and leaves the header in the file; a following append
  that succeeds and is synced, but whose frame is shorter than the claimed payload, is lost at the
  next open although it was acknowledged.
\<close>

theorem failed_write_swallows_append:
  assumes "lg_file lg = frames es" "lg_policy lg = Always" "list_all loggable es"
    and "loggable a" "length (frame b) < length (encode_entry a)"
    and "length (frames es) + length (frame a) + length (frame b) < 2 ^ 64"
    and "log_append (WriteFails 8 m) lg (encode_entry a) = (r1, lg1)"
    and "log_append IoOk lg1 (encode_entry b) = (r2, lg2)"
  shows "r1 = Fail (Io m) \<and> r2 = Ok () \<and> lg_synced lg2 = length (lg_file lg2)
    \<and> log_open apply_fn st policy (Some (lg_file lg2)) =
      Ok (foldl apply_fn st es, opened_log policy (frames es))"
proof -
  let ?h = "take 8 (frame a)"
  from assms(1,2,7) have 1: "r1 = Fail (Io m)" "lg_file lg1 = frames es @ ?h" "lg_policy lg1 = Always"
    by (auto simp: log_append_def write_framed_batch_def)
  with assms(8) have 2: "r2 = Ok ()" "lg_file lg2 = frames es @ ?h @ frame b"
    "lg_synced lg2 = length (lg_file lg2)"
    by (auto simp: log_append_def write_framed_batch_def Let_def)
  have "take 4 ?h = write_u32 (word_of_nat (length (encode_entry a)))"
    by (simp add: frame_record_def Let_def)
  then have "unat (u32_from_le (take 4 ?h)) = length (encode_entry a)"
    using assms(4) by (simp add: write_u32_def unat_of_nat loggable_def)
  then have "log_open apply_fn st policy (Some (frames es @ ?h @ frame b)) =
      Ok (foldl apply_fn st es, opened_log policy (frames es))"
    using assms(3,5,6) by (intro log_open_long_claim) simp_all
  with 1 2 show ?thesis by simp
qed

theorem failed_write_swallows_append_witness:
  "let lg = opened_log Always (frames []);
       a = CreateDatabase ''a_rather_long_name''; b = CreateDatabase ''b'';
       (r1, lg1) = log_append (WriteFails 8 ''disk full'') lg (encode_entry a);
       (r2, lg2) = log_append IoOk lg1 (encode_entry b)
   in r2 = Ok () \<and> log_open (\<lambda>xs e. xs @ [e]) [] Always (Some (lg_file lg2)) =
        Ok ([], opened_log Always [])"
proof -
  let ?lg = "opened_log Always (frames [])"
  let ?a = "CreateDatabase ''a_rather_long_name''" and ?b = "CreateDatabase ''b''"
  obtain r1 lg1 r2 lg2 where
    1: "log_append (WriteFails 8 ''disk full'') ?lg (encode_entry ?a) = (r1, lg1)" and
    2: "log_append IoOk lg1 (encode_entry ?b) = (r2, lg2)"
    by (metis surj_pair)
  have "loggable ?a" by code_simp
  from failed_write_swallows_append [of ?lg "[]", OF _ _ _ this _ _ 1 2,
      of "\<lambda>xs e. xs @ [e]" "[]" Always]
  have "r2 = Ok () \<and> log_open (\<lambda>xs e. xs @ [e]) [] Always (Some (lg_file lg2)) =
        Ok ([], opened_log Always [])"
    by (simp add: encode_create_database_def)
  with 1 2 show ?thesis unfolding Let_def by simp
qed

end
