(* ===== verification/Storage_Writer.thy ===== *)
theory Storage_Writer
  imports Storage_Log
begin

text \<open>
  The log writer (\<^verbatim>\<open>src/src/storage/log_writer.rs\<close>): a thread that owns the log, takes every
  request queued so far, writes them as one batch with one sync, and sends each caller the outcome.
  A caller is the number of its acknowledgement channel; the queue is bounded, and a caller that
  finds it full waits, so that its submission happens later.
\<close>

section \<open>The writer thread\<close>

definition WRITER_QUEUE_CAPACITY :: nat where
  "WRITER_QUEUE_CAPACITY = 4096"

record write_request =
  wq_caller :: nat
  wq_framed :: "u8 list"

record writer =
  wr_log :: log
  wr_queue :: "write_request list"
  wr_acks :: "(nat \<times> unit result) list"

definition spawn :: "log \<Rightarrow> writer" where
  "spawn lg = \<lparr>wr_log = lg, wr_queue = [], wr_acks = []\<rparr>"

definition submit :: "nat \<Rightarrow> u8 list \<Rightarrow> writer \<Rightarrow> writer option" where
  "submit caller framed w =
     (if length (wr_queue w) < WRITER_QUEUE_CAPACITY
      then Some (w\<lparr>wr_queue := wr_queue w @ [\<lparr>wq_caller = caller, wq_framed = framed\<rparr>]\<rparr>)
      else None)"

text \<open>Every waiter of a failed batch gets an I/O error built from the text of the first.\<close>

definition batch_ack :: "unit result \<Rightarrow> unit result" where
  "batch_ack r = (case r of Inl (Err e) \<Rightarrow> Fail (Io (error_text e)) | _ \<Rightarrow> r)"

text \<open>One round of the loop of \<^verbatim>\<open>run\<close>; with an empty queue the thread blocks.\<close>

definition write_batch :: "io_outcome \<Rightarrow> writer \<Rightarrow> writer" where
  "write_batch io w =
     (case wr_queue w of
        [] \<Rightarrow> w
      | batch \<Rightarrow>
          (let (r, lg') = write_framed_batch io (wr_log w) (concat (map wq_framed batch))
           in w\<lparr>wr_log := lg', wr_queue := [],
                wr_acks := wr_acks w @ map (\<lambda>rq. (wq_caller rq, batch_ack r)) batch\<rparr>))"

text \<open>
  Runs of the writer: callers submit entries, each on a channel of its own, and batches are
  written.  The second argument lists what was submitted, in order.  The outcome of a batch may be
  a failed sync, but not a torn write.
\<close>

fun no_torn :: "io_outcome \<Rightarrow> bool" where
  "no_torn (WriteFails _ _) = False"
| "no_torn _ = True"

inductive wr_run :: "writer \<Rightarrow> (nat \<times> entry) list \<Rightarrow> writer \<Rightarrow> bool" for w0 where
  run_start: "wr_run w0 [] w0"
| run_submit: "wr_run w0 subs w \<Longrightarrow> loggable e \<Longrightarrow> c \<notin> set (map fst subs) \<Longrightarrow>
    submit c (frame e) w = Some w' \<Longrightarrow> wr_run w0 (subs @ [(c, e)]) w'"
| run_batch: "wr_run w0 subs w \<Longrightarrow> no_torn io \<Longrightarrow> wr_run w0 subs (write_batch io w)"

section \<open>What a run keeps\<close>

definition requests :: "(nat \<times> entry) list \<Rightarrow> write_request list" where
  "requests subs = map (\<lambda>(c, e). \<lparr>wq_caller = c, wq_framed = frame e\<rparr>) subs"

definition wr_inv :: "entry list \<Rightarrow> (nat \<times> entry) list \<Rightarrow> writer \<Rightarrow> bool" where
  "wr_inv es subs w \<longleftrightarrow>
     lg_policy (wr_log w) = Always \<and> distinct (map fst subs) \<and> list_all loggable (map snd subs)
     \<and> (\<exists>synced written queued. subs = synced @ written @ queued
          \<and> lg_file (wr_log w) = frames (es @ map snd (synced @ written))
          \<and> length (frames (es @ map snd synced)) \<le> lg_synced (wr_log w)
          \<and> wr_queue w = requests queued
          \<and> {c. (c, Ok ()) \<in> set (wr_acks w)} \<subseteq> set (map fst synced))"

lemma concat_requests: "concat (map wq_framed (requests subs)) = frames (map snd subs)"
  by (simp add: requests_def frames_def comp_def case_prod_unfold)

lemma requests_simps [simp]:
  "requests [] = []" "requests (xs @ ys) = requests xs @ requests ys"
  "requests [(c, e)] = [\<lparr>wq_caller = c, wq_framed = frame e\<rparr>]"
  by (simp_all add: requests_def)

lemma wr_inv_start: "wr_inv es [] (spawn (opened_log Always (frames es)))"
  by (simp add: wr_inv_def spawn_def)

lemma wr_inv_submit:
  assumes "wr_inv es subs w" "loggable e" "c \<notin> set (map fst subs)" "submit c (frame e) w = Some w'"
  shows "wr_inv es (subs @ [(c, e)]) w'"
proof -
  obtain synced written queued where "subs = synced @ written @ queued"
    and "lg_file (wr_log w) = frames (es @ map snd (synced @ written))"
    and "length (frames (es @ map snd synced)) \<le> lg_synced (wr_log w)" "wr_queue w = requests queued"
    and "{c. (c, Ok ()) \<in> set (wr_acks w)} \<subseteq> set (map fst synced)"
    using assms(1) by (auto simp: wr_inv_def)
  with assms show ?thesis
    unfolding wr_inv_def
    by (intro conjI exI [of _ synced] exI [of _ written] exI [of _ "queued @ [(c, e)]"])
      (auto simp: wr_inv_def submit_def split: if_splits)
qed

lemma acks_of_requests:
  "{c. (c, Ok ()) \<in> set (map (\<lambda>rq. (wq_caller rq, r)) (requests subs))} = (if r = Ok () then set (map fst subs) else {})"
proof -
  have "map (\<lambda>rq. (wq_caller rq, r)) (requests subs) = map (\<lambda>x. (fst x, r)) subs"
    by (simp add: requests_def case_prod_unfold)
  then show ?thesis by (auto simp: image_iff)
qed

lemma batch_ack_Ok: "batch_ack r = Ok () \<longleftrightarrow> r = Ok ()"
  by (auto simp: batch_ack_def split: sum.split exn.split)

lemma write_batch_queue:
  assumes "wr_queue w = requests queued" "queued \<noteq> []"
  shows "write_batch io w =
    (let (r, lg') = write_framed_batch io (wr_log w) (frames (map snd queued))
     in w\<lparr>wr_log := lg', wr_queue := [],
          wr_acks := wr_acks w @ map (\<lambda>rq. (wq_caller rq, batch_ack r)) (requests queued)\<rparr>)"
  using assms by (cases queued) (auto simp: write_batch_def concat_requests [symmetric] requests_def)

lemma wr_invI:
  assumes "lg_policy (wr_log w) = Always" "distinct (map fst subs)" "list_all loggable (map snd subs)"
    and "subs = synced @ written @ queued" "lg_file (wr_log w) = frames (es @ map snd (synced @ written))"
    and "length (frames (es @ map snd synced)) \<le> lg_synced (wr_log w)" "wr_queue w = requests queued"
    and "{c. (c, Ok ()) \<in> set (wr_acks w)} \<subseteq> set (map fst synced)"
  shows "wr_inv es subs w"
  using assms unfolding wr_inv_def by blast

lemma wr_inv_batch:
  assumes "wr_inv es subs w" "no_torn io"
  shows "wr_inv es subs (write_batch io w)"
proof -
  obtain synced written queued where s: "subs = synced @ written @ queued"
    and f: "lg_file (wr_log w) = frames (es @ map snd (synced @ written))"
    and y: "length (frames (es @ map snd synced)) \<le> lg_synced (wr_log w)" and q: "wr_queue w = requests queued"
    and a: "{c. (c, Ok ()) \<in> set (wr_acks w)} \<subseteq> set (map fst synced)"
    and p: "lg_policy (wr_log w) = Always" "distinct (map fst subs)" "list_all loggable (map snd subs)"
    using assms(1) unfolding wr_inv_def by blast
  let ?fr = "frames (map snd queued)"
  show ?thesis
  proof (cases "queued = []")
    case True
    then show ?thesis using assms(1) q by (simp add: write_batch_def)
  next
    case False
    note w = write_batch_queue [OF q False, of io]
    have acks: "{c. (c, Ok ()) \<in> set (wr_acks (write_batch io w))} =
        {c. (c, Ok ()) \<in> set (wr_acks w)} \<union>
        (if fst (write_framed_batch io (wr_log w) ?fr) = Ok () then set (map fst queued) else {})"
      using acks_of_requests [of "batch_ack (fst (write_framed_batch io (wr_log w) ?fr))" queued]
      unfolding w by (simp add: case_prod_unfold Let_def batch_ack_Ok Collect_disj_eq)
    show ?thesis
    proof (cases io)
      case IoOk
      show ?thesis
      proof (rule wr_invI [where synced = subs and written = "[]" and queued = "[]"])
        show "{c. (c, Ok ()) \<in> set (wr_acks (write_batch io w))} \<subseteq> set (map fst subs)"
          using acks a s by (auto split: if_splits)
      qed (use p s f in \<open>simp_all add: w [unfolded IoOk] IoOk write_framed_batch_def Let_def\<close>)
    next
      case (SyncFails m)
      show ?thesis
      proof (rule wr_invI [where synced = synced and written = "written @ queued" and queued = "[]"])
        show "{c. (c, Ok ()) \<in> set (wr_acks (write_batch io w))} \<subseteq> set (map fst synced)"
          using acks a p(1) by (simp add: SyncFails write_framed_batch_def Let_def)
      qed (use p s f y in \<open>simp_all add: w [unfolded SyncFails] SyncFails write_framed_batch_def Let_def\<close>)
    qed (use assms(2) in simp)
  qed
qed

lemma wr_run_inv:
  assumes "wr_run w0 subs w" "w0 = spawn (opened_log Always (frames es))"
  shows "wr_inv es subs w"
  using assms by induction (simp_all add: wr_inv_start wr_inv_submit wr_inv_batch)

section \<open>Properties of the writer\<close>


definition demo_writer :: writer where
  "demo_writer = write_batch IoOk (the (submit 2 (frame (CreateDatabase ''b''))
     (the (submit 1 (frame (CreateDatabase ''a'')) (spawn (opened_log Always []))))))"

lemma demo_writer_run:
  "wr_run (spawn (opened_log Always (frames []))) [(1, CreateDatabase ''a''), (2, CreateDatabase ''b'')] demo_writer"
proof -
  let ?w0 = "spawn (opened_log Always (frames []))"
  have l: "loggable (CreateDatabase ''a'')" "loggable (CreateDatabase ''b'')" by code_simp+
  have "wr_run ?w0 ([] @ [(1, CreateDatabase ''a'')]) (the (submit 1 (frame (CreateDatabase ''a'')) ?w0))"
    by (rule run_submit [OF run_start l(1)]) (simp_all add: submit_def spawn_def WRITER_QUEUE_CAPACITY_def)
  then have "wr_run ?w0 (([] @ [(1, CreateDatabase ''a'')]) @ [(2, CreateDatabase ''b'')])
      (the (submit 2 (frame (CreateDatabase ''b'')) (the (submit 1 (frame (CreateDatabase ''a'')) ?w0))))"
    by (rule run_submit [OF _ l(2)]) (simp_all add: submit_def spawn_def WRITER_QUEUE_CAPACITY_def)
  from run_batch [OF this, of IoOk] show ?thesis by (simp add: demo_writer_def)
qed

lemma demo_writer_state:
  "wr_acks demo_writer = [(1, Ok ()), (2, Ok ())]"
  "lg_file (wr_log demo_writer) = frames [CreateDatabase ''a'', CreateDatabase ''b'']"
  "lg_synced (wr_log demo_writer) = length (lg_file (wr_log demo_writer))"
  by (simp_all add: demo_writer_def submit_def spawn_def WRITER_QUEUE_CAPACITY_def write_batch_def
      write_framed_batch_def Let_def batch_ack_def)


text \<open>
  Group commit is an optimisation only: writing the queued requests as one batch with
  one sync leaves the log and the acknowledgements that writing and syncing them one at a time
  would leave.
\<close>

theorem group_commit_equivalent:
  "write_batch IoOk w =
     foldl (\<lambda>v rq. write_batch IoOk (v\<lparr>wr_queue := [rq]\<rparr>)) (w\<lparr>wr_queue := []\<rparr>) (wr_queue w)"
proof -
  have one: "write_batch IoOk (v\<lparr>wr_queue := rq # rqs\<rparr>) =
      foldl (\<lambda>v rq. write_batch IoOk (v\<lparr>wr_queue := [rq]\<rparr>)) (v\<lparr>wr_queue := []\<rparr>) (rq # rqs)" for v rq rqs
  proof (induction rqs arbitrary: v rq)
    case Nil
    then show ?case by simp
  next
    case (Cons rq' rqs)
    let ?v = "(write_batch IoOk (v\<lparr>wr_queue := [rq]\<rparr>))"
    have "write_batch IoOk (v\<lparr>wr_queue := rq # rq' # rqs\<rparr>) = write_batch IoOk (?v\<lparr>wr_queue := rq' # rqs\<rparr>)"
      by (simp add: write_batch_def write_framed_batch_def Let_def batch_ack_def)
    also have "\<dots> = foldl (\<lambda>v rq. write_batch IoOk (v\<lparr>wr_queue := [rq]\<rparr>)) (?v\<lparr>wr_queue := []\<rparr>) (rq' # rqs)"
      by (rule Cons.IH)
    also have "?v\<lparr>wr_queue := []\<rparr> = ?v"
      by (simp add: write_batch_def Let_def case_prod_unfold)
    finally show ?case by simp
  qed
  show ?thesis
  proof (cases "wr_queue w")
    case Nil
    then have "w\<lparr>wr_queue := []\<rparr> = w" by simp
    with Nil show ?thesis by (simp add: write_batch_def)
  next
    case (Cons rq rqs)
    then have "w\<lparr>wr_queue := rq # rqs\<rparr> = w" by simp
    with one [where v = w and rq = rq and rqs = rqs] Cons show ?thesis by simp
  qed
qed

end
