(* ===== verification/Storage_Table.thy ===== *)
theory Storage_Table
  imports Log_Codec
begin

text \<open>
  One table of the in-memory store (\<^verbatim>\<open>src/src/storage/engine.rs\<close>, lines 28 to 349):
  \<^verbatim>\<open>Table\<close> with its primary-key index and \<^verbatim>\<open>AUTO_INCREMENT\<close> counter, the
  rebuilding of a table by \<^verbatim>\<open>ALTER TABLE\<close> and the retyping of stored values.

  The hash index is a finite map from key values to row positions.  Indexing a row is a panic when
  the row is too short; the additions of the counter wrap as they do in a release build.
\<close>

section \<open>Tables\<close>

record tbl =
  tb_schema :: table_schema
  tb_pk_index :: "nat option"
  tb_rows :: "row list"
  tb_index :: "value \<rightharpoonup> nat"
  tb_auto :: "(nat \<times> i64) option"

definition new_table :: "column_schema list \<Rightarrow> string option \<Rightarrow> tbl" where
  "new_table columns primary_key =
     \<lparr>tb_schema = \<lparr>ts_columns = columns, ts_primary_key = primary_key\<rparr>,
      tb_pk_index = Option.bind primary_key (\<lambda>pk. position (\<lambda>c. cs_name c = pk) columns),
      tb_rows = [], tb_index = Map.empty,
      tb_auto = map_option (\<lambda>idx. (idx, 1)) (position cs_auto_increment columns)\<rparr>"

definition max_i64 :: "i64 \<Rightarrow> i64 \<Rightarrow> i64" where
  "max_i64 a b = (if sint a \<le> sint b then b else a)"

definition push_index :: "tbl \<Rightarrow> row \<Rightarrow> (value \<rightharpoonup> nat) result" where
  "push_index t row =
     (case tb_pk_index t of
        Some idx \<Rightarrow> bindR (index_at row idx) (\<lambda>k. Ok ((tb_index t)(k \<mapsto> length (tb_rows t))))
      | None \<Rightarrow> Ok (tb_index t))"

definition push_auto :: "tbl \<Rightarrow> row \<Rightarrow> (nat \<times> i64) option result" where
  "push_auto t row =
     (case tb_auto t of
        Some (ai_idx, next) \<Rightarrow>
          bindR (index_at row ai_idx) (\<lambda>v.
          Ok (Some (ai_idx, case v of VInt n \<Rightarrow> max_i64 next (n + 1) | _ \<Rightarrow> next)))
      | None \<Rightarrow> Ok None)"

definition push_trusted :: "tbl \<Rightarrow> row \<Rightarrow> tbl result" where
  "push_trusted t row =
     bindR (push_index t row) (\<lambda>idx.
     bindR (push_auto t row) (\<lambda>auto.
     Ok (t\<lparr>tb_index := idx, tb_auto := auto, tb_rows := tb_rows t @ [row]\<rparr>)))"

definition err_duplicate_entry :: "value \<Rightarrow> exn" where
  "err_duplicate_entry v = Err (Execution (''Duplicate entry '' @
     quoted (unwrap_or_default (to_display_string v)) @ '' for key '' @ quoted ''PRIMARY''))"

definition check_insertable :: "tbl \<Rightarrow> row \<Rightarrow> unit result" where
  "check_insertable t row =
     (case tb_pk_index t of
        Some idx \<Rightarrow>
          bindR (index_at row idx) (\<lambda>k.
          if tb_index t k \<noteq> None then Inl (err_duplicate_entry k) else Ok ())
      | None \<Rightarrow> Ok ())"

definition primary_key_value :: "tbl \<Rightarrow> row \<Rightarrow> value option result" where
  "primary_key_value t row =
     (case tb_pk_index t of
        Some idx \<Rightarrow> map_result Some (index_at row idx)
      | None \<Rightarrow> Ok None)"

section \<open>Retyping a stored value\<close>

definition err_int_to_date :: "string \<Rightarrow> exn" where
  "err_int_to_date c = Err (Execution
     (''Incorrect date value for column '' @ quoted c @ '': cannot convert an INT to DATE''))"
definition err_decimal_to_date :: "string \<Rightarrow> exn" where
  "err_decimal_to_date c = Err (Execution
     (''Incorrect date value for column '' @ quoted c @ '': cannot convert a DECIMAL to DATE''))"
definition err_date_to_int :: "string \<Rightarrow> exn" where
  "err_date_to_int c = Err (Execution
     (''Incorrect integer value for column '' @ quoted c @ '': cannot convert a DATE to INT''))"
definition err_date_to_decimal :: "string \<Rightarrow> exn" where
  "err_date_to_decimal c = Err (Execution
     (''Incorrect decimal value for column '' @ quoted c @ '': cannot convert a DATE to DECIMAL''))"
definition err_integer_value :: "string \<Rightarrow> string \<Rightarrow> exn" where
  "err_integer_value s c = Err (Execution
     (''Incorrect integer value: '' @ quoted s @ '' for column '' @ quoted c))"

fun retype_value :: "value \<Rightarrow> column_type \<Rightarrow> string \<Rightarrow> value result" where
  "retype_value VNull _ c = Ok VNull"
| "retype_value (VInt n) TInt c = Ok (VInt n)"
| "retype_value (VInt n) TVarchar c = Ok (VVarchar (show_i64 n))"
| "retype_value (VInt n) (TDecimal scale) c =
     map_result (\<lambda>u. VDecimal u scale) (rescale_decimal n 0 scale c)"
| "retype_value (VInt n) TDate c = Inl (err_int_to_date c)"
| "retype_value (VVarchar s) TVarchar c = Ok (VVarchar s)"
| "retype_value (VVarchar s) TInt c = ok_or (err_integer_value s c) (map_option VInt (parse_i64 s))"
| "retype_value (VVarchar s) (TDecimal scale) c =
     bindR (parse_decimal_literal s c) (\<lambda>(unscaled, lit_scale).
     map_result (\<lambda>u. VDecimal u scale) (rescale_decimal unscaled lit_scale scale c))"
| "retype_value (VVarchar s) TDate c = map_result VDate (parse_date_literal s c)"
| "retype_value (VDecimal unscaled scale) (TDecimal new_scale) c =
     map_result (\<lambda>u. VDecimal u new_scale) (rescale_decimal unscaled scale new_scale c)"
| "retype_value (VDecimal unscaled scale) TInt c = map_result VInt (rescale_decimal unscaled scale 0 c)"
| "retype_value (VDecimal unscaled scale) TVarchar c = Ok (VVarchar (format_decimal unscaled scale))"
| "retype_value (VDecimal _ _) TDate c = Inl (err_decimal_to_date c)"
| "retype_value (VDate s) TDate c = Ok (VDate s)"
| "retype_value (VDate s) TVarchar c = Ok (VVarchar s)"
| "retype_value (VDate _) TInt c = Inl (err_date_to_int c)"
| "retype_value (VDate _) (TDecimal _) c = Inl (err_date_to_decimal c)"

section \<open>ALTER TABLE\<close>

definition err_duplicate_column :: "string \<Rightarrow> exn" where
  "err_duplicate_column c = Err (Execution (''Duplicate column name '' @ quoted c))"
definition err_add_not_null :: "string \<Rightarrow> exn" where
  "err_add_not_null c = Err (Execution (''ADD COLUMN '' @ quoted c @
     '' NOT NULL is not supported on a table that already has rows (no DEFAULT value support)''))"
definition err_add_primary_key :: "string \<Rightarrow> exn" where
  "err_add_primary_key c = Err (Execution (''ADD COLUMN '' @ quoted c @
     '' PRIMARY KEY is not supported on a table that already has rows''))"
definition err_has_primary_key :: exn where
  "err_has_primary_key = Err (Execution ''table already has a primary key'')"
definition err_no_primary_key :: exn where
  "err_no_primary_key = Err (Execution ''table has no primary key to drop'')"
definition err_unknown_column :: "string \<Rightarrow> exn" where
  "err_unknown_column c = Err (Execution (''Unknown column '' @ quoted c))"
definition err_only_column :: exn where
  "err_only_column = Err (Execution ''cannot drop the only remaining column in a table'')"
definition err_auto_not_pk :: exn where
  "err_auto_not_pk = Err (Unsupported ''AUTO_INCREMENT on a column that isn't the PRIMARY KEY'')"
definition err_cannot_be_null :: "string \<Rightarrow> exn" where
  "err_cannot_be_null c = Err (Execution (''Column '' @ quoted c @ '' cannot be null''))"
definition err_null_primary_key :: "string \<Rightarrow> exn" where
  "err_null_primary_key c = Err (Execution
     (''Column '' @ quoted c @ '' contains NULL values; cannot be a primary key''))"

text \<open>\<^verbatim>\<open>Vec::remove\<close> and \<^verbatim>\<open>v[i] = x\<close>, which panic out of range.\<close>

definition vec_remove :: "'a list \<Rightarrow> nat \<Rightarrow> 'a list result" where
  "vec_remove xs i = (if i < length xs then Ok (take i xs @ drop (Suc i) xs)
                      else Panics ''index out of bounds'')"

definition alter_add_column :: "tbl \<Rightarrow> column_schema \<Rightarrow> bool \<Rightarrow> tbl result" where
  "alter_add_column current column is_primary_key =
     (let schema = tb_schema current in
      if list_ex (\<lambda>c. cs_name c = cs_name column) (ts_columns schema)
      then Inl (err_duplicate_column (cs_name column))
      else if tb_rows current \<noteq> [] \<and> \<not> cs_nullable column
      then Inl (err_add_not_null (cs_name column))
      else if tb_rows current \<noteq> [] \<and> is_primary_key
      then Inl (err_add_primary_key (cs_name column))
      else if is_primary_key \<and> ts_primary_key schema \<noteq> None then Inl err_has_primary_key
      else foldR (\<lambda>rebuilt row. push_trusted rebuilt (row @ [VNull]))
             (new_table (ts_columns schema @ [column])
                (if is_primary_key then Some (cs_name column) else ts_primary_key schema))
             (tb_rows current))"

definition alter_drop_column :: "tbl \<Rightarrow> string \<Rightarrow> tbl result" where
  "alter_drop_column current name =
     (let schema = tb_schema current in
      bindR (ok_or (err_unknown_column name) (position (\<lambda>c. cs_name c = name) (ts_columns schema)))
        (\<lambda>idx.
      if length (ts_columns schema) = 1 then Inl err_only_column
      else bindR (vec_remove (ts_columns schema) idx) (\<lambda>columns.
        foldR (\<lambda>rebuilt row. bindR (vec_remove row idx) (push_trusted rebuilt))
          (new_table columns
             (case ts_primary_key schema of
                Some pk \<Rightarrow> if pk \<noteq> name then Some pk else None | None \<Rightarrow> None))
          (tb_rows current))))"

definition modify_row :: "nat \<Rightarrow> column_schema \<Rightarrow> row \<Rightarrow> row result" where
  "modify_row idx new_col row =
     bindR (index_at row idx) (\<lambda>v.
     bindR (retype_value v (cs_type new_col) (cs_name new_col)) (\<lambda>v'.
     if \<not> cs_nullable new_col \<and> v' = VNull then Inl (err_cannot_be_null (cs_name new_col))
     else Ok (row[idx := v'])))"

definition alter_modify_column :: "tbl \<Rightarrow> column_schema \<Rightarrow> tbl result" where
  "alter_modify_column current new_col =
     (let schema = tb_schema current in
      bindR (ok_or (err_unknown_column (cs_name new_col))
               (position (\<lambda>c. cs_name c = cs_name new_col) (ts_columns schema))) (\<lambda>idx.
      if cs_auto_increment new_col \<and> ts_primary_key schema \<noteq> Some (cs_name new_col)
      then Inl err_auto_not_pk
      else foldR (\<lambda>rebuilt row. bindR (modify_row idx new_col row) (push_trusted rebuilt))
             (new_table ((ts_columns schema)[idx := new_col]) (ts_primary_key schema))
             (tb_rows current)))"

definition alter_add_primary_key :: "tbl \<Rightarrow> string \<Rightarrow> tbl result" where
  "alter_add_primary_key current name =
     (let schema = tb_schema current in
      if ts_primary_key schema \<noteq> None then Inl err_has_primary_key
      else bindR (ok_or (err_unknown_column name)
                    (position (\<lambda>c. cs_name c = name) (ts_columns schema))) (\<lambda>idx.
        let columns = (ts_columns schema)[idx := (ts_columns schema ! idx)\<lparr>cs_nullable := False\<rparr>]
        in map_result fst
             (foldR (\<lambda>(rebuilt, seen) row.
                bindR (index_at row idx) (\<lambda>k.
                if k = VNull then Inl (err_null_primary_key name)
                else if k \<in> seen then Inl (err_duplicate_entry k)
                else map_result (\<lambda>r. (r, insert k seen)) (push_trusted rebuilt row)))
              (new_table columns (Some name), {}) (tb_rows current))))"

definition alter_drop_primary_key :: "tbl \<Rightarrow> tbl result" where
  "alter_drop_primary_key current =
     (let schema = tb_schema current in
      if ts_primary_key schema = None then Inl err_no_primary_key
      else foldR push_trusted
             (new_table
                (map (\<lambda>c. if Some (cs_name c) = ts_primary_key schema
                          then c\<lparr>cs_auto_increment := False\<rparr> else c) (ts_columns schema))
                None)
             (tb_rows current))"

fun compute_altered_table :: "tbl \<Rightarrow> schema_change \<Rightarrow> tbl result" where
  "compute_altered_table current (AddColumn column is_primary_key) =
     alter_add_column current column is_primary_key"
| "compute_altered_table current (DropColumn name) = alter_drop_column current name"
| "compute_altered_table current (ModifyColumn new_col) = alter_modify_column current new_col"
| "compute_altered_table current (AddPrimaryKey name) = alter_add_primary_key current name"
| "compute_altered_table current DropPrimaryKey = alter_drop_primary_key current"

section \<open>The invariant of a table\<close>

abbreviation tb_columns :: "tbl \<Rightarrow> column_schema list" where
  "tb_columns t \<equiv> ts_columns (tb_schema t)"

abbreviation tb_pk :: "tbl \<Rightarrow> string option" where
  "tb_pk t \<equiv> ts_primary_key (tb_schema t)"

definition pk_position :: "string option \<Rightarrow> column_schema list \<Rightarrow> nat option" where
  "pk_position pk cols = Option.bind pk (\<lambda>k. position (\<lambda>c. cs_name c = k) cols)"

definition index_sound :: "nat option \<Rightarrow> row list \<Rightarrow> (value \<rightharpoonup> nat) \<Rightarrow> bool" where
  "index_sound pki rows idx \<longleftrightarrow>
     (case pki of
        None \<Rightarrow> idx = Map.empty
      | Some i \<Rightarrow> (\<forall>k n. idx k = Some n \<longrightarrow> n < length rows \<and> rows ! n ! i = k)
                  \<and> (\<forall>row \<in> set rows. idx (row ! i) \<noteq> None))"

definition table_wf :: "tbl \<Rightarrow> bool" where
  "table_wf t \<longleftrightarrow>
     tb_pk_index t = pk_position (tb_pk t) (tb_columns t)
     \<and> (tb_pk t \<noteq> None \<longrightarrow> pk_position (tb_pk t) (tb_columns t) \<noteq> None)
     \<and> (\<forall>row \<in> set (tb_rows t). length row = length (tb_columns t))
     \<and> map_option fst (tb_auto t) = position cs_auto_increment (tb_columns t)
     \<and> index_sound (tb_pk_index t) (tb_rows t) (tb_index t)"

definition keys_unique :: "tbl \<Rightarrow> bool" where
  "keys_unique t \<longleftrightarrow>
     (case tb_pk_index t of None \<Rightarrow> True | Some i \<Rightarrow> distinct (map (\<lambda>r. r ! i) (tb_rows t)))"

definition auto_ahead :: "tbl \<Rightarrow> bool" where
  "auto_ahead t \<longleftrightarrow>
     (case tb_auto t of
        None \<Rightarrow> True
      | Some (ai, next) \<Rightarrow>
          \<forall>row \<in> set (tb_rows t). \<forall>v. row ! ai = VInt v \<longrightarrow> sint v < sint next \<or> sint v = i64_max)"

lemma pk_position_less: "pk_position pk cols = Some i \<Longrightarrow> i < length cols"
  by (auto simp: pk_position_def bind_eq_Some_conv dest: position_SomeD)

lemma table_wf_pk_less:
  "table_wf t \<Longrightarrow> tb_pk_index t = Some i \<Longrightarrow> i < length (tb_columns t)"
  unfolding table_wf_def by (metis pk_position_less)

lemma table_wf_auto_less:
  "table_wf t \<Longrightarrow> tb_auto t = Some (i, n) \<Longrightarrow> i < length (tb_columns t)"
  by (auto simp: table_wf_def dest: position_SomeD sym)

lemma new_table_simps [simp]:
  "tb_columns (new_table cols pk) = cols" "tb_pk (new_table cols pk) = pk"
  "tb_rows (new_table cols pk) = []" "tb_index (new_table cols pk) = Map.empty"
  "tb_pk_index (new_table cols pk) = pk_position pk cols"
  "tb_auto (new_table cols pk) = map_option (\<lambda>i. (i, 1)) (position cs_auto_increment cols)"
  by (simp_all add: new_table_def pk_position_def)

lemma new_table_wf:
  assumes "pk \<noteq> None \<longrightarrow> pk_position pk cols \<noteq> None"
  shows "table_wf (new_table cols pk)"
  using assms
  by (cases "position cs_auto_increment cols")
     (simp_all add: table_wf_def index_sound_def split: option.split)

lemma new_table_unique [simp]: "keys_unique (new_table cols pk)"
  by (simp add: keys_unique_def split: option.split)

lemma new_table_auto [simp]: "auto_ahead (new_table cols pk)"
  by (simp add: auto_ahead_def split: option.split)

lemma sint_max_i64: "sint (max_i64 a b) = max (sint a) (sint b)"
  by (simp add: max_i64_def)

lemma sint_add_1: "sint (v :: i64) \<noteq> i64_max \<Longrightarrow> sint (v + 1) = sint v + 1"
proof -
  assume a: "sint v \<noteq> i64_max"
  have "in_i64 (sint v + 1)" using a sint_i64_bounds [of v] by (simp add: in_i64_def)
  then have "sint (word_of_int (sint v + 1) :: i64) = sint v + 1" by (rule sint_word_of_int_i64)
  moreover have "(word_of_int (sint v + 1) :: i64) = v + 1" by simp
  ultimately show ?thesis by simp
qed

text \<open>What appending a row to a well-formed table does.\<close>

lemma push_trusted_Ok:
  assumes wf: "table_wf t" and len: "length row = length (tb_columns t)"
  shows "\<exists>idx auto. push_trusted t row = Ok (t\<lparr>tb_index := idx, tb_auto := auto, tb_rows := tb_rows t @ [row]\<rparr>)
    \<and> idx = (case tb_pk_index t of None \<Rightarrow> tb_index t
             | Some i \<Rightarrow> (tb_index t)(row ! i \<mapsto> length (tb_rows t)))
    \<and> auto = map_option (\<lambda>(ai, next). (ai, case row ! ai of VInt v \<Rightarrow> max_i64 next (v + 1) | _ \<Rightarrow> next))
               (tb_auto t)"
  using table_wf_pk_less [OF wf] table_wf_auto_less [OF wf] len
  by (auto simp: push_trusted_def push_index_def push_auto_def split: option.splits prod.splits)

lemma index_sound_push:
  assumes "index_sound pki rows idx"
  shows "index_sound pki (rows @ [row])
    (case pki of None \<Rightarrow> idx | Some i \<Rightarrow> idx(row ! i \<mapsto> length rows))"
  using assms by (auto simp: index_sound_def nth_append split: option.splits)

lemma push_trusted_wf:
  assumes wf: "table_wf t" and len: "length row = length (tb_columns t)"
  obtains t' where "push_trusted t row = Ok t'" "table_wf t'" "tb_schema t' = tb_schema t"
    "tb_rows t' = tb_rows t @ [row]" "tb_pk_index t' = tb_pk_index t"
    "tb_index t' = (case tb_pk_index t of None \<Rightarrow> tb_index t
             | Some i \<Rightarrow> (tb_index t)(row ! i \<mapsto> length (tb_rows t)))"
    "tb_auto t' = map_option (\<lambda>(ai, next). (ai, case row ! ai of VInt v \<Rightarrow> max_i64 next (v + 1) | _ \<Rightarrow> next))
               (tb_auto t)"
proof -
  obtain idx auto where e: "push_trusted t row = Ok (t\<lparr>tb_index := idx, tb_auto := auto, tb_rows := tb_rows t @ [row]\<rparr>)"
    and idx: "idx = (case tb_pk_index t of None \<Rightarrow> tb_index t
             | Some i \<Rightarrow> (tb_index t)(row ! i \<mapsto> length (tb_rows t)))"
    and auto: "auto = map_option (\<lambda>(ai, next). (ai, case row ! ai of VInt v \<Rightarrow> max_i64 next (v + 1) | _ \<Rightarrow> next))
               (tb_auto t)"
    using push_trusted_Ok [OF wf len] by blast
  let ?t' = "t\<lparr>tb_index := idx, tb_auto := auto, tb_rows := tb_rows t @ [row]\<rparr>"
  have "map_option fst auto = map_option fst (tb_auto t)"
    unfolding auto by (simp add: option.map_comp case_prod_unfold comp_def)
  then have "table_wf ?t'"
    using wf len index_sound_push [of "tb_pk_index t" "tb_rows t" "tb_index t" row]
    unfolding table_wf_def idx by auto
  with e idx auto show thesis by (intro that [of ?t']) simp_all
qed

lemma push_trusted_facts:
  assumes "push_trusted t row = Ok t'" "table_wf t" "length row = length (tb_columns t)"
  shows "table_wf t'" "tb_schema t' = tb_schema t" "tb_rows t' = tb_rows t @ [row]"
    "tb_pk_index t' = tb_pk_index t"
    "tb_index t' = (case tb_pk_index t of None \<Rightarrow> tb_index t
             | Some i \<Rightarrow> (tb_index t)(row ! i \<mapsto> length (tb_rows t)))"
    "tb_auto t' = map_option (\<lambda>(ai, next). (ai, case row ! ai of VInt v \<Rightarrow> max_i64 next (v + 1) | _ \<Rightarrow> next))
               (tb_auto t)"
  by (rule push_trusted_wf [OF assms(2,3)]; use assms(1) in simp)+

lemma check_insertable_Ok_iff:
  assumes "table_wf t" "length row = length (tb_columns t)"
  shows "check_insertable t row = Ok () \<longleftrightarrow>
    (\<forall>i. tb_pk_index t = Some i \<longrightarrow> row ! i \<notin> set (map (\<lambda>r. r ! i) (tb_rows t)))"
proof (cases "tb_pk_index t")
  case None
  then show ?thesis by (simp add: check_insertable_def)
next
  case (Some i)
  then have l: "i < length row" using table_wf_pk_less [OF assms(1)] assms(2) by simp
  have "index_sound (Some i) (tb_rows t) (tb_index t)"
    using assms(1) Some unfolding table_wf_def by auto
  then have "tb_index t (row ! i) = None \<longleftrightarrow> row ! i \<notin> set (map (\<lambda>r. r ! i) (tb_rows t))"
    unfolding index_sound_def option.case set_map image_iff by (metis nth_mem option.exhaust)
  with Some l show ?thesis by (cases "tb_index t (row ! i)") (simp_all add: check_insertable_def)
qed

lemma push_trusted_unique:
  assumes "table_wf t" "keys_unique t" "length row = length (tb_columns t)"
    "check_insertable t row = Ok ()" "push_trusted t row = Ok t'"
  shows "keys_unique t'"
proof -
  note f = push_trusted_facts [OF assms(5,1,3)]
  show ?thesis
    using assms(2) f(3,4) assms(4) [unfolded check_insertable_Ok_iff [OF assms(1,3)]]
    by (auto simp: keys_unique_def split: option.splits)
qed

lemma push_trusted_auto:
  assumes "auto_ahead t" "push_trusted t row = Ok t'"
  shows "auto_ahead t'"
proof (cases "tb_auto t")
  case None
  then show ?thesis using assms(2) by (auto simp: push_trusted_def push_auto_def result_simps auto_ahead_def)
next
  case (Some a)
  obtain ai nx where a: "a = (ai, nx)" by (cases a)
  let ?n = "case row ! ai of VInt v \<Rightarrow> max_i64 nx (v + 1) | _ \<Rightarrow> nx"
  have t': "tb_rows t' = tb_rows t @ [row]" "tb_auto t' = Some (ai, ?n)"
    using assms(2) Some a by (auto simp: push_trusted_def push_auto_def result_simps)
  have n: "sint nx \<le> sint ?n" by (cases "row ! ai") (simp_all add: sint_max_i64)
  have "sint v < sint ?n \<or> sint v = i64_max" if "row ! ai = VInt v" for v
    using that sint_add_1 [of v] by (auto simp: sint_max_i64)
  moreover have "sint v < sint ?n \<or> sint v = i64_max" if "r \<in> set (tb_rows t)" "r ! ai = VInt v" for r v
    using that assms(1) Some a n by (fastforce simp: auto_ahead_def)
  ultimately show ?thesis unfolding auto_ahead_def t' by auto
qed

subsection \<open>Rebuilding\<close>

lemma push_all:
  assumes "table_wf t" "\<forall>row \<in> set rows. length row = length (tb_columns t)"
  shows "\<exists>t'. foldR push_trusted t rows = Ok t' \<and> table_wf t' \<and> tb_schema t' = tb_schema t
    \<and> tb_rows t' = tb_rows t @ rows \<and> tb_pk_index t' = tb_pk_index t
    \<and> (auto_ahead t \<longrightarrow> auto_ahead t')"
  using assms
proof (induction rows arbitrary: t)
  case (Cons row rows)
  obtain t1 where 1: "push_trusted t row = Ok t1" "table_wf t1" "tb_schema t1 = tb_schema t"
    "tb_rows t1 = tb_rows t @ [row]" "tb_pk_index t1 = tb_pk_index t"
    using push_trusted_wf [OF Cons.prems(1), of row] Cons.prems(2) by auto
  moreover have "auto_ahead t \<longrightarrow> auto_ahead t1"
    using push_trusted_auto [OF _ 1(1)] by blast
  ultimately show ?case using Cons.IH [of t1] Cons.prems(2) by auto
qed simp

text \<open>A rebuilt table: the given columns and key, the given rows, index and counter from them.\<close>

definition rebuilt_as :: "tbl \<Rightarrow> column_schema list \<Rightarrow> string option \<Rightarrow> row list \<Rightarrow> bool" where
  "rebuilt_as t cols pk rows \<longleftrightarrow>
     table_wf t \<and> auto_ahead t \<and> tb_columns t = cols \<and> tb_pk t = pk \<and> tb_rows t = rows
     \<and> foldR push_trusted (new_table cols pk) rows = Ok t"

lemma rebuild:
  assumes "pk \<noteq> None \<longrightarrow> pk_position pk cols \<noteq> None" "\<forall>row \<in> set rows. length row = length cols"
  obtains t where "foldR push_trusted (new_table cols pk) rows = Ok t" "rebuilt_as t cols pk rows"
proof -
  obtain t where t: "foldR push_trusted (new_table cols pk) rows = Ok t" "table_wf t"
    "tb_schema t = tb_schema (new_table cols pk)" "tb_rows t = rows" "auto_ahead t"
    using push_all [OF new_table_wf [OF assms(1)], of rows] assms(2) by auto
  then have "rebuilt_as t cols pk rows" by (simp add: rebuilt_as_def)
  with t(1) show thesis by (rule that)
qed

lemma rebuilt_asI:
  assumes "foldR push_trusted (new_table cols pk) rows = Ok t"
    and "pk \<noteq> None \<longrightarrow> pk_position pk cols \<noteq> None" "\<forall>row \<in> set rows. length row = length cols"
  shows "rebuilt_as t cols pk rows"
  by (rule rebuild [OF assms(2,3)]) (use assms(1) in simp)

lemma foldR_map_push:
  "foldR (\<lambda>t r. bindR (g r) (h t)) s rows = Ok t' \<longleftrightarrow>
     (\<exists>rows'. mapR g rows = Ok rows' \<and> foldR h s rows' = Ok t')"
proof (induction rows arbitrary: s)
  case (Cons r rows)
  then show ?case by (cases "g r") (auto simp: bindR_Ok_iff)
qed simp

lemma rebuild_map:
  assumes "foldR (\<lambda>t r. bindR (g r) (push_trusted t)) (new_table cols pk) rows = Ok t'"
    and "pk \<noteq> None \<longrightarrow> pk_position pk cols \<noteq> None"
    and "\<And>r r'. r \<in> set rows \<Longrightarrow> g r = Ok r' \<Longrightarrow> length r' = length cols"
  obtains rows' where "mapR g rows = Ok rows'" "rebuilt_as t' cols pk rows'"
proof -
  obtain rows' where r: "mapR g rows = Ok rows'" "foldR push_trusted (new_table cols pk) rows' = Ok t'"
    using assms(1) by (auto simp: foldR_map_push)
  have "\<forall>row \<in> set rows'. length row = length cols"
    using assms(3) r(1) by (fastforce simp: mapR_Ok_list_all2 list_all2_conv_all_nth in_set_conv_nth)
  with rebuilt_asI [OF r(2) assms(2)] r(1) show thesis by (intro that)
qed

subsection \<open>Each change\<close>

lemma pk_position_Some: "pk_position (Some k) cols = position (\<lambda>c. cs_name c = k) cols"
  by (simp add: pk_position_def)

lemma pk_position_None [simp]: "pk_position None cols = None"
  by (simp add: pk_position_def)

lemma table_wf_pk: "table_wf t \<Longrightarrow> tb_pk t \<noteq> None \<Longrightarrow> pk_position (tb_pk t) (tb_columns t) \<noteq> None"
  by (simp add: table_wf_def)

lemma table_wf_rows: "table_wf t \<Longrightarrow> row \<in> set (tb_rows t) \<Longrightarrow> length row = length (tb_columns t)"
  by (simp add: table_wf_def)

lemma table_wf_pk_index: "table_wf t \<Longrightarrow> tb_pk_index t = pk_position (tb_pk t) (tb_columns t)"
  by (simp add: table_wf_def)

lemma keys_unique_wf:
  "table_wf t \<Longrightarrow> keys_unique t \<longleftrightarrow>
     (\<forall>i. pk_position (tb_pk t) (tb_columns t) = Some i \<longrightarrow> distinct (map (\<lambda>r. r ! i) (tb_rows t)))"
  using table_wf_pk_index [of t] by (auto simp: keys_unique_def split: option.split)

lemma keys_unique_rebuilt:
  "rebuilt_as t cols pk rows \<Longrightarrow> keys_unique t \<longleftrightarrow>
     (\<forall>i. pk_position pk cols = Some i \<longrightarrow> distinct (map (\<lambda>r. r ! i) rows))"
  using keys_unique_wf [of t] by (auto simp: rebuilt_as_def)

lemma pk_position_append:
  "pk_position pk cols = Some i \<Longrightarrow> pk_position pk (cols @ rest) = Some i"
  by (auto simp: pk_position_def bind_eq_Some_conv position_append)

lemma alter_add_column_Ok:
  assumes wf: "table_wf t" and ok: "alter_add_column t col is_pk = Ok t'"
  shows "rebuilt_as t' (tb_columns t @ [col]) (if is_pk then Some (cs_name col) else tb_pk t)
           (map (\<lambda>r. r @ [VNull]) (tb_rows t))"
    and "keys_unique t \<Longrightarrow> keys_unique t'"
proof -
  let ?pk = "if is_pk then Some (cs_name col) else tb_pk t" and ?cols = "tb_columns t @ [col]"
  from ok have f: "foldR push_trusted (new_table ?cols ?pk) (map (\<lambda>r. r @ [VNull]) (tb_rows t)) = Ok t'"
    and e: "is_pk \<Longrightarrow> tb_rows t = []"
    by (auto simp: alter_add_column_def Let_def foldR_map [of push_trusted "\<lambda>r. r @ [VNull]"]
        split: if_splits)
  have "?pk \<noteq> None \<longrightarrow> pk_position ?pk ?cols \<noteq> None"
    using table_wf_pk [OF wf]
    by (auto simp: pk_position_Some position_append pk_position_append split: option.split)
  moreover have "\<forall>r \<in> set (map (\<lambda>r. r @ [VNull]) (tb_rows t)). length r = length ?cols"
    using table_wf_rows [OF wf] by auto
  ultimately show r: "rebuilt_as t' ?cols ?pk (map (\<lambda>r. r @ [VNull]) (tb_rows t))"
    by (rule rebuilt_asI [OF f])
  show "keys_unique t'" if u: "keys_unique t"
  proof (cases "is_pk \<or> tb_pk t = None")
    case True
    then show ?thesis using e unfolding keys_unique_rebuilt [OF r] by auto
  next
    case False
    then obtain i where i: "pk_position (tb_pk t) (tb_columns t) = Some i" using table_wf_pk [OF wf] by blast
    then have "map (\<lambda>r. (r @ [VNull]) ! i) (tb_rows t) = map (\<lambda>r. r ! i) (tb_rows t)"
      using table_wf_rows [OF wf] pk_position_less [OF i] by (simp add: nth_append)
    moreover have "distinct (map (\<lambda>r. r ! i) (tb_rows t))"
      using u i unfolding keys_unique_wf [OF wf] by blast
    ultimately have "distinct (map (\<lambda>r. (r @ [VNull]) ! i) (tb_rows t))" by (simp only:)
    with i False show ?thesis
      unfolding keys_unique_rebuilt [OF r] by (simp add: pk_position_append comp_def)
  qed
qed

abbreviation removed :: "nat \<Rightarrow> 'a list \<Rightarrow> 'a list" where
  "removed i xs \<equiv> take i xs @ drop (Suc i) xs"

lemma mapR_vec_remove:
  "\<forall>r \<in> set rows. i < length r \<Longrightarrow> mapR (\<lambda>r. vec_remove r i) rows = Ok (map (removed i) rows)"
  by (rule mapR_total) (simp add: vec_remove_def)

lemma alter_drop_column_Ok:
  assumes wf: "table_wf t" and ok: "alter_drop_column t name = Ok t'"
  obtains j where "position (\<lambda>c. cs_name c = name) (tb_columns t) = Some j"
    and "rebuilt_as t' (removed j (tb_columns t)) (if tb_pk t = Some name then None else tb_pk t)
           (map (removed j) (tb_rows t))"
    and "keys_unique t \<longrightarrow> keys_unique t'"
proof -
  let ?pk = "if tb_pk t = Some name then None else tb_pk t"
  obtain j where j: "position (\<lambda>c. cs_name c = name) (tb_columns t) = Some j"
    and f: "foldR (\<lambda>t r. bindR (vec_remove r j) (push_trusted t))
              (new_table (removed j (tb_columns t)) ?pk) (tb_rows t) = Ok t'"
    using ok by (auto simp: alter_drop_column_def Let_def result_simps vec_remove_def
        split: if_splits option.splits)
  note jl = position_SomeD [OF j]
  have pos: "i \<noteq> j \<and> pk_position ?pk (removed j (tb_columns t)) = Some (if i < j then i else i - 1)"
    if "?pk \<noteq> None" "pk_position (tb_pk t) (tb_columns t) = Some i" for i
    using that jl position_remove [of "\<lambda>c. cs_name c = the (tb_pk t)" "tb_columns t" i j]
    by (auto simp: pk_position_def split: if_splits option.splits)
  have pkc: "?pk \<noteq> None \<longrightarrow> pk_position ?pk (removed j (tb_columns t)) \<noteq> None"
  proof
    assume pk: "?pk \<noteq> None"
    then have "tb_pk t \<noteq> None" by (simp split: if_splits)
    then obtain i where "pk_position (tb_pk t) (tb_columns t) = Some i"
      using table_wf_pk [OF wf] by blast
    with pos [OF pk] show "pk_position ?pk (removed j (tb_columns t)) \<noteq> None" by (metis option.distinct(1))
  qed
  have len: "length r' = length (removed j (tb_columns t))"
    if "r \<in> set (tb_rows t)" "vec_remove r j = Ok r'" for r r'
    using that table_wf_rows [OF wf that(1)] by (auto simp: vec_remove_def split: if_splits)
  obtain rows' where "mapR (\<lambda>r. vec_remove r j) (tb_rows t) = Ok rows'"
    and "rebuilt_as t' (removed j (tb_columns t)) ?pk rows'"
    by (rule rebuild_map [OF f pkc len])
  moreover have "mapR (\<lambda>r. vec_remove r j) (tb_rows t) = Ok (map (removed j) (tb_rows t))"
    using table_wf_rows [OF wf] jl by (intro mapR_vec_remove) auto
  ultimately have r: "rebuilt_as t' (removed j (tb_columns t)) ?pk (map (removed j) (tb_rows t))" by simp
  have "keys_unique t'" if u: "keys_unique t"
  proof (cases "?pk = None")
    case True
    then show ?thesis unfolding keys_unique_rebuilt [OF r] by simp
  next
    case False
    then obtain i where i: "pk_position (tb_pk t) (tb_columns t) = Some i"
      using table_wf_pk [OF wf] by (auto split: if_splits)
    let ?k = "if i < j then i else i - 1"
    have "removed j r ! ?k = r ! i" if "r \<in> set (tb_rows t)" for r
      using pos [OF False i] pk_position_less [OF i] jl table_wf_rows [OF wf that]
      by (auto simp: nth_append min_def)
    then have "map (\<lambda>r. removed j r ! ?k) (tb_rows t) = map (\<lambda>r. r ! i) (tb_rows t)" by simp
    moreover have "distinct (map (\<lambda>r. r ! i) (tb_rows t))"
      using u i unfolding keys_unique_wf [OF wf] by blast
    ultimately have "distinct (map (\<lambda>r. removed j r ! ?k) (tb_rows t))" by (simp only:)
    with pos [OF False i] show ?thesis
      unfolding keys_unique_rebuilt [OF r] map_map comp_def by (metis option.inject)
  qed
  with j r show thesis using that by blast
qed

lemma modify_row_Ok_iff:
  "modify_row j c row = Ok row' \<longleftrightarrow>
     j < length row \<and> (\<exists>v. retype_value (row ! j) (cs_type c) (cs_name c) = Ok v
       \<and> (cs_nullable c \<or> v \<noteq> VNull) \<and> row' = row[j := v])"
  by (auto simp: modify_row_def result_simps split: if_splits)

lemma alter_modify_column_Ok:
  assumes wf: "table_wf t" and ok: "alter_modify_column t c = Ok t'"
  obtains j rows' where "position (\<lambda>d. cs_name d = cs_name c) (tb_columns t) = Some j"
    and "mapR (modify_row j c) (tb_rows t) = Ok rows'"
    and "rebuilt_as t' ((tb_columns t)[j := c]) (tb_pk t) rows'"
    and "pk_position (tb_pk t) ((tb_columns t)[j := c]) = pk_position (tb_pk t) (tb_columns t)"
proof -
  obtain j where j: "position (\<lambda>d. cs_name d = cs_name c) (tb_columns t) = Some j"
    and f: "foldR (\<lambda>t r. bindR (modify_row j c r) (push_trusted t))
              (new_table ((tb_columns t)[j := c]) (tb_pk t)) (tb_rows t) = Ok t'"
    using ok by (auto simp: alter_modify_column_def Let_def result_simps split: if_splits)
  have "cs_name (tb_columns t ! j) = cs_name c" using position_SomeD [OF j] by simp
  then have pos: "pk_position (tb_pk t) ((tb_columns t)[j := c]) = pk_position (tb_pk t) (tb_columns t)"
    by (simp add: pk_position_def position_update)
  have pkc: "tb_pk t \<noteq> None \<longrightarrow> pk_position (tb_pk t) ((tb_columns t)[j := c]) \<noteq> None"
    using table_wf_pk [OF wf] pos by simp
  have len: "length r' = length ((tb_columns t)[j := c])"
    if "r \<in> set (tb_rows t)" "modify_row j c r = Ok r'" for r r'
    using that table_wf_rows [OF wf that(1)] by (auto simp: modify_row_Ok_iff)
  obtain rows' where "mapR (modify_row j c) (tb_rows t) = Ok rows'"
    "rebuilt_as t' ((tb_columns t)[j := c]) (tb_pk t) rows'"
    by (rule rebuild_map [OF f pkc len])
  with j pos show thesis using that by blast
qed

lemma modify_keeps_keys:
  assumes wf: "table_wf t" and ok: "alter_modify_column t c = Ok t'" and u: "keys_unique t"
    and k: "tb_pk t = Some (cs_name c) \<Longrightarrow>
      (\<And>i r. pk_position (tb_pk t) (tb_columns t) = Some i \<Longrightarrow> r \<in> set (tb_rows t) \<Longrightarrow>
        retype_value (r ! i) (cs_type c) (cs_name c) = Ok (r ! i))"
  shows "keys_unique t'"
proof (rule alter_modify_column_Ok [OF wf ok])
  fix j rows'
  assume j: "position (\<lambda>d. cs_name d = cs_name c) (tb_columns t) = Some j"
    and m: "mapR (modify_row j c) (tb_rows t) = Ok rows'"
    and r: "rebuilt_as t' ((tb_columns t)[j := c]) (tb_pk t) rows'"
    and pos: "pk_position (tb_pk t) ((tb_columns t)[j := c]) = pk_position (tb_pk t) (tb_columns t)"
  have "distinct (map (\<lambda>r. r ! i) rows')" if i: "pk_position (tb_pk t) (tb_columns t) = Some i" for i
  proof -
    have d: "distinct (map (\<lambda>r. r ! i) (tb_rows t))" using u i unfolding keys_unique_wf [OF wf] by blast
    have "x' ! i = x ! i" if "x \<in> set (tb_rows t)" "modify_row j c x = Ok x'" for x x'
    proof (cases "i = j")
      case False
      with that show ?thesis by (auto simp: modify_row_Ok_iff)
    next
      case True
      have "tb_pk t = Some (cs_name c)"
        using i True position_SomeD [OF j] by (auto simp: pk_position_def bind_eq_Some_conv dest: position_SomeD)
      with k [OF this i that(1)] True that(2) show ?thesis by (auto simp: modify_row_Ok_iff)
    qed
    then have "map (\<lambda>r. r ! i) rows' = map (\<lambda>r. r ! i) (tb_rows t)"
      using m by (auto simp: mapR_Ok_list_all2 list_all2_conv_all_nth intro!: nth_equalityI)
    with d show ?thesis by simp
  qed
  then show ?thesis unfolding keys_unique_rebuilt [OF r] pos by blast
qed

lemma foldR_seen:
  assumes "foldR (\<lambda>(rebuilt, seen) row. bindR (index_at row j) (\<lambda>k.
             if k = VNull then Inl e1 else if k \<in> seen then Inl (e2 k)
             else map_result (\<lambda>r. (r, insert k seen)) (push_trusted rebuilt row))) (t0, S) rows = Ok (t', S')"
  shows "foldR push_trusted t0 rows = Ok t' \<and> distinct (map (\<lambda>r. r ! j) rows)
    \<and> set (map (\<lambda>r. r ! j) rows) \<inter> S = {} \<and> VNull \<notin> set (map (\<lambda>r. r ! j) rows)"
  using assms
proof (induction rows arbitrary: t0 S)
  case (Cons r rows)
  from Cons.prems obtain t1 where 1: "r ! j \<noteq> VNull" "r ! j \<notin> S" "push_trusted t0 r = Ok t1"
    and f: "foldR (\<lambda>(rebuilt, seen) row. bindR (index_at row j) (\<lambda>k.
             if k = VNull then Inl e1 else if k \<in> seen then Inl (e2 k)
             else map_result (\<lambda>r. (r, insert k seen)) (push_trusted rebuilt row)))
             (t1, insert (r ! j) S) rows = Ok (t', S')"
    by (auto simp: result_simps split: if_splits)
  from Cons.IH [OF f] 1 show ?case by auto
qed simp

lemma alter_add_primary_key_Ok:
  assumes wf: "table_wf t" and ok: "alter_add_primary_key t name = Ok t'"
  obtains j where "position (\<lambda>c. cs_name c = name) (tb_columns t) = Some j"
    and "rebuilt_as t' ((tb_columns t)[j := (tb_columns t ! j)\<lparr>cs_nullable := False\<rparr>]) (Some name) (tb_rows t)"
    and "keys_unique t'" and "\<forall>r \<in> set (tb_rows t). r ! j \<noteq> VNull"
proof -
  obtain j where j: "position (\<lambda>c. cs_name c = name) (tb_columns t) = Some j"
    and ok': "alter_add_primary_key t name = Ok t'"
    using ok by (auto simp: alter_add_primary_key_def Let_def result_simps split: if_splits)
  let ?cols = "(tb_columns t)[j := (tb_columns t ! j)\<lparr>cs_nullable := False\<rparr>]"
  obtain S where "foldR (\<lambda>(rebuilt, seen) row. bindR (index_at row j) (\<lambda>k.
             if k = VNull then Inl (err_null_primary_key name) else if k \<in> seen then Inl (err_duplicate_entry k)
             else map_result (\<lambda>r. (r, insert k seen)) (push_trusted rebuilt row)))
             (new_table ?cols (Some name), {}) (tb_rows t) = Ok (t', S)"
    using ok' j by (auto simp: alter_add_primary_key_def Let_def result_simps split: if_splits)
  from foldR_seen [OF this]
  have f: "foldR push_trusted (new_table ?cols (Some name)) (tb_rows t) = Ok t'"
    and d: "distinct (map (\<lambda>r. r ! j) (tb_rows t))"
    and "VNull \<notin> (\<lambda>r. r ! j) ` set (tb_rows t)" by simp_all
  then have n: "\<forall>r \<in> set (tb_rows t). r ! j \<noteq> VNull" by (metis imageI)
  have p: "pk_position (Some name) ?cols = Some j"
    using j by (simp add: pk_position_Some position_update)
  have r: "rebuilt_as t' ?cols (Some name) (tb_rows t)"
    using table_wf_rows [OF wf] p by (intro rebuilt_asI [OF f]) auto
  have "keys_unique t'" unfolding keys_unique_rebuilt [OF r] p using d by simp
  with j r n show thesis using that by blast
qed

lemma alter_drop_primary_key_Ok:
  assumes wf: "table_wf t" and ok: "alter_drop_primary_key t = Ok t'"
  shows "rebuilt_as t' (map (\<lambda>c. if Some (cs_name c) = tb_pk t then c\<lparr>cs_auto_increment := False\<rparr> else c)
           (tb_columns t)) None (tb_rows t)"
  using assms table_wf_rows [OF wf]
  by (auto simp: alter_drop_primary_key_def Let_def intro!: rebuilt_asI split: if_splits)

subsection \<open>Types of the rows\<close>

definition row_typed :: "column_schema list \<Rightarrow> row \<Rightarrow> bool" where
  "row_typed cols row \<longleftrightarrow> list_all2 has_type row (map cs_type cols)"

definition table_typed :: "tbl \<Rightarrow> bool" where
  "table_typed t \<longleftrightarrow> (\<forall>row \<in> set (tb_rows t). row_typed (tb_columns t) row)"

lemma rescale_same: "rescale_decimal u s s c = Ok u"
  by (simp add: rescale_widen) (simp add: in_i64_def)

lemma retype_same: "has_type v ct \<Longrightarrow> retype_value v ct c = Ok v"
  by (cases v; cases ct) (simp_all add: rescale_same)

lemma retype_has_type: "retype_value v ct c = Ok v' \<Longrightarrow> has_type v' ct"
  by (cases v; cases ct) (auto simp: result_simps)

lemma row_typed_nth:
  "row_typed cols row \<longleftrightarrow> length row = length cols \<and> (\<forall>i < length cols. has_type (row ! i) (cs_type (cols ! i)))"
  by (auto simp: row_typed_def list_all2_conv_all_nth)

lemma row_typed_removed: "row_typed cols row \<Longrightarrow> row_typed (removed j cols) (removed j row)"
  unfolding row_typed_def map_append take_map [symmetric] drop_map [symmetric]
  by (intro list_all2_appendI list_all2_takeI list_all2_dropI)

lemma row_typed_modify:
  "row_typed cols row \<Longrightarrow> modify_row j c row = Ok row' \<Longrightarrow> row_typed (cols[j := c]) row'"
  by (auto simp: row_typed_nth modify_row_Ok_iff nth_list_update dest: retype_has_type)

lemma row_typed_cong:
  "map cs_type cols = map cs_type cols' \<Longrightarrow> row_typed cols row = row_typed cols' row"
  by (simp add: row_typed_def)

lemma table_typed_rebuilt:
  "rebuilt_as t cols pk rows \<Longrightarrow> table_typed t \<longleftrightarrow> (\<forall>row \<in> set rows. row_typed cols row)"
  by (simp add: rebuilt_as_def table_typed_def)

lemma rebuilt_wf: "rebuilt_as t cols pk rows \<Longrightarrow> table_wf t" "rebuilt_as t cols pk rows \<Longrightarrow> auto_ahead t"
  "rebuilt_as t cols pk rows \<Longrightarrow> tb_rows t = rows"
  by (simp_all add: rebuilt_as_def)

lemma types_not_null: "map cs_type (cols[j := (cols ! j)\<lparr>cs_nullable := b\<rparr>]) = map cs_type cols"
proof (rule nth_equalityI)
  fix i
  assume "i < length (map cs_type (cols[j := (cols ! j)\<lparr>cs_nullable := b\<rparr>]))"
  then show "map cs_type (cols[j := (cols ! j)\<lparr>cs_nullable := b\<rparr>]) ! i = map cs_type cols ! i"
    by (cases "i = j") simp_all
qed simp

lemma mapR_memD: "mapR f xs = Ok ys \<Longrightarrow> y \<in> set ys \<Longrightarrow> \<exists>x \<in> set xs. f x = Ok y"
  by (induction xs arbitrary: ys) (auto simp: result_simps)

text \<open>Changing the type of the primary-key column is the one change that can merge keys.\<close>

definition retypes_key :: "tbl \<Rightarrow> schema_change \<Rightarrow> bool" where
  "retypes_key t ch \<longleftrightarrow>
     (case (ch, tb_pk_index t) of
        (ModifyColumn c, Some i) \<Rightarrow> tb_pk t = Some (cs_name c) \<and> cs_type (tb_columns t ! i) \<noteq> cs_type c
      | _ \<Rightarrow> False)"

lemma altered_facts:
  assumes wf: "table_wf t" and ok: "compute_altered_table t ch = Ok t'"
  shows "table_wf t' \<and> auto_ahead t' \<and> length (tb_rows t') = length (tb_rows t)
    \<and> (table_typed t \<longrightarrow> table_typed t')"
proof (cases ch)
  case (AddColumn col is_pk)
  with ok have "alter_add_column t col is_pk = Ok t'" by simp
  note r = alter_add_column_Ok(1) [OF wf this]
  have "table_typed t \<longrightarrow> table_typed t'"
    unfolding table_typed_rebuilt [OF r] by (auto simp: table_typed_def row_typed_def intro!: list_all2_appendI)
  with rebuilt_wf [OF r] show ?thesis by simp
next
  case (DropColumn name)
  with ok have "alter_drop_column t name = Ok t'" by simp
  then obtain j where r: "rebuilt_as t' (removed j (tb_columns t))
      (if tb_pk t = Some name then None else tb_pk t) (map (removed j) (tb_rows t))"
    by (rule alter_drop_column_Ok [OF wf])
  have "table_typed t \<longrightarrow> table_typed t'"
    unfolding table_typed_rebuilt [OF r] by (auto simp: table_typed_def intro: row_typed_removed)
  with rebuilt_wf [OF r] show ?thesis by simp
next
  case (ModifyColumn c)
  with ok have "alter_modify_column t c = Ok t'" by simp
  then obtain j rows' where m: "mapR (modify_row j c) (tb_rows t) = Ok rows'"
    and r: "rebuilt_as t' ((tb_columns t)[j := c]) (tb_pk t) rows'"
    by (rule alter_modify_column_Ok [OF wf])
  have "table_typed t \<longrightarrow> table_typed t'"
    unfolding table_typed_rebuilt [OF r]
    by (auto simp: table_typed_def dest!: mapR_memD [OF m] intro: row_typed_modify)
  with rebuilt_wf [OF r] mapR_Ok_length [OF m] show ?thesis by simp
next
  case (AddPrimaryKey name)
  with ok have "alter_add_primary_key t name = Ok t'" by simp
  then obtain j where r: "rebuilt_as t' ((tb_columns t)[j := (tb_columns t ! j)\<lparr>cs_nullable := False\<rparr>]) (Some name) (tb_rows t)"
    by (rule alter_add_primary_key_Ok [OF wf])
  have "table_typed t \<longrightarrow> table_typed t'"
    unfolding table_typed_rebuilt [OF r] row_typed_cong [OF types_not_null] by (simp add: table_typed_def)
  with rebuilt_wf [OF r] show ?thesis by simp
next
  case DropPrimaryKey
  with ok have "alter_drop_primary_key t = Ok t'" by simp
  note r = alter_drop_primary_key_Ok [OF wf this]
  have e: "map cs_type (map (\<lambda>c. if Some (cs_name c) = tb_pk t then c\<lparr>cs_auto_increment := False\<rparr> else c)
      (tb_columns t)) = map cs_type (tb_columns t)" by simp
  have "table_typed t \<longrightarrow> table_typed t'"
    unfolding table_typed_rebuilt [OF r] row_typed_cong [OF e] by (simp add: table_typed_def)
  with rebuilt_wf [OF r] show ?thesis by simp
qed

lemma altered_unique:
  assumes wf: "table_wf t" and ty: "table_typed t" and u: "keys_unique t"
    and ok: "compute_altered_table t ch = Ok t'" and k: "\<not> retypes_key t ch"
  shows "keys_unique t'"
proof (cases ch)
  case (AddColumn col is_pk)
  with ok alter_add_column_Ok(2) [OF wf _ u] show ?thesis by simp
next
  case (DropColumn name)
  with ok have "alter_drop_column t name = Ok t'" by simp
  then show ?thesis by (rule alter_drop_column_Ok [OF wf]) (use u in blast)
next
  case (ModifyColumn c)
  with ok have m: "alter_modify_column t c = Ok t'" by simp
  have "retype_value (r ! i) (cs_type c) (cs_name c) = Ok (r ! i)"
    if pk: "tb_pk t = Some (cs_name c)" and i: "pk_position (tb_pk t) (tb_columns t) = Some i"
      and r: "r \<in> set (tb_rows t)" for i r
  proof (rule retype_same)
    have "cs_type (tb_columns t ! i) = cs_type c"
      using k pk i ModifyColumn table_wf_pk_index [OF wf] by (simp add: retypes_key_def)
    moreover have "has_type (r ! i) (cs_type (tb_columns t ! i))"
      using ty r pk_position_less [OF i] by (auto simp: table_typed_def row_typed_nth)
    ultimately show "has_type (r ! i) (cs_type c)" by simp
  qed
  with modify_keeps_keys [OF wf m u] show ?thesis by blast
next
  case (AddPrimaryKey name)
  with ok have "alter_add_primary_key t name = Ok t'" by simp
  then show ?thesis by (rule alter_add_primary_key_Ok [OF wf])
next
  case DropPrimaryKey
  with ok have "alter_drop_primary_key t = Ok t'" by simp
  note r = alter_drop_primary_key_Ok [OF wf this]
  show ?thesis unfolding keys_unique_rebuilt [OF r] by simp
qed

section \<open>Properties of tables\<close>


definition sample_columns :: "column_schema list" where
  "sample_columns =
     [\<lparr>cs_name = ''k'', cs_type = TDecimal 2, cs_nullable = False, cs_auto_increment = False\<rparr>,
      \<lparr>cs_name = ''v'', cs_type = TVarchar, cs_nullable = True, cs_auto_increment = False\<rparr>]"

definition sample_rows :: "row list" where
  "sample_rows = [[VDecimal 140 2, VNull], [VDecimal 130 2, VVarchar ''x'']]"

lemma sample_rebuilt:
  obtains t where "foldR push_trusted (new_table sample_columns (Some ''k'')) sample_rows = Ok t"
    "rebuilt_as t sample_columns (Some ''k'') sample_rows" "table_typed t" "keys_unique t"
proof -
  obtain t where t: "foldR push_trusted (new_table sample_columns (Some ''k'')) sample_rows = Ok t"
    "rebuilt_as t sample_columns (Some ''k'') sample_rows"
    by (rule rebuild [of "Some ''k''" sample_columns sample_rows])
      (simp_all add: pk_position_def sample_columns_def sample_rows_def)
  moreover have "table_typed t" unfolding table_typed_rebuilt [OF t(2)]
    by (simp add: sample_columns_def sample_rows_def row_typed_def)
  moreover have "keys_unique t" unfolding keys_unique_rebuilt [OF t(2)]
    by (simp add: sample_columns_def sample_rows_def pk_position_def)
  ultimately show thesis by (rule that)
qed



end
