(* ===== verification/Storage_Engine.thy ===== *)
theory Storage_Engine
  imports Storage_Log Storage_Table "HOL-Library.List_Lexorder" "HOL-Library.Char_ord"
begin

text \<open>
  The store (\<^verbatim>\<open>src/src/storage/engine.rs\<close>, lines 351 to 980): replay of log entries,
  \<^verbatim>\<open>InMemoryStorage\<close> with its operations, opening a store and the checkpoint that compacts its
  log.

  A mutating operation of the source checks under a read lock, releases it, appends to the log,
  and applies under the write lock.  Its three phases are three definitions here
  (\<open>_check\<close>, \<open>log_entry\<close>, \<open>_apply\<close>), composed as the source composes them; that the
  lock is not held in between is what \<^verbatim>\<open>Storage_Races\<close> looks at.  The outcome of the append is
  the argument \<open>io\<close>.  The iteration orders of the hash containers are arguments too.
\<close>

type_synonym tables = "string \<rightharpoonup> tbl"
type_synonym memory = "tables \<times> string set"

section \<open>Replaying an entry\<close>

definition push_named :: "tables \<Rightarrow> string \<times> row \<Rightarrow> tables result" where
  "push_named ts tr =
     (case ts (fst tr) of
        Some t \<Rightarrow> map_result (\<lambda>t'. ts(fst tr \<mapsto> t')) (push_trusted t (snd tr))
      | None \<Rightarrow> Ok ts)"

fun apply_entry :: "memory \<Rightarrow> entry \<Rightarrow> memory result" where
  "apply_entry (ts, dbs) (CreateTable table columns primary_key) =
     Ok (ts(table \<mapsto> new_table columns primary_key), dbs)"
| "apply_entry (ts, dbs) (InsertRow table row) =
     map_result (\<lambda>ts'. (ts', dbs)) (push_named ts (table, row))"
| "apply_entry (ts, dbs) (Transaction rows) = map_result (\<lambda>ts'. (ts', dbs)) (foldR push_named ts rows)"
| "apply_entry (ts, dbs) (CreateDatabase name) = Ok (ts, insert name dbs)"
| "apply_entry (ts, dbs) (DropDatabase name) = Ok (ts, dbs - {name})"
| "apply_entry (ts, dbs) (AlterTable table change) =
     (case ts table of
        None \<Rightarrow> Ok (ts, dbs)
      | Some t \<Rightarrow>
          (case compute_altered_table t change of
             Inr altered \<Rightarrow> Ok (ts(table \<mapsto> altered), dbs)
           | Inl (Err _) \<Rightarrow> Ok (ts, dbs)
           | Inl (Panic m) \<Rightarrow> Panics m))"

section \<open>The store\<close>

record engine =
  en_tables :: tables
  en_databases :: "string set"
  en_log :: "log option"

definition err_exists :: "string \<Rightarrow> exn" where
  "err_exists name = Err (Execution (''Table '' @ quoted name @ '' already exists''))"
definition err_no_table :: "string \<Rightarrow> exn" where
  "err_no_table name = Err (Execution (''Table '' @ quoted name @ '' doesn't exist''))"
definition err_pk_undefined :: "string \<Rightarrow> exn" where
  "err_pk_undefined pk = Err (Execution (''Primary key column '' @ quoted pk @ '' is not defined''))"
definition err_column_count :: "string \<Rightarrow> nat \<Rightarrow> nat \<Rightarrow> exn" where
  "err_column_count table want got = Err (Execution
     (''Column count doesn't match value count: table '' @ quoted table @ '' has '' @ show_nat want
      @ '' column(s), got '' @ show_nat got))"
definition err_no_auto :: "string \<Rightarrow> exn" where
  "err_no_auto table = Err (Execution (''Table '' @ quoted table @ '' has no AUTO_INCREMENT column''))"
definition err_db_exists :: "string \<Rightarrow> exn" where
  "err_db_exists name = Err (Execution (''Can't create database '' @ quoted name @ ''; database exists''))"
definition err_no_db :: "string \<Rightarrow> exn" where
  "err_no_db name = Err (Execution (''Can't drop database '' @ quoted name @ ''; database doesn't exist''))"

definition new_storage :: engine where
  "new_storage = \<lparr>en_tables = Map.empty, en_databases = {}, en_log = None\<rparr>"

text \<open>\<^verbatim>\<open>if let Some(writer) = &self.log_writer { writer.append_...().await?; }\<close>\<close>

definition log_entry :: "io_outcome \<Rightarrow> engine \<Rightarrow> entry \<Rightarrow> unit result \<times> engine" where
  "log_entry io en e =
     (case en_log en of
        None \<Rightarrow> (Ok (), en)
      | Some lg \<Rightarrow>
          (let (r, lg') = log_append io lg (encode_entry e) in (r, en\<lparr>en_log := Some lg'\<rparr>)))"

text \<open>Check, append, apply: the shape every mutating operation has.\<close>

definition logged_op ::
    "io_outcome \<Rightarrow> engine \<Rightarrow> unit result \<Rightarrow> entry \<Rightarrow> (engine \<Rightarrow> unit result \<times> engine)
     \<Rightarrow> unit result \<times> engine" where
  "logged_op io en chk e app =
     (case chk of
        Inl x \<Rightarrow> (Inl x, en)
      | Inr _ \<Rightarrow>
          (let (r, en1) = log_entry io en e in
           case r of Inl x \<Rightarrow> (Inl x, en1) | Inr _ \<Rightarrow> app en1))"

subsection \<open>CREATE TABLE and ALTER TABLE\<close>

definition create_table_check ::
    "engine \<Rightarrow> string \<Rightarrow> column_schema list \<Rightarrow> string option \<Rightarrow> unit result" where
  "create_table_check en name columns primary_key =
     bindR (case primary_key of
              Some pk \<Rightarrow> if list_ex (\<lambda>c. cs_name c = pk) columns then Ok ()
                         else Inl (err_pk_undefined pk)
            | None \<Rightarrow> Ok ()) (\<lambda>_.
     if en_tables en name \<noteq> None then Inl (err_exists name) else Ok ())"

definition create_table_apply ::
    "string \<Rightarrow> column_schema list \<Rightarrow> string option \<Rightarrow> engine \<Rightarrow> unit result \<times> engine" where
  "create_table_apply name columns primary_key en =
     (if en_tables en name \<noteq> None then (Inl (err_exists name), en)
      else (Ok (), en\<lparr>en_tables := (en_tables en)(name \<mapsto> new_table columns primary_key)\<rparr>))"

definition create_table ::
    "io_outcome \<Rightarrow> engine \<Rightarrow> string \<Rightarrow> column_schema list \<Rightarrow> string option \<Rightarrow> unit result \<times> engine" where
  "create_table io en name columns primary_key =
     logged_op io en (create_table_check en name columns primary_key)
       (CreateTable name columns primary_key) (create_table_apply name columns primary_key)"

definition alter_table_check :: "engine \<Rightarrow> string \<Rightarrow> schema_change \<Rightarrow> tbl result" where
  "alter_table_check en name change =
     bindR (ok_or (err_no_table name) (en_tables en name)) (\<lambda>t. compute_altered_table t change)"

definition alter_table_apply :: "string \<Rightarrow> schema_change \<Rightarrow> engine \<Rightarrow> unit result \<times> engine" where
  "alter_table_apply name change en =
     (case alter_table_check en name change of
        Inl x \<Rightarrow> (Inl x, en)
      | Inr altered \<Rightarrow> (Ok (), en\<lparr>en_tables := (en_tables en)(name \<mapsto> altered)\<rparr>))"

definition alter_table :: "io_outcome \<Rightarrow> engine \<Rightarrow> string \<Rightarrow> schema_change \<Rightarrow> unit result \<times> engine" where
  "alter_table io en name change =
     logged_op io en (map_result (\<lambda>_. ()) (alter_table_check en name change))
       (AlterTable name change) (alter_table_apply name change)"

subsection \<open>Reading\<close>

definition tables :: "(tables \<Rightarrow> string list) \<Rightarrow> engine \<Rightarrow> string list result" where
  "tables ord en = Ok (ord (en_tables en))"

definition get_table_schema :: "engine \<Rightarrow> string \<Rightarrow> table_schema result" where
  "get_table_schema en name = map_result tb_schema (ok_or (err_no_table name) (en_tables en name))"

definition scan :: "engine \<Rightarrow> string \<Rightarrow> row list result" where
  "scan en table = map_result tb_rows (ok_or (err_no_table table) (en_tables en table))"

definition scan_filtered :: "engine \<Rightarrow> string \<Rightarrow> (row \<Rightarrow> bool) \<Rightarrow> row list result" where
  "scan_filtered en table P =
     map_result (\<lambda>t. filter P (tb_rows t)) (ok_or (err_no_table table) (en_tables en table))"

definition lookup_by_primary_key :: "engine \<Rightarrow> string \<Rightarrow> value \<Rightarrow> row option result" where
  "lookup_by_primary_key en table key =
     bindR (ok_or (err_no_table table) (en_tables en table)) (\<lambda>t.
     case tb_index t key of
       None \<Rightarrow> Ok None
     | Some idx \<Rightarrow> map_result Some (index_at (tb_rows t) idx))"

subsection \<open>Inserting\<close>

definition row_check :: "tables \<Rightarrow> string \<Rightarrow> row \<Rightarrow> tbl result" where
  "row_check ts table row =
     bindR (ok_or (err_no_table table) (ts table)) (\<lambda>t.
     if length row \<noteq> length (tb_columns t)
     then Inl (err_column_count table (length (tb_columns t)) (length row))
     else map_result (\<lambda>_. t) (check_insertable t row))"

definition insert_row_check :: "engine \<Rightarrow> string \<Rightarrow> row \<Rightarrow> unit result" where
  "insert_row_check en table row = map_result (\<lambda>_. ()) (row_check (en_tables en) table row)"

definition insert_row_apply :: "string \<Rightarrow> row \<Rightarrow> engine \<Rightarrow> unit result \<times> engine" where
  "insert_row_apply table row en =
     (case en_tables en table of
        None \<Rightarrow> (Inl (err_no_table table), en)
      | Some t \<Rightarrow>
          (case push_trusted t row of
             Inl x \<Rightarrow> (Inl x, en)
           | Inr t' \<Rightarrow> (Ok (), en\<lparr>en_tables := (en_tables en)(table \<mapsto> t')\<rparr>)))"

definition insert_row :: "io_outcome \<Rightarrow> engine \<Rightarrow> string \<Rightarrow> row \<Rightarrow> unit result \<times> engine" where
  "insert_row io en table row =
     logged_op io en (insert_row_check en table row) (InsertRow table row) (insert_row_apply table row)"

text \<open>The validation of a batch: \<open>seen\<close> is \<^verbatim>\<open>seen_in_batch\<close>.\<close>

definition batch_step ::
    "tables \<Rightarrow> (string \<Rightarrow> value set) \<Rightarrow> string \<times> row \<Rightarrow> (string \<Rightarrow> value set) result" where
  "batch_step ts seen tr =
     (let (table, row) = tr in
      bindR (row_check ts table row) (\<lambda>t.
      bindR (primary_key_value t row) (\<lambda>key.
      case key of
        None \<Rightarrow> Ok seen
      | Some k \<Rightarrow> if k \<in> seen table then Inl (err_duplicate_entry k)
                  else Ok (seen(table := insert k (seen table))))))"

definition insert_rows_check :: "engine \<Rightarrow> (string \<times> row) list \<Rightarrow> unit result" where
  "insert_rows_check en rows =
     map_result (\<lambda>_. ()) (foldR (batch_step (en_tables en)) (\<lambda>_. {}) rows)"

definition insert_rows_apply :: "(string \<times> row) list \<Rightarrow> engine \<Rightarrow> unit result \<times> engine" where
  "insert_rows_apply rows en =
     (case foldR push_named (en_tables en) rows of
        Inl x \<Rightarrow> (Inl x, en)
      | Inr ts \<Rightarrow> (Ok (), en\<lparr>en_tables := ts\<rparr>))"

definition insert_rows :: "io_outcome \<Rightarrow> engine \<Rightarrow> (string \<times> row) list \<Rightarrow> unit result \<times> engine" where
  "insert_rows io en rows =
     (if rows = [] then (Ok (), en)
      else logged_op io en (insert_rows_check en rows) (Transaction rows) (insert_rows_apply rows))"

text \<open>\<^verbatim>\<open>*next += 1\<close> wraps in a release build.\<close>

definition next_auto_increment :: "engine \<Rightarrow> string \<Rightarrow> i64 result \<times> engine" where
  "next_auto_increment en table =
     (case en_tables en table of
        None \<Rightarrow> (Inl (err_no_table table), en)
      | Some t \<Rightarrow>
          (case tb_auto t of
             None \<Rightarrow> (Inl (err_no_auto table), en)
           | Some (idx, val) \<Rightarrow>
               (Ok val, en\<lparr>en_tables := (en_tables en)(table \<mapsto> t\<lparr>tb_auto := Some (idx, val + 1)\<rparr>)\<rparr>)))"

subsection \<open>Databases\<close>

definition db_present :: "string \<Rightarrow> bool \<Rightarrow> unit result" where
  "db_present name if_not_exists = (if if_not_exists then Ok () else Inl (err_db_exists name))"

definition create_database_apply :: "string \<Rightarrow> bool \<Rightarrow> engine \<Rightarrow> unit result \<times> engine" where
  "create_database_apply name if_not_exists en =
     (if name \<in> en_databases en then (db_present name if_not_exists, en)
      else (Ok (), en\<lparr>en_databases := insert name (en_databases en)\<rparr>))"

definition create_database :: "io_outcome \<Rightarrow> engine \<Rightarrow> string \<Rightarrow> bool \<Rightarrow> unit result \<times> engine" where
  "create_database io en name if_not_exists =
     (if name \<in> en_databases en then (db_present name if_not_exists, en)
      else logged_op io en (Ok ()) (CreateDatabase name) (create_database_apply name if_not_exists))"

definition drop_database_apply :: "string \<Rightarrow> bool \<Rightarrow> engine \<Rightarrow> unit result \<times> engine" where
  "drop_database_apply name if_exists en =
     (let en' = en\<lparr>en_databases := en_databases en - {name}\<rparr>
      in if name \<in> en_databases en \<or> if_exists then (Ok (), en') else (Inl (err_no_db name), en'))"

definition drop_database :: "io_outcome \<Rightarrow> engine \<Rightarrow> string \<Rightarrow> bool \<Rightarrow> unit result \<times> engine" where
  "drop_database io en name if_exists =
     logged_op io en
       (if name \<notin> en_databases en \<and> \<not> if_exists then Inl (err_no_db name) else Ok ())
       (DropDatabase name) (drop_database_apply name if_exists)"

definition databases :: "(string set \<Rightarrow> string list) \<Rightarrow> engine \<Rightarrow> string list result" where
  "databases dord en = Ok (dord (en_databases en))"

section \<open>Opening a store\<close>

text \<open>The records of the compact snapshot, in the iteration orders of the two containers.\<close>

definition snapshot_table :: "string \<Rightarrow> tbl \<Rightarrow> u8 list" where
  "snapshot_table name t =
     frame_record (encode_create_table name (tb_columns t) (tb_pk t))
     @ (if tb_rows t \<noteq> [] then frame_record (encode_transaction (map (\<lambda>row. (name, row)) (tb_rows t)))
        else [])"

definition snapshot_bytes ::
    "(tables \<Rightarrow> string list) \<Rightarrow> (string set \<Rightarrow> string list) \<Rightarrow> memory \<Rightarrow> u8 list" where
  "snapshot_bytes ord dord m =
     concat (map (\<lambda>name. snapshot_table name (the (fst m name))) (ord (fst m)))
     @ concat (map (\<lambda>name. frame_record (encode_create_database name)) (dord (snd m)))"

definition checkpoint_if_worthwhile ::
    "(tables \<Rightarrow> string list) \<Rightarrow> (string set \<Rightarrow> string list) \<Rightarrow> log \<Rightarrow> sync_policy \<Rightarrow> nat \<Rightarrow> memory \<Rightarrow> log" where
  "checkpoint_if_worthwhile ord dord lg policy threshold m =
     (if length (lg_file lg) < threshold then lg
      else let framed = snapshot_bytes ord dord m
           in opened_log policy framed)"

definition replay_step :: "memory result \<Rightarrow> entry \<Rightarrow> memory result" where
  "replay_step st e = bindR st (\<lambda>m. apply_entry m e)"

definition open_store ::
    "(tables \<Rightarrow> string list) \<Rightarrow> (string set \<Rightarrow> string list) \<Rightarrow> sync_policy \<Rightarrow> nat \<Rightarrow> u8 list option
     \<Rightarrow> engine result" where
  "open_store ord dord policy threshold file =
     bindR (log_open replay_step (Ok (Map.empty, {})) policy file) (\<lambda>(st, lg).
     bindR st (\<lambda>m.
     Ok \<lparr>en_tables = fst m, en_databases = snd m,
         en_log = Some (checkpoint_if_worthwhile ord dord lg policy threshold m)\<rparr>))"

section \<open>The durable part of the state\<close>

text \<open>
  The log does not record how far an \<^verbatim>\<open>AUTO_INCREMENT\<close> counter has run, only the rows.  The core
  of a table forgets the counter; everything a restart must bring back is in the core.
\<close>

definition core :: "tbl \<Rightarrow> tbl" where
  "core t = t\<lparr>tb_auto := map_option (\<lambda>a. (fst a, 0)) (tb_auto t)\<rparr>"

definition tables_core :: "tables \<Rightarrow> tables" where
  "tables_core ts = (\<lambda>n. map_option core (ts n))"

definition mem_core :: "memory \<Rightarrow> memory" where
  "mem_core m = (tables_core (fst m), snd m)"

lemma core_simps [simp]:
  "tb_schema (core t) = tb_schema t" "tb_rows (core t) = tb_rows t" "tb_index (core t) = tb_index t"
  "tb_pk_index (core t) = tb_pk_index t" "tb_auto (core t) = map_option (\<lambda>a. (fst a, 0)) (tb_auto t)"
  by (simp_all add: core_def)

lemma core_idem [simp]: "core (core t) = core t"
  by (simp add: core_def option.map_comp comp_def)

lemma core_auto [simp]: "core (t\<lparr>tb_auto := Some (i, n)\<rparr>) = core (t\<lparr>tb_auto := Some (i, m)\<rparr>)"
  by (simp add: core_def)

lemma tables_core_idem [simp]: "tables_core (tables_core ts) = tables_core ts"
  by (rule ext) (simp add: tables_core_def option.map_comp comp_def)

lemma tables_core_upd: "tables_core (ts(n \<mapsto> t)) = (tables_core ts)(n \<mapsto> core t)"
  by (rule ext) (simp add: tables_core_def)

lemma tables_core_None [simp]: "tables_core ts n = None \<longleftrightarrow> ts n = None"
  by (simp add: tables_core_def)

lemma core_eqD:
  assumes "core t = core u"
  shows "tb_schema t = tb_schema u" "tb_rows t = tb_rows u" "tb_index t = tb_index u"
    "tb_pk_index t = tb_pk_index u" "map_option fst (tb_auto t) = map_option fst (tb_auto u)"
proof -
  show "tb_schema t = tb_schema u" "tb_rows t = tb_rows u" "tb_index t = tb_index u"
    "tb_pk_index t = tb_pk_index u"
    using arg_cong [OF assms, of tb_schema] arg_cong [OF assms, of tb_rows]
      arg_cong [OF assms, of tb_index] arg_cong [OF assms, of tb_pk_index] by simp_all
  show "map_option fst (tb_auto t) = map_option fst (tb_auto u)"
    using arg_cong [OF assms, of "\<lambda>x. map_option fst (tb_auto x)"] by (simp add: option.map_comp comp_def)
qed

lemma core_eqI:
  assumes "tb_schema t = tb_schema u" "tb_rows t = tb_rows u" "tb_index t = tb_index u"
    "tb_pk_index t = tb_pk_index u" "map_option fst (tb_auto t) = map_option fst (tb_auto u)"
  shows "core t = core u"
proof -
  have "map_option (\<lambda>a. (fst a, 0 :: i64)) (tb_auto t) = map_option (\<lambda>i. (i, 0)) (map_option fst (tb_auto t))"
    "map_option (\<lambda>a. (fst a, 0 :: i64)) (tb_auto u) = map_option (\<lambda>i. (i, 0)) (map_option fst (tb_auto u))"
    by (simp_all add: option.map_comp comp_def)
  with assms show ?thesis by (intro tbl.equality) simp_all
qed

text \<open>Two results are alike when they fail alike or succeed with the same core.\<close>

lemma push_trusted_core:
  assumes "core t = core u"
  shows "map_result core (push_trusted t row) = map_result core (push_trusted u row)"
proof -
  note e = core_eqD [OF assms]
  have i: "push_index t row = push_index u row" by (simp add: push_index_def e split: option.split)
  have a: "map_result (map_option fst) (push_auto t row) = map_result (map_option fst) (push_auto u row)"
    using e(5) by (cases "tb_auto t"; cases "tb_auto u")
      (auto simp: push_auto_def map_result_def bindR_assoc index_at_def split: option.splits)
  show ?thesis
  proof (cases "push_index u row")
    case (Inr idx)
    show ?thesis
    proof (cases "push_auto t row")
      case (Inl x)
      with a have "push_auto u row = Inl x" by (cases "push_auto u row") auto
      with Inl Inr i show ?thesis by (simp add: push_trusted_def)
    next
      case (Inr au)
      with a obtain bu where b: "push_auto u row = Inr bu" "map_option fst au = map_option fst bu"
        by (cases "push_auto u row") auto
      have "core (t\<lparr>tb_index := idx, tb_auto := au, tb_rows := tb_rows t @ [row]\<rparr>) =
          core (u\<lparr>tb_index := idx, tb_auto := bu, tb_rows := tb_rows u @ [row]\<rparr>)"
        using e b(2) by (intro core_eqI) simp_all
      with Inr b i \<open>push_index u row = Inr idx\<close> show ?thesis by (simp add: push_trusted_def)
    qed
  qed (simp add: push_trusted_def i)
qed

lemma altered_core:
  assumes "core t = core u"
  shows "compute_altered_table t ch = compute_altered_table u ch"
proof -
  note e = core_eqD(1,2) [OF assms]
  have "alter_add_column t = alter_add_column u" "alter_drop_column t = alter_drop_column u"
    "alter_modify_column t = alter_modify_column u" "alter_drop_primary_key t = alter_drop_primary_key u"
    "alter_add_primary_key t = alter_add_primary_key u"
    unfolding alter_add_column_def alter_drop_column_def alter_modify_column_def
      alter_add_primary_key_def alter_drop_primary_key_def fun_eq_iff e by simp_all
  then show ?thesis by (cases ch) simp_all
qed

lemma tables_core_eqD: "tables_core ts = tables_core us \<Longrightarrow> map_option core (ts n) = map_option core (us n)"
  by (drule fun_cong [of _ _ n]) (simp add: tables_core_def)

lemma map_result_cong_Inr:
  "map_result f m = map_result f k \<Longrightarrow> m = Inr x \<Longrightarrow> \<exists>y. k = Inr y \<and> f x = f y"
  by (cases k) auto

lemma map_result_cong_Inl: "map_result f m = map_result f k \<Longrightarrow> m = Inl x \<Longrightarrow> k = Inl x"
  by (cases k) auto

lemma push_named_core:
  assumes "tables_core ts = tables_core us"
  shows "map_result tables_core (push_named ts tr) = map_result tables_core (push_named us tr)"
proof (cases "ts (fst tr)")
  case None
  then have "us (fst tr) = None" using tables_core_eqD [OF assms, of "fst tr"] by simp
  with None assms show ?thesis by (simp add: push_named_def)
next
  case (Some t)
  then obtain u where u: "us (fst tr) = Some u" "core t = core u"
    using tables_core_eqD [OF assms, of "fst tr"] by (cases "us (fst tr)") auto
  note p = push_trusted_core [OF u(2), of "snd tr"]
  show ?thesis
  proof (cases "push_trusted t (snd tr)")
    case (Inl x)
    with map_result_cong_Inl [OF p Inl] Some u show ?thesis by (simp add: push_named_def)
  next
    case (Inr t')
    then obtain u' where "push_trusted u (snd tr) = Inr u'" "core t' = core u'"
      using map_result_cong_Inr [OF p Inr] by blast
    with Inr Some u assms show ?thesis by (simp add: push_named_def tables_core_upd)
  qed
qed

lemma foldR_push_core:
  assumes "tables_core ts = tables_core us"
  shows "map_result tables_core (foldR push_named ts trs) = map_result tables_core (foldR push_named us trs)"
  using assms
proof (induction trs arbitrary: ts us)
  case (Cons tr trs)
  note p = push_named_core [OF Cons.prems, of tr]
  show ?case
  proof (cases "push_named ts tr")
    case (Inl x)
    with map_result_cong_Inl [OF p Inl] show ?thesis by simp
  next
    case (Inr ts')
    then obtain us' where "push_named us tr = Inr us'" "tables_core ts' = tables_core us'"
      using map_result_cong_Inr [OF p Inr] by blast
    with Inr Cons.IH [of ts' us'] show ?thesis by simp
  qed
qed simp

lemma apply_entry_core:
  assumes "mem_core m = mem_core k"
  shows "map_result mem_core (apply_entry m e) = map_result mem_core (apply_entry k e)"
proof -
  obtain ts dbs us where m: "m = (ts, dbs)" and k: "k = (us, dbs)" and c: "tables_core ts = tables_core us"
    using assms by (cases m; cases k) (auto simp: mem_core_def)
  have lift: "map_result mem_core (map_result (\<lambda>x. (x, dbs)) a) = map_result mem_core (map_result (\<lambda>x. (x, dbs)) b)"
    if "map_result tables_core a = map_result tables_core b" for a b
    using that by (cases a; cases b) (auto simp: mem_core_def)
  show ?thesis
  proof (cases e)
    case (InsertRow n row)
    with m k lift [OF push_named_core [OF c]] show ?thesis by simp
  next
    case (Transaction rows)
    with m k lift [OF foldR_push_core [OF c]] show ?thesis by simp
  next
    case (AlterTable n ch)
    show ?thesis
    proof (cases "ts n")
      case None
      then have "us n = None" using tables_core_eqD [OF c, of n] by simp
      with None m k c AlterTable show ?thesis by (simp add: mem_core_def)
    next
      case (Some t)
      then obtain u where u: "us n = Some u" "core t = core u"
        using tables_core_eqD [OF c, of n] by (cases "us n") auto
      with Some m k c AlterTable altered_core [OF u(2), of ch] show ?thesis
        by (auto simp: mem_core_def tables_core_upd split: sum.split exn.split)
    qed
  qed (use m k c in \<open>simp_all add: mem_core_def tables_core_upd\<close>)
qed

text \<open>The state a list of entries replays to.\<close>

definition replayed :: "entry list \<Rightarrow> memory result" where
  "replayed es = foldl replay_step (Ok (Map.empty, {})) es"

lemma replayed_simps [simp]:
  "replayed [] = Ok (Map.empty, {})" "replayed (es @ [e]) = bindR (replayed es) (\<lambda>m. apply_entry m e)"
  by (simp_all add: replayed_def replay_step_def)

definition memory_of :: "engine \<Rightarrow> memory" where
  "memory_of en = (en_tables en, en_databases en)"

section \<open>Operations\<close>

datatype op =
    CreateTableOp string "column_schema list" "string option"
  | AlterTableOp string schema_change
  | InsertRowOp string row
  | InsertRowsOp "(string \<times> row) list"
  | NextAutoOp string
  | CreateDatabaseOp string bool
  | DropDatabaseOp string bool

fun exec_op :: "io_outcome \<Rightarrow> engine \<Rightarrow> op \<Rightarrow> unit result \<times> engine" where
  "exec_op io en (CreateTableOp n cols pk) = create_table io en n cols pk"
| "exec_op io en (AlterTableOp n ch) = alter_table io en n ch"
| "exec_op io en (InsertRowOp n row) = insert_row io en n row"
| "exec_op io en (InsertRowsOp rows) = insert_rows io en rows"
| "exec_op io en (NextAutoOp n) =
     (let (r, en') = next_auto_increment en n in (map_result (\<lambda>_. ()) r, en'))"
| "exec_op io en (CreateDatabaseOp n b) = create_database io en n b"
| "exec_op io en (DropDatabaseOp n b) = drop_database io en n b"

text \<open>The record an operation appends when its check passes.\<close>

fun op_entry :: "op \<Rightarrow> entry option" where
  "op_entry (CreateTableOp n cols pk) = Some (CreateTable n cols pk)"
| "op_entry (AlterTableOp n ch) = Some (AlterTable n ch)"
| "op_entry (InsertRowOp n row) = Some (InsertRow n row)"
| "op_entry (InsertRowsOp rows) = Some (Transaction rows)"
| "op_entry (NextAutoOp n) = None"
| "op_entry (CreateDatabaseOp n b) = Some (CreateDatabase n)"
| "op_entry (DropDatabaseOp n b) = Some (DropDatabase n)"

definition tables_wf :: "tables \<Rightarrow> bool" where
  "tables_wf ts \<longleftrightarrow> (\<forall>n t. ts n = Some t \<longrightarrow> table_wf t)"

lemma tables_wf_upd: "tables_wf ts \<Longrightarrow> table_wf t \<Longrightarrow> tables_wf (ts(n \<mapsto> t))"
  by (simp add: tables_wf_def)

lemma tables_wfD: "tables_wf ts \<Longrightarrow> ts n = Some t \<Longrightarrow> table_wf t"
  by (simp add: tables_wf_def)

lemma table_wf_core: "table_wf (core t) \<longleftrightarrow> table_wf t"
  by (simp add: table_wf_def option.map_comp comp_def)

text \<open>Rows that fit their tables can be appended, and the tables stay as wide.\<close>

definition rows_fit :: "tables \<Rightarrow> (string \<times> row) list \<Rightarrow> bool" where
  "rows_fit ts rows \<longleftrightarrow>
     (\<forall>n row t. (n, row) \<in> set rows \<longrightarrow> ts n = Some t \<longrightarrow> length row = length (tb_columns t))"

lemma push_named_wf:
  assumes "tables_wf ts" "rows_fit ts [tr]"
  obtains ts' where "push_named ts tr = Ok ts'" "tables_wf ts'"
    "\<And>rows. rows_fit ts rows \<Longrightarrow> rows_fit ts' rows" "dom ts' = dom ts"
proof (cases "ts (fst tr)")
  case None
  then show thesis using assms by (intro that [of ts]) (simp_all add: push_named_def)
next
  case (Some t)
  have len: "length (snd tr) = length (tb_columns t)"
    using assms(2) Some by (cases tr) (simp add: rows_fit_def)
  obtain t' where t': "push_trusted t (snd tr) = Ok t'" "table_wf t'" "tb_schema t' = tb_schema t"
    by (rule push_trusted_wf [OF tables_wfD [OF assms(1) Some] len])
  show thesis
  proof (rule that)
    show "push_named ts tr = Ok (ts(fst tr \<mapsto> t'))" using Some t'(1) by (simp add: push_named_def)
    show "tables_wf (ts(fst tr \<mapsto> t'))" by (rule tables_wf_upd [OF assms(1) t'(2)])
    show "rows_fit (ts(fst tr \<mapsto> t')) rows" if "rows_fit ts rows" for rows
      using that Some t'(3) by (auto simp: rows_fit_def split: if_splits)
    show "dom (ts(fst tr \<mapsto> t')) = dom ts" using Some by auto
  qed
qed

lemma push_all_named:
  assumes "tables_wf ts" "rows_fit ts rows"
  shows "\<exists>ts'. foldR push_named ts rows = Ok ts' \<and> tables_wf ts' \<and> dom ts' = dom ts"
  using assms
proof (induction rows arbitrary: ts)
  case (Cons tr rows)
  have f: "rows_fit ts [tr]" "rows_fit ts rows" using Cons.prems(2) by (auto simp: rows_fit_def)
  obtain ts' where t: "push_named ts tr = Ok ts'" "tables_wf ts'" "dom ts' = dom ts" "rows_fit ts' rows"
    by (rule push_named_wf [OF Cons.prems(1) f(1)]) (use f(2) in blast)
  with Cons.IH [of ts'] show ?case by auto
qed simp

lemma row_check_Ok_iff:
  "row_check ts n row = Ok t \<longleftrightarrow>
     ts n = Some t \<and> length row = length (tb_columns t) \<and> check_insertable t row = Ok ()"
  by (auto simp: row_check_def result_simps split: if_splits)

lemma batch_fits: "foldR (batch_step ts) seen rows = Ok seen' \<Longrightarrow> rows_fit ts rows"
proof (induction rows arbitrary: seen)
  case (Cons tr rows)
  then obtain s1 where s: "batch_step ts seen tr = Ok s1" "foldR (batch_step ts) s1 rows = Ok seen'"
    by (auto simp: result_simps)
  have "rows_fit ts rows" by (rule Cons.IH [OF s(2)])
  with s(1) show ?case
    by (cases tr) (auto simp: rows_fit_def batch_step_def result_simps row_check_Ok_iff)
qed (simp add: rows_fit_def)

text \<open>
  What an operation's apply phase does to a store in the state its check saw: it succeeds and
  brings the memory to the state that replaying the entry gives.
\<close>

definition applies :: "engine \<Rightarrow> entry \<Rightarrow> (engine \<Rightarrow> unit result \<times> engine) \<Rightarrow> bool" where
  "applies en e app \<longleftrightarrow>
     (\<exists>m'. apply_entry (memory_of en) e = Ok m' \<and> tables_wf (fst m')
       \<and> (\<forall>en1. memory_of en1 = memory_of en \<longrightarrow>
            app en1 = (Ok (), en1\<lparr>en_tables := fst m', en_databases := snd m'\<rparr>)))"

lemma create_table_applies:
  assumes "tables_wf (en_tables en)" "create_table_check en n cols pk = Ok ()"
  shows "applies en (CreateTable n cols pk) (create_table_apply n cols pk)"
proof -
  have "pk \<noteq> None \<longrightarrow> pk_position pk cols \<noteq> None" and "en_tables en n = None"
    using assms(2) by (auto simp: create_table_check_def result_simps pk_position_def position_Ex
        list_ex_iff split: option.splits if_splits)
  with new_table_wf [of pk cols] assms(1) show ?thesis
    by (auto simp: applies_def memory_of_def create_table_apply_def intro: tables_wf_upd)
qed

lemma alter_table_applies:
  assumes "tables_wf (en_tables en)" "alter_table_check en n ch = Ok t'"
  shows "applies en (AlterTable n ch) (alter_table_apply n ch)"
proof -
  obtain t where t: "en_tables en n = Some t" "compute_altered_table t ch = Ok t'"
    using assms(2) by (auto simp: alter_table_check_def result_simps)
  have "table_wf t'" using altered_facts [OF tables_wfD [OF assms(1) t(1)] t(2)] by blast
  with t assms show ?thesis
    by (auto simp: applies_def memory_of_def alter_table_apply_def alter_table_check_def
        intro: tables_wf_upd)
qed

lemma insert_row_applies:
  assumes "tables_wf (en_tables en)" "insert_row_check en n row = Ok ()"
  shows "applies en (InsertRow n row) (insert_row_apply n row)"
proof -
  obtain t where t: "en_tables en n = Some t" "length row = length (tb_columns t)"
    using assms(2) by (auto simp: insert_row_check_def result_simps row_check_Ok_iff)
  obtain t' where "push_trusted t row = Ok t'" "table_wf t'"
    by (rule push_trusted_wf [OF tables_wfD [OF assms(1) t(1)] t(2)])
  with t assms(1) show ?thesis
    by (auto simp: applies_def memory_of_def insert_row_apply_def push_named_def intro: tables_wf_upd)
qed

lemma insert_rows_applies:
  assumes "tables_wf (en_tables en)" "insert_rows_check en rows = Ok ()"
  shows "applies en (Transaction rows) (insert_rows_apply rows)"
proof -
  have "rows_fit (en_tables en) rows"
    using assms(2) by (auto simp: insert_rows_check_def result_simps dest: batch_fits)
  then obtain ts' where "foldR push_named (en_tables en) rows = Ok ts'" "tables_wf ts'"
    using push_all_named [OF assms(1)] by blast
  then show ?thesis by (auto simp: applies_def memory_of_def insert_rows_apply_def)
qed

lemma create_database_applies:
  assumes "tables_wf (en_tables en)" "n \<notin> en_databases en"
  shows "applies en (CreateDatabase n) (create_database_apply n b)"
  using assms by (auto simp: applies_def memory_of_def create_database_apply_def)

lemma drop_database_applies:
  assumes "tables_wf (en_tables en)" "n \<in> en_databases en \<or> b"
  shows "applies en (DropDatabase n) (drop_database_apply n b)"
  using assms by (auto simp: applies_def memory_of_def drop_database_apply_def Let_def)

text \<open>How an operation runs: it stops at its check, or appends its entry and applies it.\<close>

definition runs_as :: "io_outcome \<Rightarrow> engine \<Rightarrow> entry \<Rightarrow> unit result \<times> engine \<Rightarrow> bool" where
  "runs_as io en e res \<longleftrightarrow>
     snd res = en
     \<or> (\<exists>r en1 m'. log_entry io en e = (r, en1) \<and> apply_entry (memory_of en) e = Ok m' \<and> tables_wf (fst m')
          \<and> res = (case r of Inl x \<Rightarrow> (Inl x, en1)
                     | Inr _ \<Rightarrow> (Ok (), en1\<lparr>en_tables := fst m', en_databases := snd m'\<rparr>)))"

lemma log_entry_memory: "log_entry io en e = (r, en1) \<Longrightarrow> memory_of en1 = memory_of en"
  by (auto simp: log_entry_def memory_of_def split: option.splits prod.splits)

lemma logged_op_runs:
  assumes "chk = Ok () \<Longrightarrow> applies en e app"
  shows "runs_as io en e (logged_op io en chk e app)"
proof (cases chk)
  case (Inl x)
  then show ?thesis by (simp add: runs_as_def logged_op_def)
next
  case (Inr u)
  then have c: "chk = Ok ()" by simp
  obtain r en1 where l: "log_entry io en e = (r, en1)" by fastforce
  obtain m' where m: "apply_entry (memory_of en) e = Ok m'" "tables_wf (fst m')"
    "app en1 = (Ok (), en1\<lparr>en_tables := fst m', en_databases := snd m'\<rparr>)"
    using assms [OF c] log_entry_memory [OF l] by (auto simp: applies_def)
  have "logged_op io en chk e app = (case r of Inl x \<Rightarrow> (Inl x, en1)
      | Inr _ \<Rightarrow> (Ok (), en1\<lparr>en_tables := fst m', en_databases := snd m'\<rparr>))"
    using l c m(3) by (simp add: logged_op_def split: sum.split)
  with l m(1,2) show ?thesis unfolding runs_as_def by blast
qed

lemma exec_op_runs:
  assumes wf: "tables_wf (en_tables en)" and e: "op_entry opn = Some e"
  shows "runs_as io en e (exec_op io en opn)"
proof (cases opn)
  case (CreateTableOp n cols pk)
  with e show ?thesis by (auto simp: create_table_def intro!: logged_op_runs create_table_applies wf)
next
  case (AlterTableOp n ch)
  with e show ?thesis
    by (auto simp: alter_table_def result_simps intro!: logged_op_runs intro: alter_table_applies [OF wf])
next
  case (InsertRowOp n row)
  with e show ?thesis by (auto simp: insert_row_def intro!: logged_op_runs insert_row_applies wf)
next
  case (InsertRowsOp rows)
  then have "runs_as io en e (logged_op io en (insert_rows_check en rows) e (insert_rows_apply rows))"
    using e by (auto intro!: logged_op_runs insert_rows_applies wf)
  with InsertRowsOp e show ?thesis by (auto simp: insert_rows_def runs_as_def)
next
  case (CreateDatabaseOp n b)
  then have "runs_as io en e (logged_op io en (Ok ()) e (create_database_apply n b))" if "n \<notin> en_databases en"
    using e that by (auto intro!: logged_op_runs create_database_applies wf)
  with CreateDatabaseOp e show ?thesis by (auto simp: create_database_def runs_as_def)
next
  case (DropDatabaseOp n b)
  with e show ?thesis
    by (auto simp: drop_database_def intro!: logged_op_runs drop_database_applies wf)
qed (use e in simp)

lemma next_auto_core: "next_auto_increment en n = (r, en') \<Longrightarrow>
    mem_core (memory_of en') = mem_core (memory_of en) \<and> en_log en' = en_log en
    \<and> (tables_wf (en_tables en) \<longrightarrow> tables_wf (en_tables en'))"
proof (cases "en_tables en n")
  case (Some t)
  assume a: "next_auto_increment en n = (r, en')"
  show ?thesis
  proof (cases "tb_auto t")
    case None
    with a Some show ?thesis by (auto simp: next_auto_increment_def)
  next
    case au: (Some x)
    obtain i v where x: "x = (i, v)" by (cases x)
    have "core (t\<lparr>tb_auto := Some (i, v + 1)\<rparr>) = core t"
      using au x by (intro core_eqI) simp_all
    then have "tables_core ((en_tables en)(n \<mapsto> t\<lparr>tb_auto := Some (i, v + 1)\<rparr>)) = tables_core (en_tables en)"
      using Some by (auto simp: tables_core_upd tables_core_def)
    moreover have "table_wf (t\<lparr>tb_auto := Some (i, v + 1)\<rparr>)" if "tables_wf (en_tables en)"
      using tables_wfD [OF that Some] au x unfolding table_wf_def by auto
    ultimately show ?thesis using a Some au x
      by (auto simp: next_auto_increment_def mem_core_def memory_of_def intro!: tables_wf_upd)
  qed
qed (auto simp: next_auto_increment_def)

section \<open>Memory and log agree\<close>

text \<open>
  The log holds whole records, and replaying them gives the memory's core.  \<open>durable\<close> adds that
  all of them are behind a completed sync, as under \<^verbatim>\<open>SyncPolicy::Always\<close>.
\<close>

definition logged :: "engine \<Rightarrow> entry list \<Rightarrow> bool" where
  "logged en es \<longleftrightarrow>
     (\<exists>lg m. en_log en = Some lg \<and> lg_file lg = frames es \<and> list_all loggable es
        \<and> replayed es = Ok m \<and> mem_core m = mem_core (memory_of en))"

definition durable :: "engine \<Rightarrow> bool" where
  "durable en \<longleftrightarrow>
     (\<exists>lg. en_log en = Some lg \<and> lg_policy lg = Always \<and> length (lg_file lg) \<le> lg_synced lg)"

definition op_loggable :: "op \<Rightarrow> bool" where
  "op_loggable opn \<longleftrightarrow> (case op_entry opn of None \<Rightarrow> True | Some e \<Rightarrow> loggable e)"

lemma logged_append:
  assumes l: "logged en es" and e: "loggable e" and a: "apply_entry (memory_of en) e = Ok m'"
    and en': "en_log en' = Some lg'" "lg_file lg' = frames es @ frame e"
      "en_tables en' = fst m'" "en_databases en' = snd m'"
  shows "logged en' (es @ [e])"
proof -
  obtain m where m: "list_all loggable es" "replayed es = Ok m" "mem_core m = mem_core (memory_of en)"
    using l by (auto simp: logged_def)
  obtain k where "apply_entry m e = Ok k" "mem_core k = mem_core m'"
    using map_result_cong_Inr [OF apply_entry_core [OF m(3) [symmetric], of e] a] by metis
  then show ?thesis using m(1,2) e en' by (auto simp: logged_def memory_of_def)
qed

lemma exec_op_logged:
  assumes wf: "tables_wf (en_tables en)" and l: "logged en es" and ok: "op_loggable opn"
    and x: "exec_op IoOk en opn = (r, en')"
  shows "tables_wf (en_tables en') \<and> (\<exists>fs. logged en' (es @ fs)) \<and> (durable en \<longrightarrow> durable en')"
proof (cases "op_entry opn")
  case None
  then obtain n where n: "opn = NextAutoOp n" by (cases opn) auto
  obtain r' where "next_auto_increment en n = (r', en')"
    using x n by (auto simp: Let_def split: prod.splits)
  note c = next_auto_core [OF this]
  then have "logged en' es" using l by (simp add: logged_def)
  with c wf show ?thesis by (metis append_Nil2 durable_def)
next
  case (Some e)
  have e: "loggable e" using ok Some by (simp add: op_loggable_def)
  from exec_op_runs [OF wf Some, of IoOk] x consider (same) "en' = en"
    | (log) r1 en1 m' where "log_entry IoOk en e = (r1, en1)" "apply_entry (memory_of en) e = Ok m'"
        "tables_wf (fst m')" "(r, en') = (case r1 of Inl x \<Rightarrow> (Inl x, en1)
           | Inr _ \<Rightarrow> (Ok (), en1\<lparr>en_tables := fst m', en_databases := snd m'\<rparr>))"
    by (auto simp: runs_as_def)
  then show ?thesis
  proof cases
    case same
    with l wf show ?thesis by (metis append_Nil2)
  next
    case log
    obtain lg where lg: "en_log en = Some lg" "lg_file lg = frames es" using l by (auto simp: logged_def)
    define lg' where "lg' = snd (log_append IoOk lg (encode_entry e))"
    have r1: "r1 = Ok ()" and en1: "en1 = en\<lparr>en_log := Some lg'\<rparr>"
      using log(1) lg by (auto simp: log_entry_def log_append_def write_framed_batch_def Let_def lg'_def
          split: if_splits)
    have lg': "lg_file lg' = frames es @ frame e" "lg_policy lg' = lg_policy lg"
      "lg_policy lg = Always \<Longrightarrow> lg_synced lg' = length (lg_file lg')"
      using lg by (simp_all add: lg'_def log_append_def write_framed_batch_def Let_def)
    have en': "en' = en1\<lparr>en_tables := fst m', en_databases := snd m'\<rparr>" using log(4) r1 by simp
    have "logged en' (es @ [e])"
      using logged_append [OF l e log(2), of en' lg'] lg'(1) en' en1 by simp
    moreover have "durable en \<longrightarrow> durable en'" using lg lg' en' en1 by (auto simp: durable_def)
    ultimately show ?thesis using log(3) en' by auto
  qed
qed

definition run_ops :: "engine \<Rightarrow> op list \<Rightarrow> engine" where
  "run_ops en ops = foldl (\<lambda>en opn. snd (exec_op IoOk en opn)) en ops"

lemma run_ops_logged:
  assumes "tables_wf (en_tables en)" "logged en es" "list_all op_loggable ops"
  shows "tables_wf (en_tables (run_ops en ops)) \<and> (\<exists>fs. logged (run_ops en ops) (es @ fs))
    \<and> (durable en \<longrightarrow> durable (run_ops en ops))"
  using assms
proof (induction ops arbitrary: en es)
  case Nil
  then show ?case by (auto simp: run_ops_def intro: exI [of _ "[]"])
next
  case (Cons opn ops)
  obtain r en' where x: "exec_op IoOk en opn = (r, en')" by fastforce
  from exec_op_logged [OF Cons.prems(1,2) _ x] Cons.prems(3)
  obtain fs where f: "tables_wf (en_tables en')" "logged en' (es @ fs)" "durable en \<longrightarrow> durable en'" by auto
  from Cons.IH [OF f(1,2)] Cons.prems(3) obtain gs where "tables_wf (en_tables (run_ops en' ops))"
    "logged (run_ops en' ops) (es @ fs @ gs)" "durable en' \<longrightarrow> durable (run_ops en' ops)" by auto
  moreover have "run_ops en (opn # ops) = run_ops en' ops" using x by (simp add: run_ops_def)
  ultimately show ?case using f(3) by auto
qed

section \<open>The checkpoint\<close>

text \<open>
  Every table is the result of appending its rows, in order, to an empty table with its columns
  and key, up to the counter: this is what a snapshot relies on.
\<close>

definition canonical :: "tbl \<Rightarrow> bool" where
  "canonical t \<longleftrightarrow>
     (\<exists>t0. foldR push_trusted (new_table (tb_columns t) (tb_pk t)) (tb_rows t) = Ok t0 \<and> core t0 = core t)"

definition mem_canonical :: "memory \<Rightarrow> bool" where
  "mem_canonical m \<longleftrightarrow> (\<forall>n t. fst m n = Some t \<longrightarrow> canonical t)"

lemma push_trusted_shape:
  "push_trusted t row = Ok t' \<Longrightarrow> tb_schema t' = tb_schema t \<and> tb_rows t' = tb_rows t @ [row]"
  by (auto simp: push_trusted_def result_simps)

lemma push_fold_shape:
  "foldR push_trusted t rows = Ok t' \<Longrightarrow> tb_schema t' = tb_schema t \<and> tb_rows t' = tb_rows t @ rows"
proof (induction rows arbitrary: t)
  case (Cons row rows)
  then obtain t1 where t: "push_trusted t row = Ok t1" "foldR push_trusted t1 rows = Ok t'"
    by (auto simp: result_simps)
  from Cons.IH [OF t(2)] push_trusted_shape [OF t(1)] show ?case by simp
qed simp

lemma canonicalI: "foldR push_trusted (new_table cols pk) rows = Ok t \<Longrightarrow> canonical t"
  using push_fold_shape [of "new_table cols pk" rows t]
  by (auto simp: canonical_def new_table_def)

lemma canonical_new [simp]: "canonical (new_table cols pk)"
  using canonicalI [of cols pk "[]"] by simp

lemma canonical_push:
  assumes "canonical t" "push_trusted t row = Ok t'"
  shows "canonical t'"
proof -
  obtain t0 where t0: "foldR push_trusted (new_table (tb_columns t) (tb_pk t)) (tb_rows t) = Ok t0"
    "core t0 = core t" using assms(1) by (auto simp: canonical_def)
  obtain t1 where "push_trusted t0 row = Ok t1" "core t1 = core t'"
    using map_result_cong_Inr [OF push_trusted_core [OF t0(2) [symmetric], of row] assms(2)] by metis
  then show ?thesis using t0(1) push_trusted_shape [OF assms(2)]
    by (auto simp: canonical_def foldR_append)
qed

lemma rebuilds_new: "\<exists>cols pk rows. foldR push_trusted (new_table cols pk) rows = Ok (new_table c k)"
  by (intro exI [of _ c] exI [of _ k] exI [of _ "[]"]) simp

lemma altered_rebuilds:
  "compute_altered_table t ch = Ok t' \<Longrightarrow> \<exists>cols pk rows. foldR push_trusted (new_table cols pk) rows = Ok t'"
proof (cases ch)
  case (AddColumn c b)
  then show "compute_altered_table t ch = Ok t' \<Longrightarrow> ?thesis"
    by (auto simp: alter_add_column_def Let_def foldR_map [of push_trusted "\<lambda>r. r @ [VNull]"]
        split: if_splits intro: rebuilds_new)
next
  case (DropColumn n)
  then show "compute_altered_table t ch = Ok t' \<Longrightarrow> ?thesis"
    by (auto simp: alter_drop_column_def Let_def result_simps foldR_map_push split: if_splits)
next
  case (ModifyColumn c)
  then show "compute_altered_table t ch = Ok t' \<Longrightarrow> ?thesis"
    by (auto simp: alter_modify_column_def Let_def result_simps foldR_map_push split: if_splits)
next
  case (AddPrimaryKey n)
  then show "compute_altered_table t ch = Ok t' \<Longrightarrow> ?thesis"
    by (auto simp: alter_add_primary_key_def Let_def result_simps split: if_splits
        dest!: foldR_seen)
next
  case DropPrimaryKey
  then show "compute_altered_table t ch = Ok t' \<Longrightarrow> ?thesis"
    by (auto simp: alter_drop_primary_key_def Let_def split: if_splits)
qed

lemma altered_canonical: "compute_altered_table t ch = Ok t' \<Longrightarrow> canonical t'"
  using altered_rebuilds canonicalI by blast

lemma push_fold_auto: "foldR push_trusted t rows = Ok t' \<Longrightarrow> auto_ahead t \<Longrightarrow> auto_ahead t'"
  using foldR_invariant [of auto_ahead rows push_trusted t t'] push_trusted_auto by blast

lemma altered_auto: "compute_altered_table t ch = Ok t' \<Longrightarrow> auto_ahead t'"
  using altered_rebuilds push_fold_auto new_table_auto by blast

lemma push_named_canonical:
  "mem_canonical (ts, dbs) \<Longrightarrow> push_named ts tr = Ok ts' \<Longrightarrow> mem_canonical (ts', dbs)"
proof (cases "ts (fst tr)")
  case (Some t)
  assume m: "mem_canonical (ts, dbs)" and p: "push_named ts tr = Ok ts'"
  from m Some have c: "canonical t" by (auto simp: mem_canonical_def)
  from p Some obtain t' where "push_trusted t (snd tr) = Ok t'" "ts' = ts(fst tr \<mapsto> t')"
    by (auto simp: push_named_def result_simps)
  with m canonical_push [OF c] show "mem_canonical (ts', dbs)" by (simp add: mem_canonical_def)
qed (simp add: push_named_def)

lemma apply_entry_canonical:
  assumes "mem_canonical m" "apply_entry m e = Ok m'"
  shows "mem_canonical m'"
proof (cases m)
  case (Pair ts dbs)
  show ?thesis
  proof (cases e)
    case (CreateTable n cols pk)
    then show ?thesis using assms Pair by (auto simp: mem_canonical_def split: if_splits)
  next
    case (InsertRow n row)
    then show ?thesis using assms Pair push_named_canonical by (auto simp: result_simps)
  next
    case (Transaction rows)
    then obtain ts' where "foldR push_named ts rows = Ok ts'" "m' = (ts', dbs)"
      using assms Pair by (auto simp: result_simps)
    then show ?thesis
      using foldR_invariant [of "\<lambda>ts. mem_canonical (ts, dbs)" rows push_named ts ts']
        push_named_canonical assms(1) Pair by blast
  next
    case (AlterTable n ch)
    then show ?thesis using assms Pair
      by (auto simp: mem_canonical_def split: option.splits sum.splits exn.splits if_splits
          intro: altered_canonical)
  qed (use assms Pair in \<open>auto simp: mem_canonical_def\<close>)
qed

lemma replayed_canonical: "replayed es = Ok m \<Longrightarrow> mem_canonical m"
proof (induction es arbitrary: m rule: rev_induct)
  case Nil
  then show ?case by (auto simp: mem_canonical_def)
next
  case (snoc e es)
  then obtain k where "replayed es = Ok k" "apply_entry k e = Ok m" by (auto simp: result_simps)
  with snoc.IH apply_entry_canonical show ?case by blast
qed

definition tables_ahead :: "tables \<Rightarrow> bool" where
  "tables_ahead ts \<longleftrightarrow> (\<forall>n t. ts n = Some t \<longrightarrow> auto_ahead t)"

lemma push_named_ahead: "tables_ahead ts \<Longrightarrow> push_named ts tr = Ok ts' \<Longrightarrow> tables_ahead ts'"
proof (cases "ts (fst tr)")
  case (Some t)
  assume m: "tables_ahead ts" and p: "push_named ts tr = Ok ts'"
  from m Some have c: "auto_ahead t" by (auto simp: tables_ahead_def)
  from p Some obtain t' where "push_trusted t (snd tr) = Ok t'" "ts' = ts(fst tr \<mapsto> t')"
    by (auto simp: push_named_def result_simps)
  with m push_trusted_auto [OF c] show "tables_ahead ts'" by (simp add: tables_ahead_def)
qed (simp add: push_named_def)

lemma apply_entry_ahead:
  assumes "tables_ahead (fst m)" "apply_entry m e = Ok m'"
  shows "tables_ahead (fst m')"
proof (cases m)
  case (Pair ts dbs)
  show ?thesis
  proof (cases e)
    case (CreateTable n cols pk)
    then show ?thesis using assms Pair by (auto simp: tables_ahead_def split: if_splits)
  next
    case (InsertRow n row)
    then show ?thesis using assms Pair push_named_ahead by (auto simp: result_simps)
  next
    case (Transaction rows)
    then obtain ts' where "foldR push_named ts rows = Ok ts'" "m' = (ts', dbs)"
      using assms Pair by (auto simp: result_simps)
    then show ?thesis
      using foldR_invariant [of tables_ahead rows push_named ts ts'] push_named_ahead assms(1) Pair by auto
  next
    case (AlterTable n ch)
    then show ?thesis using assms Pair
      by (auto simp: tables_ahead_def split: option.splits sum.splits exn.splits if_splits intro: altered_auto)
  qed (use assms Pair in auto)
qed

lemma replayed_ahead: "replayed es = Ok m \<Longrightarrow> tables_ahead (fst m)"
proof (induction es arbitrary: m rule: rev_induct)
  case (snoc e es)
  then obtain k where "replayed es = Ok k" "apply_entry k e = Ok m" by (auto simp: result_simps)
  with snoc.IH apply_entry_ahead show ?case by blast
qed (auto simp: tables_ahead_def)

text \<open>
  What the iteration of a hash container yields: each of its members once, in some order.
\<close>

definition key_order :: "(tables \<Rightarrow> string list) \<Rightarrow> bool" where
  "key_order ord \<longleftrightarrow> (\<forall>ts. finite (dom ts) \<longrightarrow> set (ord ts) = dom ts \<and> distinct (ord ts))"

definition set_order :: "(string set \<Rightarrow> string list) \<Rightarrow> bool" where
  "set_order dord \<longleftrightarrow> (\<forall>s. finite s \<longrightarrow> set (dord s) = s \<and> distinct (dord s))"

definition table_entries :: "string \<Rightarrow> tbl \<Rightarrow> entry list" where
  "table_entries n t =
     CreateTable n (tb_columns t) (tb_pk t)
     # (if tb_rows t \<noteq> [] then [Transaction (map (\<lambda>row. (n, row)) (tb_rows t))] else [])"

definition snapshot_entries ::
    "(tables \<Rightarrow> string list) \<Rightarrow> (string set \<Rightarrow> string list) \<Rightarrow> memory \<Rightarrow> entry list" where
  "snapshot_entries ord dord m =
     concat (map (\<lambda>n. table_entries n (the (fst m n))) (ord (fst m)))
     @ map CreateDatabase (dord (snd m))"

lemma frames_concat: "frames (concat ess) = concat (map frames ess)"
  by (induction ess) simp_all

lemma snapshot_bytes_frames: "snapshot_bytes ord dord m = frames (snapshot_entries ord dord m)"
proof -
  have t: "snapshot_table n t = frames (table_entries n t)" for n t
    by (simp add: snapshot_table_def table_entries_def)
  have "frames (map CreateDatabase ns) = concat (map (\<lambda>n. frame_record (encode_create_database n)) ns)" for ns
    by (induction ns) simp_all
  then show ?thesis
    by (simp add: snapshot_bytes_def snapshot_entries_def frames_concat t comp_def)
qed

lemma push_named_same:
  "foldR push_named (ts(n \<mapsto> t)) (map (\<lambda>row. (n, row)) rows) =
     map_result (\<lambda>t'. ts(n \<mapsto> t')) (foldR push_trusted t rows)"
proof (induction rows arbitrary: t)
  case (Cons row rows)
  have p: "push_named (ts(n \<mapsto> t)) (n, row) = map_result (\<lambda>t'. ts(n \<mapsto> t')) (push_trusted t row)"
    by (simp add: push_named_def)
  show ?case
    by (cases "push_trusted t row") (simp_all only: list.map foldR.simps p map_result_simps bindR.simps Cons.IH)
qed simp

lemma replay_table_entries:
  assumes "canonical t"
  shows "\<exists>t'. foldl replay_step (Ok (us, dbs)) (table_entries n t) = Ok (us(n \<mapsto> t'), dbs) \<and> core t' = core t"
proof -
  obtain t0 where "foldR push_trusted (new_table (tb_columns t) (tb_pk t)) (tb_rows t) = Ok t0" "core t0 = core t"
    using assms by (auto simp: canonical_def)
  then show ?thesis
    by (auto simp: table_entries_def replay_step_def push_named_same)
qed

lemma replay_tables:
  assumes "\<forall>n \<in> set ns. \<exists>t. ts n = Some t \<and> canonical t"
  shows "\<exists>us'. foldl replay_step (Ok (us, dbs)) (concat (map (\<lambda>n. table_entries n (the (ts n))) ns)) = Ok (us', dbs)
    \<and> tables_core us' = (\<lambda>k. if k \<in> set ns then tables_core ts k else tables_core us k)"
  using assms
proof (induction ns arbitrary: us)
  case (Cons n ns)
  obtain t where t: "ts n = Some t" "canonical t" using Cons.prems by auto
  obtain t' where t': "foldl replay_step (Ok (us, dbs)) (table_entries n t) = Ok (us(n \<mapsto> t'), dbs)"
    "core t' = core t" using replay_table_entries [OF t(2)] by blast
  have "\<forall>n \<in> set ns. \<exists>t. ts n = Some t \<and> canonical t" using Cons.prems by simp
  from Cons.IH [OF this, of "us(n \<mapsto> t')"]
  obtain us' where u: "foldl replay_step (Ok (us(n \<mapsto> t'), dbs))
      (concat (map (\<lambda>n. table_entries n (the (ts n))) ns)) = Ok (us', dbs)"
    "tables_core us' = (\<lambda>k. if k \<in> set ns then tables_core ts k else tables_core (us(n \<mapsto> t')) k)"
    by blast
  have "tables_core us' = (\<lambda>k. if k \<in> set (n # ns) then tables_core ts k else tables_core us k)"
    unfolding u(2) using t(1) t'(2) by (auto simp: fun_eq_iff tables_core_def)
  with t(1) t'(1) u(1) show ?case by auto
qed simp

lemma replay_databases: "foldl replay_step (Ok (us, dbs)) (map CreateDatabase ns) = Ok (us, dbs \<union> set ns)"
  by (induction ns arbitrary: dbs) (simp_all add: replay_step_def)

lemma snapshot_replays:
  assumes "mem_canonical m" "finite (dom (fst m))" "finite (snd m)" "key_order ord" "set_order dord"
  shows "\<exists>k. replayed (snapshot_entries ord dord m) = Ok k \<and> mem_core k = mem_core m"
proof -
  have o: "set (ord (fst m)) = dom (fst m)" "set (dord (snd m)) = snd m"
    using assms by (auto simp: key_order_def set_order_def)
  then have "\<forall>n \<in> set (ord (fst m)). \<exists>t. fst m n = Some t \<and> canonical t"
    using assms(1) by (auto simp: mem_canonical_def)
  from replay_tables [OF this, of Map.empty "{}"]
  obtain us where u: "foldl replay_step (Ok (Map.empty, {}))
      (concat (map (\<lambda>n. table_entries n (the (fst m n))) (ord (fst m)))) = Ok (us, {})"
    "tables_core us = (\<lambda>k. if k \<in> dom (fst m) then tables_core (fst m) k else tables_core Map.empty k)"
    using o(1) by auto
  have "tables_core us = tables_core (fst m)"
    unfolding u(2) by (auto simp: fun_eq_iff tables_core_def)
  moreover have "replayed (snapshot_entries ord dord m) = Ok (us, snd m)"
    using o(2) by (simp add: replayed_def snapshot_entries_def u(1) replay_databases)
  ultimately show ?thesis by (auto simp: mem_core_def)
qed

section \<open>Properties of the store\<close>

definition store_ok :: "engine \<Rightarrow> bool" where
  "store_ok en \<longleftrightarrow> tables_wf (en_tables en) \<and> (\<exists>es. logged en es) \<and> durable en"

lemma push_named_finite: "finite (dom ts) \<Longrightarrow> push_named ts tr = Ok ts' \<Longrightarrow> finite (dom ts')"
  by (auto simp: push_named_def result_simps split: option.splits)

lemma apply_entry_finite:
  assumes "finite (dom (fst m)) \<and> finite (snd m)" "apply_entry m e = Ok m'"
  shows "finite (dom (fst m')) \<and> finite (snd m')"
proof (cases m)
  case (Pair ts dbs)
  show ?thesis
  proof (cases e)
    case (Transaction rows)
    then obtain ts' where "foldR push_named ts rows = Ok ts'" "m' = (ts', dbs)"
      using assms Pair by (auto simp: result_simps)
    then show ?thesis
      using foldR_invariant [of "\<lambda>ts. finite (dom ts)" rows push_named ts ts'] push_named_finite assms(1) Pair
      by auto
  qed (use assms Pair in \<open>auto simp: result_simps push_named_finite split: option.splits sum.splits exn.splits\<close>)
qed

lemma replayed_finite: "replayed es = Ok m \<Longrightarrow> finite (dom (fst m)) \<and> finite (snd m)"
proof (induction es arbitrary: m rule: rev_induct)
  case (snoc e es)
  then obtain k where "replayed es = Ok k" "apply_entry k e = Ok m" by (auto simp: result_simps)
  with snoc.IH apply_entry_finite show ?case by blast
qed auto

lemma mem_core_tables_wf:
  assumes "mem_core m = mem_core k" "tables_wf (fst k)"
  shows "tables_wf (fst m)"
  unfolding tables_wf_def
proof (intro allI impI)
  fix n t
  assume "fst m n = Some t"
  moreover have "map_option core (fst m n) = map_option core (fst k n)"
    using assms(1) by (intro tables_core_eqD) (simp add: mem_core_def)
  ultimately obtain u where "fst k n = Some u" "core t = core u" by (cases "fst k n") auto
  with assms(2) show "table_wf t" by (metis table_wf_core tables_wfD)
qed

text \<open>Every record of a snapshot of the store fits a record of the log.\<close>

definition snapshot_loggable :: "engine \<Rightarrow> bool" where
  "snapshot_loggable en \<longleftrightarrow>
     (\<forall>n t. en_tables en n = Some t \<longrightarrow> list_all loggable (table_entries n t))
     \<and> (\<forall>n \<in> en_databases en. loggable (CreateDatabase n))"

lemma snapshot_entries_loggable:
  assumes "snapshot_loggable en" "mem_core m = mem_core (memory_of en)" "finite (dom (fst m))" "finite (snd m)"
    "key_order ord" "set_order dord"
  shows "list_all loggable (snapshot_entries ord dord m)"
proof -
  have o: "set (ord (fst m)) = dom (fst m)" "set (dord (snd m)) = snd m"
    using assms(3-6) by (auto simp: key_order_def set_order_def)
  have "list_all loggable (table_entries n (the (fst m n)))" if "n \<in> dom (fst m)" for n
  proof -
    obtain t where t: "fst m n = Some t" using \<open>n \<in> dom (fst m)\<close> by blast
    have "map_option core (fst m n) = map_option core (en_tables en n)"
      using assms(2) by (intro tables_core_eqD) (simp add: mem_core_def memory_of_def)
    with t obtain u where u: "en_tables en n = Some u" "core t = core u" by (cases "en_tables en n") auto
    have "table_entries n t = table_entries n u" by (simp add: table_entries_def core_eqD [OF u(2)])
    with u t assms(1) show ?thesis by (simp add: snapshot_loggable_def)
  qed
  moreover have "snd m = en_databases en" using assms(2) by (simp add: mem_core_def memory_of_def)
  ultimately show ?thesis using assms(1) o
    by (auto simp: snapshot_entries_def snapshot_loggable_def list_all_iff)
qed

lemma open_after_crash:
  assumes l: "logged en es" and wf: "tables_wf (en_tables en)" and d: "durable en"
    and lg: "en_log en = Some lg" "length (lg_file lg) < 2 ^ 64" and fc: "file \<in> crash_files lg"
  shows "\<exists>m. mem_core m = mem_core (memory_of en) \<and> replayed es = Ok m
    \<and> open_store ord dord policy threshold (Some file) =
      Ok \<lparr>en_tables = fst m, en_databases = snd m,
         en_log = Some (checkpoint_if_worthwhile ord dord (opened_log policy (frames es)) policy threshold m)\<rparr>"
proof -
  obtain m where m: "lg_file lg = frames es" "list_all loggable es" "replayed es = Ok m"
    "mem_core m = mem_core (memory_of en)" using l lg(1) by (auto simp: logged_def)
  have "length (frames es) \<le> lg_synced lg" using d lg(1) m(1) by (auto simp: durable_def)
  then have "log_open replay_step (Ok (Map.empty, {})) policy (Some file) =
      Ok (foldl replay_step (Ok (Map.empty, {})) es, opened_log policy (frames es))"
    using crash_keeps_synced [of lg es "[]" "file" replay_step "Ok (Map.empty, {})" policy] m(1,2) lg(2) fc by simp
  with m(3,4) show ?thesis by (auto simp: open_store_def replayed_def)
qed

lemma store_ok_checkpointed:
  assumes "replayed es = Ok m" "list_all loggable es" "list_all loggable (snapshot_entries ord dord m)"
    "tables_wf (fst m)" "key_order ord" "set_order dord"
  shows "store_ok \<lparr>en_tables = fst m, en_databases = snd m,
    en_log = Some (checkpoint_if_worthwhile ord dord (opened_log Always (frames es)) Always threshold m)\<rparr>"
    (is "store_ok ?en")
proof -
  have "\<exists>fs. logged ?en fs"
  proof (cases "length (frames es) < threshold")
    case True
    with assms(1,2) have "logged ?en es" by (simp add: logged_def checkpoint_if_worthwhile_def memory_of_def)
    then show ?thesis by blast
  next
    case False
    obtain k where "replayed (snapshot_entries ord dord m) = Ok k" "mem_core k = mem_core m"
      using snapshot_replays replayed_canonical [OF assms(1)] replayed_finite [OF assms(1)] assms(5,6) by blast
    with False assms(3) have "logged ?en (snapshot_entries ord dord m)"
      by (simp add: logged_def checkpoint_if_worthwhile_def memory_of_def snapshot_bytes_frames Let_def)
    then show ?thesis by blast
  qed
  moreover have "durable ?en" by (simp add: durable_def checkpoint_if_worthwhile_def Let_def)
  ultimately show ?thesis using assms(4) by (simp add: store_ok_def)
qed

subsection \<open>Uniqueness of keys\<close>

definition tables_unique :: "tables \<Rightarrow> bool" where
  "tables_unique ts \<longleftrightarrow> (\<forall>n t. ts n = Some t \<longrightarrow> keys_unique t)"

abbreviation table_keys :: "nat \<Rightarrow> tbl \<Rightarrow> value set" where
  "table_keys i t \<equiv> set (map (\<lambda>r. r ! i) (tb_rows t))"

text \<open>
  The state of the apply loop of a batch against the check it passed: the tables \<open>us\<close> hold the rows
  of \<open>ts\<close> and more, the keys of which the check has recorded in \<open>seen\<close>.
\<close>

definition batch_inv :: "tables \<Rightarrow> (string \<Rightarrow> value set) \<Rightarrow> tables \<Rightarrow> bool" where
  "batch_inv ts seen us \<longleftrightarrow>
     (\<forall>n. case ts n of
        None \<Rightarrow> us n = None
      | Some t \<Rightarrow> (\<exists>u. us n = Some u \<and> table_wf u \<and> keys_unique u \<and> tb_schema u = tb_schema t
          \<and> tb_pk_index u = tb_pk_index t
          \<and> (\<forall>i. tb_pk_index t = Some i \<longrightarrow> table_keys i u = table_keys i t \<union> seen n)))"

lemma batch_step_OkD:
  assumes "batch_step ts seen (n, row) = Ok seen'"
  obtains t where "ts n = Some t" "length row = length (tb_columns t)" "check_insertable t row = Ok ()"
    "seen' = (case tb_pk_index t of None \<Rightarrow> seen | Some i \<Rightarrow> seen(n := insert (row ! i) (seen n)))"
    "\<forall>i. tb_pk_index t = Some i \<longrightarrow> row ! i \<notin> seen n"
proof -
  obtain t where t: "ts n = Some t" "length row = length (tb_columns t)" "check_insertable t row = Ok ()"
    using assms by (auto simp: batch_step_def result_simps row_check_Ok_iff)
  then have "row_check ts n row = Ok t" by (simp add: row_check_Ok_iff)
  then show thesis
    using assms t that [of t]
    by (cases "tb_pk_index t") (auto simp: batch_step_def result_simps primary_key_value_def split: if_splits)
qed

lemma batch_inv_step:
  assumes wf: "tables_wf ts" and inv: "batch_inv ts seen us" and ok: "batch_step ts seen tr = Ok seen'"
  obtains us' where "push_named us tr = Ok us'" "batch_inv ts seen' us'"
proof -
  obtain n row where tr: "tr = (n, row)" by (cases tr)
  obtain t where t: "ts n = Some t" "length row = length (tb_columns t)" "check_insertable t row = Ok ()"
    and s: "seen' = (case tb_pk_index t of None \<Rightarrow> seen | Some i \<Rightarrow> seen(n := insert (row ! i) (seen n)))"
    and f: "\<forall>i. tb_pk_index t = Some i \<longrightarrow> row ! i \<notin> seen n"
    by (rule batch_step_OkD [OF ok [unfolded tr]])
  have "case Some t of None \<Rightarrow> us n = None
      | Some t \<Rightarrow> (\<exists>u. us n = Some u \<and> table_wf u \<and> keys_unique u \<and> tb_schema u = tb_schema t
          \<and> tb_pk_index u = tb_pk_index t
          \<and> (\<forall>i. tb_pk_index t = Some i \<longrightarrow> table_keys i u = table_keys i t \<union> seen n))"
    using inv [unfolded batch_inv_def, THEN spec, of n] t(1) by simp
  then obtain u where u: "us n = Some u" "table_wf u" "keys_unique u" "tb_schema u = tb_schema t"
    "tb_pk_index u = tb_pk_index t"
    "\<And>i. tb_pk_index t = Some i \<Longrightarrow> table_keys i u = table_keys i t \<union> seen n" by auto
  have len: "length row = length (tb_columns u)" using t(2) u(4) by simp
  have "row ! i \<notin> table_keys i u" if "tb_pk_index t = Some i" for i
    using t(3) that check_insertable_Ok_iff [OF tables_wfD [OF wf t(1)] t(2)] u(6) [OF that] f by blast
  with u(5) have chk: "check_insertable u row = Ok ()"
    unfolding check_insertable_Ok_iff [OF u(2) len] by metis
  obtain u' where p: "push_trusted u row = Ok u'" by (rule push_trusted_wf [OF u(2) len])
  note pf = push_trusted_facts [OF p u(2) len]
  have pu: "keys_unique u'" by (rule push_trusted_unique [OF u(2,3) len chk p])
  have keys: "table_keys i u' = table_keys i t \<union> seen' n" if "tb_pk_index t = Some i" for i
    using u(6) [OF that] pf(3) s that by auto
  have seen: "k \<noteq> n \<Longrightarrow> seen' k = seen k" for k using s by (auto split: option.splits)
  have "batch_inv ts seen' (us(n \<mapsto> u'))"
    unfolding batch_inv_def
  proof (intro allI)
    fix k
    show "case ts k of
        None \<Rightarrow> (us(n \<mapsto> u')) k = None
      | Some t \<Rightarrow> (\<exists>u. (us(n \<mapsto> u')) k = Some u \<and> table_wf u \<and> keys_unique u \<and> tb_schema u = tb_schema t
          \<and> tb_pk_index u = tb_pk_index t
          \<and> (\<forall>i. tb_pk_index t = Some i \<longrightarrow> table_keys i u = table_keys i t \<union> seen' k))"
    proof (cases "k = n")
      case True
      then show ?thesis using t(1) pf(1,2,4) pu u(4,5) keys by auto
    next
      case False
      then show ?thesis using inv [unfolded batch_inv_def, THEN spec, of k] seen [of k]
        by (cases "ts k") simp_all
    qed
  qed
  moreover have "push_named us tr = Ok (us(n \<mapsto> u'))" using tr u(1) p by (simp add: push_named_def)
  ultimately show thesis by (intro that)
qed

lemma batch_inv_fold:
  assumes "tables_wf ts" "batch_inv ts seen us" "foldR (batch_step ts) seen rows = Ok seen'"
  shows "\<exists>us'. foldR push_named us rows = Ok us' \<and> batch_inv ts seen' us'"
  using assms(2,3)
proof (induction rows arbitrary: seen us)
  case (Cons tr rows)
  then obtain s1 where s: "batch_step ts seen tr = Ok s1" "foldR (batch_step ts) s1 rows = Ok seen'"
    by (auto simp: result_simps)
  obtain us1 where "push_named us tr = Ok us1" "batch_inv ts s1 us1"
    by (rule batch_inv_step [OF assms(1) Cons.prems(1) s(1)])
  with Cons.IH [OF _ s(2)] show ?case by auto
qed simp

lemma batch_inv_start: "tables_wf ts \<Longrightarrow> tables_unique ts \<Longrightarrow> batch_inv ts (\<lambda>_. {}) ts"
  by (auto simp: batch_inv_def tables_wf_def tables_unique_def split: option.split)

lemma batch_inv_unique: "batch_inv ts seen us \<Longrightarrow> tables_unique us"
  unfolding tables_unique_def
proof (intro allI impI)
  fix n u
  assume b: "batch_inv ts seen us" and u: "us n = Some u"
  show "keys_unique u"
    using b [unfolded batch_inv_def, THEN spec, of n] u by (auto split: option.splits)
qed

end
