(* ===== verification/Storage_Spec.thy ===== *)
theory Storage_Spec
  imports Storage_Engine
begin

text \<open>
  What the store promises.  An abstract database is a map from table names to a schema and a list
  of rows; the operations of \<^verbatim>\<open>InMemoryStorage\<close> refine operations on it, with the hash index, the
  cached key position and the batch check all gone.  The interface \<open>storage_view\<close> states the
  laws of the read methods of the \<^verbatim>\<open>Storage\<close> trait (\<^verbatim>\<open>src/src/storage/mod.rs\<close>, lines 73
  to 179) that the executor relies on.
\<close>

section \<open>The abstract database\<close>

type_synonym adb = "string \<rightharpoonup> table_schema \<times> row list"

definition abs_tables :: "tables \<Rightarrow> adb" where
  "abs_tables ts = (\<lambda>n. map_option (\<lambda>t. (tb_schema t, tb_rows t)) (ts n))"

definition schema_pk :: "table_schema \<Rightarrow> nat option" where
  "schema_pk s = pk_position (ts_primary_key s) (ts_columns s)"

definition key_fresh :: "table_schema \<Rightarrow> row list \<Rightarrow> row \<Rightarrow> bool" where
  "key_fresh s rows row =
     (case schema_pk s of None \<Rightarrow> True | Some i \<Rightarrow> row ! i \<notin> set (map (\<lambda>r. r ! i) rows))"

fun spec_insert :: "adb \<Rightarrow> string \<times> row \<Rightarrow> adb option" where
  "spec_insert db (n, row) =
     (case db n of
        None \<Rightarrow> None
      | Some (s, rows) \<Rightarrow>
          if length row = length (ts_columns s) \<and> key_fresh s rows row
          then Some (db(n \<mapsto> (s, rows @ [row]))) else None)"

fun spec_insert_all :: "adb \<Rightarrow> (string \<times> row) list \<Rightarrow> adb option" where
  "spec_insert_all db [] = Some db"
| "spec_insert_all db (tr # trs) = Option.bind (spec_insert db tr) (\<lambda>db'. spec_insert_all db' trs)"

lemma abs_tables_upd: "abs_tables (ts(n \<mapsto> t)) = (abs_tables ts)(n \<mapsto> (tb_schema t, tb_rows t))"
  by (rule ext) (simp add: abs_tables_def)

lemma abs_tables_simps [simp]:
  "abs_tables ts n = None \<longleftrightarrow> ts n = None"
  "ts n = None \<Longrightarrow> abs_tables ts n = None"
  "ts n = Some t \<Longrightarrow> abs_tables ts n = Some (tb_schema t, tb_rows t)"
  by (simp_all add: abs_tables_def)

lemma key_fresh_wf:
  assumes "table_wf t" "length row = length (tb_columns t)"
  shows "check_insertable t row = Ok () \<longleftrightarrow> key_fresh (tb_schema t) (tb_rows t) row"
  unfolding check_insertable_Ok_iff [OF assms] key_fresh_def schema_pk_def table_wf_pk_index [OF assms(1)]
  by (auto split: option.split)

lemma check_insertable_cases:
  assumes "table_wf t" "length row = length (tb_columns t)"
  shows "check_insertable t row = Ok () \<or> (\<exists>x. check_insertable t row = Fail x)"
  using table_wf_pk_less [OF assms(1)] assms(2)
  by (auto simp: check_insertable_def err_duplicate_entry_def split: option.split)

lemma row_check_spec:
  assumes wf: "tables_wf ts"
  shows "(\<exists>t. row_check ts n row = Ok t) \<longleftrightarrow> spec_insert (abs_tables ts) (n, row) \<noteq> None"
    and "(\<nexists>t. row_check ts n row = Ok t) \<Longrightarrow> \<exists>x. row_check ts n row = Fail x"
proof -
  show "(\<exists>t. row_check ts n row = Ok t) \<longleftrightarrow> spec_insert (abs_tables ts) (n, row) \<noteq> None"
  proof (cases "ts n")
    case (Some t)
    then show ?thesis using key_fresh_wf [OF tables_wfD [OF wf Some]] by (auto simp: row_check_Ok_iff)
  qed (simp add: row_check_Ok_iff)
  show "\<exists>x. row_check ts n row = Fail x" if "\<nexists>t. row_check ts n row = Ok t"
  proof (cases "ts n")
    case None
    then show ?thesis by (simp add: row_check_def err_no_table_def)
  next
    case (Some t)
    then show ?thesis using that check_insertable_cases [OF tables_wfD [OF wf Some], of row]
      by (auto simp: row_check_def err_column_count_def)
  qed
qed

lemma push_named_spec:
  assumes "tables_wf ts" "row_check ts n row = Ok t" "push_named ts (n, row) = Ok ts'"
  shows "spec_insert (abs_tables ts) (n, row) = Some (abs_tables ts')"
proof -
  have t: "ts n = Some t" "length row = length (tb_columns t)" "check_insertable t row = Ok ()"
    using assms(2) by (auto simp: row_check_Ok_iff)
  note wf = tables_wfD [OF assms(1) t(1)]
  obtain t' where p: "push_trusted t row = Ok t'" "ts' = ts(n \<mapsto> t')"
    using assms(3) t(1) by (auto simp: push_named_def result_simps)
  from push_trusted_facts [OF p(1) wf t(2)] t key_fresh_wf [OF wf t(2)] p(2) show ?thesis
    by (simp add: abs_tables_upd)
qed

lemma batch_inv_wf: "batch_inv ts seen us \<Longrightarrow> tables_wf us"
  unfolding tables_wf_def
proof (intro allI impI)
  fix n u
  assume b: "batch_inv ts seen us" and u: "us n = Some u"
  show "table_wf u"
    using b [unfolded batch_inv_def, THEN spec, of n] u by (auto split: option.splits)
qed

text \<open>
  Checking a row against the committed table and the keys seen in the batch is checking it against
  the table with the batch so far appended.
\<close>

lemma batch_step_row_check:
  assumes wf: "tables_wf ts" and inv: "batch_inv ts seen us"
  shows "(\<exists>s. batch_step ts seen (n, row) = Ok s) \<longleftrightarrow> (\<exists>t. row_check us n row = Ok t)"
    and "(\<nexists>s. batch_step ts seen (n, row) = Ok s) \<Longrightarrow> \<exists>x. batch_step ts seen (n, row) = Fail x"
proof -
  have both: "((\<exists>s. batch_step ts seen (n, row) = Ok s) \<longleftrightarrow> (\<exists>t. row_check us n row = Ok t))
    \<and> ((\<nexists>s. batch_step ts seen (n, row) = Ok s) \<longrightarrow> (\<exists>x. batch_step ts seen (n, row) = Fail x))"
  proof (cases "ts n")
    case None
    then have "us n = None" using inv [unfolded batch_inv_def, THEN spec, of n] by simp
    with None show ?thesis by (simp add: batch_step_def row_check_def err_no_table_def)
  next
    case (Some t)
    note tw = tables_wfD [OF wf Some]
    obtain u where u: "us n = Some u" "table_wf u" "tb_schema u = tb_schema t" "tb_pk_index u = tb_pk_index t"
      "\<And>i. tb_pk_index t = Some i \<Longrightarrow> table_keys i u = table_keys i t \<union> seen n"
      using inv [unfolded batch_inv_def, THEN spec, of n] Some by auto
    show ?thesis
    proof (cases "length row = length (tb_columns t)")
      case False
      with Some u show ?thesis by (simp add: batch_step_def row_check_def err_column_count_def)
    next
      case True
      have lu: "length row = length (tb_columns u)" using True u(3) by simp
      show ?thesis
      proof (cases "tb_pk_index t")
        case None
        with True Some u show ?thesis
          by (simp add: batch_step_def row_check_def check_insertable_def primary_key_value_def)
      next
        case pk: (Some i)
        have il: "i < length row" using table_wf_pk_less [OF tw pk] True by simp
        have b: "batch_step ts seen (n, row) =
            (if row ! i \<in> table_keys i t then Inl (err_duplicate_entry (row ! i))
             else if row ! i \<in> seen n then Inl (err_duplicate_entry (row ! i))
             else Ok (seen(n := insert (row ! i) (seen n))))"
        proof (cases "check_insertable t row")
          case (Inl x)
          then have "x = err_duplicate_entry (row ! i)" "row ! i \<in> table_keys i t"
            using il pk check_insertable_Ok_iff [OF tw True]
            by (auto simp: check_insertable_def split: if_splits)
          with Inl True Some show ?thesis by (simp add: batch_step_def row_check_def)
        next
          case (Inr x)
          then have "row ! i \<notin> table_keys i t" using pk check_insertable_Ok_iff [OF tw True] by simp
          with Inr True Some pk il show ?thesis
            by (simp add: batch_step_def row_check_def primary_key_value_def)
        qed
        have "(\<exists>t. row_check us n row = Ok t) \<longleftrightarrow> row ! i \<notin> table_keys i u"
          using u(1,4) lu pk check_insertable_Ok_iff [OF u(2) lu] by (simp add: row_check_Ok_iff)
        with b u(5) [OF pk] show ?thesis by (simp add: err_duplicate_entry_def)
      qed
    qed
  qed
  from both show "(\<exists>s. batch_step ts seen (n, row) = Ok s) \<longleftrightarrow> (\<exists>t. row_check us n row = Ok t)" by blast
  from both show "(\<nexists>s. batch_step ts seen (n, row) = Ok s) \<Longrightarrow> \<exists>x. batch_step ts seen (n, row) = Fail x"
    by blast
qed

lemma batch_refines:
  assumes wf: "tables_wf ts" and inv: "batch_inv ts seen us"
  shows "case spec_insert_all (abs_tables us) rows of
      None \<Rightarrow> \<exists>x. foldR (batch_step ts) seen rows = Fail x
    | Some db \<Rightarrow> \<exists>seen' us'. foldR (batch_step ts) seen rows = Ok seen' \<and> foldR push_named us rows = Ok us'
        \<and> batch_inv ts seen' us' \<and> abs_tables us' = db"
  using inv
proof (induction rows arbitrary: seen us)
  case (Cons tr rows)
  obtain n row where tr: "tr = (n, row)" by (cases tr)
  note bs = batch_step_row_check [OF wf Cons.prems, of n row]
  note rs = row_check_spec(1) [OF batch_inv_wf [OF Cons.prems], of n row]
  show ?case
  proof (cases "\<exists>s. batch_step ts seen (n, row) = Ok s")
    case True
    then obtain s t where s: "batch_step ts seen (n, row) = Ok s" and t: "row_check us n row = Ok t"
      using bs(1) by blast
    obtain us1 where p: "push_named us (n, row) = Ok us1" "batch_inv ts s us1"
      by (rule batch_inv_step [OF wf Cons.prems s])
    have "spec_insert (abs_tables us) (n, row) = Some (abs_tables us1)"
      by (rule push_named_spec [OF batch_inv_wf [OF Cons.prems] t p(1)])
    then have "spec_insert_all (abs_tables us) (tr # rows) = spec_insert_all (abs_tables us1) rows"
      by (simp add: tr)
    moreover have "foldR (batch_step ts) seen (tr # rows) = foldR (batch_step ts) s rows"
      "foldR push_named us (tr # rows) = foldR push_named us1 rows" using s p(1) by (simp_all add: tr)
    ultimately show ?thesis using Cons.IH [OF p(2)] by presburger
  next
    case False
    then have "spec_insert (abs_tables us) (n, row) = None" using bs(1) rs by blast
    moreover obtain x where "batch_step ts seen (n, row) = Fail x" using bs(2) False by blast
    ultimately show ?thesis by (simp add: tr)
  qed
qed simp

section \<open>Refinement of the mutating operations\<close>

definition abs_store :: "engine \<Rightarrow> adb" where
  "abs_store en = abs_tables (en_tables en)"

definition store_inv :: "engine \<Rightarrow> bool" where
  "store_inv en \<longleftrightarrow> tables_wf (en_tables en) \<and> tables_unique (en_tables en)"

lemma log_entry_tables: "en_tables (snd (log_entry io en e)) = en_tables en"
  by (simp add: log_entry_def split: option.split prod.split)

lemma insert_rows_refined:
  assumes inv: "store_inv en"
  shows "case spec_insert_all (abs_store en) rows of
      None \<Rightarrow> (\<exists>x. insert_rows io en rows = (Fail x, en))
    | Some db \<Rightarrow>
        (case fst (log_entry io en (Transaction rows)) of
           Inl x \<Rightarrow> rows \<noteq> [] \<longrightarrow> insert_rows io en rows = (Inl x, snd (log_entry io en (Transaction rows)))
         | Inr _ \<Rightarrow> (\<exists>en'. insert_rows io en rows = (Ok (), en') \<and> abs_store en' = db \<and> store_inv en'
             \<and> en_databases en' = en_databases en))"
proof (cases "rows = []")
  case True
  then show ?thesis using inv by (auto simp: insert_rows_def split: sum.split)
next
  case False
  have wf: "tables_wf (en_tables en)" and bi: "batch_inv (en_tables en) (\<lambda>_. {}) (en_tables en)"
    using inv batch_inv_start by (auto simp: store_inv_def)
  obtain r en1 where le: "log_entry io en (Transaction rows) = (r, en1)" by fastforce
  have t1: "en_tables en1 = en_tables en" "en_databases en1 = en_databases en"
    using log_entry_memory [OF le] by (simp_all add: memory_of_def)
  show ?thesis
  proof (cases "spec_insert_all (abs_store en) rows")
    case None
    with batch_refines [OF wf bi, of rows] False show ?thesis
      by (auto simp: abs_store_def insert_rows_def insert_rows_check_def logged_op_def)
  next
    case (Some db)
    with batch_refines [OF wf bi, of rows] obtain seen' us' where
      b: "foldR (batch_step (en_tables en)) (\<lambda>_. {}) rows = Ok seen'"
      "foldR push_named (en_tables en) rows = Ok us'" "batch_inv (en_tables en) seen' us'" "abs_tables us' = db"
      by (auto simp: abs_store_def)
    have "insert_rows io en rows = (case r of Inl x \<Rightarrow> (Inl x, en1) | Inr _ \<Rightarrow> (Ok (), en1\<lparr>en_tables := us'\<rparr>))"
      using False b(1,2) le t1
      by (simp add: insert_rows_def insert_rows_check_def logged_op_def insert_rows_apply_def split: sum.split)
    then show ?thesis using Some le t1 b(4) batch_inv_wf [OF b(3)] batch_inv_unique [OF b(3)]
      by (cases r) (auto simp: abs_store_def store_inv_def)
  qed
qed

section \<open>The read interface\<close>

text \<open>
  A view of a store: schemas, scans, filtered scans and key lookups agree with each other.  The
  executor chooses between a lookup and a scan on the strength of these laws.
\<close>

locale storage_view =
  fixes inv :: "'s \<Rightarrow> bool"
    and schema_of :: "'s \<Rightarrow> string \<Rightarrow> table_schema result"
    and rows_of :: "'s \<Rightarrow> string \<Rightarrow> row list result"
    and filtered :: "'s \<Rightarrow> string \<Rightarrow> (row \<Rightarrow> bool) \<Rightarrow> row list result"
    and by_key :: "'s \<Rightarrow> string \<Rightarrow> value \<Rightarrow> row option result"
  assumes filtered_rows: "inv s \<Longrightarrow> filtered s n P = map_result (filter P) (rows_of s n)"
    and by_key_find: "inv s \<Longrightarrow> schema_of s n = Ok sch \<Longrightarrow> schema_pk sch = Some i \<Longrightarrow>
      by_key s n k = map_result (find (\<lambda>r. r ! i = k)) (rows_of s n)"
    and keys_distinct: "inv s \<Longrightarrow> schema_of s n = Ok sch \<Longrightarrow> schema_pk sch = Some i \<Longrightarrow>
      rows_of s n = Ok rows \<Longrightarrow> distinct (map (\<lambda>r. r ! i) rows)"
    and widths: "inv s \<Longrightarrow> schema_of s n = Ok sch \<Longrightarrow> rows_of s n = Ok rows \<Longrightarrow>
      \<forall>r \<in> set rows. length r = length (ts_columns sch)"
    and rows_total: "inv s \<Longrightarrow> schema_of s n = Ok sch \<Longrightarrow> \<exists>rows. rows_of s n = Ok rows"
begin

lemma find_filter_unique:
  "distinct (map f xs) \<Longrightarrow> filter (\<lambda>x. f x = k) xs = (case find (\<lambda>x. f x = k) xs of None \<Rightarrow> [] | Some x \<Rightarrow> [x])"
proof (induction xs)
  case (Cons x xs)
  show ?case
  proof (cases "f x = k")
    case True
    with Cons.prems have "filter (\<lambda>x. f x = k) xs = []" by (auto simp: filter_empty_conv) (metis imageI)
    with True show ?thesis by simp
  next
    case False
    with Cons show ?thesis by simp
  qed
qed simp

lemma key_lookup_filter:
  assumes "inv s" "schema_of s n = Ok sch" "schema_pk sch = Some i"
  shows "map_result (\<lambda>m. case m of None \<Rightarrow> [] | Some r \<Rightarrow> [r]) (by_key s n k) =
    filtered s n (\<lambda>r. r ! i = k)"
proof -
  obtain rows where r: "rows_of s n = Ok rows" using rows_total [OF assms(1,2)] by blast
  from find_filter_unique [OF keys_distinct [OF assms r], of k] r show ?thesis
    by (simp add: by_key_find [OF assms] filtered_rows [OF assms(1)])
qed

end

lemma get_schema_Ok: "get_table_schema en n = Ok sch \<longleftrightarrow> (\<exists>t. en_tables en n = Some t \<and> sch = tb_schema t)"
  by (auto simp: get_table_schema_def result_simps)

lemma schema_pk_index: "table_wf t \<Longrightarrow> schema_pk (tb_schema t) = tb_pk_index t"
  by (simp add: schema_pk_def table_wf_pk_index)

lemma find_index:
  assumes "index_sound (Some i) rows idx" "distinct (map (\<lambda>r. r ! i) rows)"
  shows "find (\<lambda>r. r ! i = k) rows = map_option (\<lambda>n. rows ! n) (idx k)"
proof (cases "idx k")
  case None
  then have "\<forall>r \<in> set rows. r ! i \<noteq> k" using assms(1) by (auto simp: index_sound_def)
  with None show ?thesis by (simp add: find_None_iff)
next
  case (Some n)
  then have n: "n < length rows" "rows ! n ! i = k" using assms(1) by (auto simp: index_sound_def)
  have "\<not> (rows ! j) ! i = k" if "j < n" for j
    using that n assms(2) by (auto simp: distinct_conv_nth)
  then have "find (\<lambda>r. r ! i = k) rows = Some (rows ! n)"
    using n by (auto simp: find_Some_iff)
  with Some show ?thesis by simp
qed

interpretation store_view: storage_view store_inv get_table_schema scan scan_filtered lookup_by_primary_key
proof
  fix en n P sch i k rows
  assume inv: "store_inv en"
  show "scan_filtered en n P = map_result (filter P) (scan en n)"
    by (cases "en_tables en n") (simp_all add: scan_filtered_def scan_def)
  assume "get_table_schema en n = Ok sch"
  then obtain t where t: "en_tables en n = Some t" "sch = tb_schema t" by (auto simp: get_schema_Ok)
  have wf: "table_wf t" and u: "keys_unique t"
    using inv t(1) by (auto simp: store_inv_def tables_wf_def tables_unique_def)
  show "\<exists>rows. scan en n = Ok rows" using t(1) by (simp add: scan_def)
  show "\<forall>r \<in> set rows. length r = length (ts_columns sch)" if "scan en n = Ok rows"
    using that t wf by (auto simp: scan_def table_wf_rows)
  assume i: "schema_pk sch = Some i"
  then have pi: "tb_pk_index t = Some i" using schema_pk_index [OF wf] t(2) by simp
  then have d: "distinct (map (\<lambda>r. r ! i) (tb_rows t))" using u by (simp add: keys_unique_def)
  then show "distinct (map (\<lambda>r. r ! i) rows)" if "scan en n = Ok rows"
    using that t(1) by (simp add: scan_def)
  have s: "index_sound (Some i) (tb_rows t) (tb_index t)" using wf pi unfolding table_wf_def by auto
  then have "tb_index t k = Some j \<Longrightarrow> j < length (tb_rows t)" for j by (auto simp: index_sound_def)
  with find_index [OF s d, of k] t(1)
  show "lookup_by_primary_key en n k = map_result (find (\<lambda>r. r ! i = k)) (scan en n)"
    by (auto simp: lookup_by_primary_key_def scan_def split: option.split)
qed

section \<open>A sample store\<close>

definition sorted_keys :: "tables \<Rightarrow> string list" where
  "sorted_keys ts = sorted_list_of_set (dom ts)"

definition sorted_names :: "string set \<Rightarrow> string list" where
  "sorted_names s = sorted_list_of_set s"

lemma sorted_orders: "key_order sorted_keys" "set_order sorted_names"
  by (simp_all add: key_order_def set_order_def sorted_keys_def sorted_names_def)

definition empty_store :: engine where
  "empty_store = \<lparr>en_tables = Map.empty, en_databases = {}, en_log = Some (opened_log Always [])\<rparr>"

definition demo_columns :: "column_schema list" where
  "demo_columns =
     [\<lparr>cs_name = ''id'', cs_type = TInt, cs_nullable = False, cs_auto_increment = True\<rparr>,
      \<lparr>cs_name = ''v'', cs_type = TVarchar, cs_nullable = True, cs_auto_increment = False\<rparr>]"

definition demo_ops :: "op list" where
  "demo_ops =
     [CreateDatabaseOp ''d'' False,
      CreateTableOp ''t'' demo_columns (Some ''id''),
      InsertRowOp ''t'' [VInt 7, VVarchar ''x''],
      InsertRowsOp [(''t'', [VInt 8, VNull]), (''t'', [VInt 7, VNull])]]"

definition demo_store :: engine where
  "demo_store = run_ops empty_store demo_ops"

lemma empty_store_ok: "open_store ord dord Always threshold None = Ok empty_store \<or> threshold = 0"
  "tables_wf (en_tables empty_store)" "logged empty_store []" "durable empty_store"
  by (simp_all add: open_store_def log_open_def empty_store_def checkpoint_if_worthwhile_def tables_wf_def
      logged_def durable_def memory_of_def)

lemma demo_ops_loggable: "list_all op_loggable demo_ops"
  by code_simp

lemma demo_store_ok: "store_ok demo_store"
  using run_ops_logged [OF empty_store_ok(2,3) demo_ops_loggable] empty_store_ok(4)
  by (auto simp: store_ok_def demo_store_def)

lemmas op_defs = create_table_def create_table_check_def create_table_apply_def alter_table_def
  insert_row_def insert_row_check_def insert_row_apply_def insert_rows_def insert_rows_check_def
  insert_rows_apply_def create_database_def create_database_apply_def drop_database_def
  drop_database_apply_def logged_op_def log_entry_def log_append_def write_framed_batch_def

lemma demo_store_memory:
  "memory_of demo_store =
     ([''t'' \<mapsto> (new_table demo_columns (Some ''id''))\<lparr>tb_rows := [[VInt 7, VVarchar ''x'']],
         tb_index := [VInt 7 \<mapsto> 0], tb_auto := Some (0, 8)\<rparr>], {''d''})"
  by (simp add: demo_store_def demo_ops_def run_ops_def empty_store_def memory_of_def op_defs Let_def
      demo_columns_def new_table_def row_check_def batch_step_def check_insertable_def primary_key_value_def
      push_trusted_def push_index_def push_auto_def max_i64_def)

lemma demo_store_tables:
  "en_tables demo_store = [''t'' \<mapsto> (new_table demo_columns (Some ''id''))\<lparr>tb_rows := [[VInt 7, VVarchar ''x'']],
     tb_index := [VInt 7 \<mapsto> 0], tb_auto := Some (0, 8)\<rparr>]"
  "en_databases demo_store = {''d''}"
  using demo_store_memory by (simp_all add: memory_of_def)

lemma demo_log_length: "length (lg_file (the (en_log demo_store))) < 2 ^ 32"
  by (simp add: demo_store_def demo_ops_def run_ops_def empty_store_def op_defs Let_def
      demo_columns_def new_table_def row_check_def batch_step_def check_insertable_def primary_key_value_def
      push_trusted_def push_index_def push_auto_def max_i64_def encode_create_database_def
      encode_create_table_def encode_insert_row_def write_row_def write_column_schema_def)

lemma demo_snapshot_loggable: "snapshot_loggable demo_store"
proof -
  have "loggable (CreateDatabase ''d'')" "loggable (CreateTable ''t'' demo_columns (Some ''id''))"
    "loggable (Transaction [(''t'', [VInt 7, VVarchar ''x''])])" by code_simp+
  then show ?thesis
    by (auto simp: snapshot_loggable_def demo_store_tables table_entries_def new_table_def split: if_splits)
qed

lemma demo_store_inv: "store_inv demo_store"
  using demo_store_ok
  by (auto simp: store_inv_def store_ok_def tables_unique_def demo_store_tables keys_unique_def
      split: option.split if_splits)

lemma scan_core:
  assumes "mem_core (memory_of en) = mem_core (memory_of en')"
  shows "scan en n = scan en' n"
proof -
  have "map_option core (en_tables en n) = map_option core (en_tables en' n)"
    using assms by (intro tables_core_eqD) (simp add: mem_core_def memory_of_def)
  then show ?thesis
    by (cases "en_tables en n"; cases "en_tables en' n") (auto simp: scan_def dest: core_eqD)
qed

section \<open>Properties of the store\<close>

text \<open>
  Claim (C1). Durability. Take a store whose memory and log agree, run by any operations under
  \<^verbatim>\<open>SyncPolicy::Always\<close>. Whatever prefix of its file a crash leaves, opening it succeeds and
  brings back every table, row, index entry and database name of the store, with each
  \<^verbatim>\<open>AUTO_INCREMENT\<close> counter ahead of the stored values. This holds with and without a checkpoint
  at that open, and the opened store agrees with its log again.
\<close>

theorem crash_restart:
  assumes "store_ok en" "en_log en = Some lg" "length (lg_file lg) < 2 ^ 64"
    and "file \<in> crash_files lg" "key_order ord" "set_order dord" "snapshot_loggable en"
  shows "\<exists>en'. open_store ord dord Always threshold (Some file) = Ok en'
    \<and> mem_core (memory_of en') = mem_core (memory_of en) \<and> tables_ahead (en_tables en') \<and> store_ok en'"
proof -
  obtain es where l: "logged en es" and wf: "tables_wf (en_tables en)" and d: "durable en"
    using assms(1) by (auto simp: store_ok_def)
  obtain m where m: "mem_core m = mem_core (memory_of en)" "replayed es = Ok m"
    and o: "open_store ord dord Always threshold (Some file) =
      Ok \<lparr>en_tables = fst m, en_databases = snd m,
         en_log = Some (checkpoint_if_worthwhile ord dord (opened_log Always (frames es)) Always threshold m)\<rparr>"
    using open_after_crash [OF l wf d assms(2-4)] by blast
  have "tables_wf (fst m)" using mem_core_tables_wf [OF m(1)] wf by (simp add: memory_of_def)
  moreover have "list_all loggable (snapshot_entries ord dord m)"
    using snapshot_entries_loggable [OF assms(7) m(1)] replayed_finite [OF m(2)] assms(5,6) by blast
  moreover have "list_all loggable es" using l by (auto simp: logged_def)
  ultimately have "store_ok \<lparr>en_tables = fst m, en_databases = snd m,
      en_log = Some (checkpoint_if_worthwhile ord dord (opened_log Always (frames es)) Always threshold m)\<rparr>"
    using store_ok_checkpointed [OF m(2)] assms(5,6) by blast
  with o m(1) replayed_ahead [OF m(2)] show ?thesis by (simp add: memory_of_def)
qed

theorem crash_restart_witness:
  "\<exists>en'. open_store sorted_keys sorted_names Always 1 (Some (lg_file (the (en_log demo_store)))) = Ok en'
     \<and> scan en' ''t'' = Ok [[VInt 7, VVarchar ''x'']] \<and> en_databases en' = {''d''}"
proof -
  obtain lg where lg: "en_log demo_store = Some lg" using demo_store_ok by (auto simp: store_ok_def durable_def)
  have len: "length (lg_file lg) < 2 ^ 64" using demo_log_length lg by simp
  have fc: "lg_file lg \<in> crash_files lg"
    using demo_store_ok lg by (auto simp: crash_files_def store_ok_def durable_def intro!: exI [of _ "lg_synced lg"])
  obtain en' where o: "open_store sorted_keys sorted_names Always 1 (Some (lg_file lg)) = Ok en'"
    and m: "mem_core (memory_of en') = mem_core (memory_of demo_store)"
    using crash_restart [OF demo_store_ok lg len fc sorted_orders demo_snapshot_loggable] by blast
  have "scan en' ''t'' = scan demo_store ''t''" by (rule scan_core [OF m])
  moreover have "scan demo_store ''t'' = Ok [[VInt 7, VVarchar ''x'']]"
    by (simp add: scan_def demo_store_tables)
  moreover have "en_databases en' = {''d''}"
    using m by (simp add: mem_core_def memory_of_def demo_store_tables)
  ultimately show ?thesis using o lg by simp
qed



text \<open>
  Claim (C27). Log before memory: an operation that returns an error, also when its append or its
  sync failed, has changed no table and no database name in memory.
\<close>

theorem failed_operation_no_effect:
  assumes "tables_wf (en_tables en)" "exec_op io en opn = (Inl x, en')"
  shows "memory_of en' = memory_of en"
proof (cases "op_entry opn")
  case None
  then obtain n where "opn = NextAutoOp n" by (cases opn) auto
  with assms(2) show ?thesis
    by (auto simp: next_auto_increment_def Let_def split: option.splits prod.splits)
next
  case (Some e)
  from exec_op_runs [OF assms(1) Some, of io] assms(2) consider "en' = en"
    | r1 en1 m' where "log_entry io en e = (r1, en1)" "(Inl x, en') = (case r1 of Inl x \<Rightarrow> (Inl x, en1)
           | Inr _ \<Rightarrow> (Ok (), en1\<lparr>en_tables := fst m', en_databases := snd m'\<rparr>))"
    by (auto simp: runs_as_def)
  then show ?thesis
  proof cases
    case 2
    then show ?thesis using log_entry_memory [OF 2(1)] by (cases r1) auto
  qed simp
qed

theorem failed_operation_no_effect_witness:
  "\<exists>x en'. exec_op (WriteFails 3 ''disk full'') demo_store (InsertRowOp ''t'' [VInt 9, VNull]) = (Inl x, en')
     \<and> memory_of en' = memory_of demo_store"
proof -
  obtain lg where lg: "en_log demo_store = Some lg" using demo_store_ok by (auto simp: store_ok_def durable_def)
  have "\<exists>x en'. exec_op (WriteFails 3 ''disk full'') demo_store (InsertRowOp ''t'' [VInt 9, VNull]) = (Inl x, en')"
    by (simp add: op_defs row_check_def demo_store_tables lg new_table_def demo_columns_def check_insertable_def)
  moreover have "tables_wf (en_tables demo_store)" using demo_store_ok by (simp add: store_ok_def)
  ultimately show ?thesis using failed_operation_no_effect by blast
qed



end
