(* ===== verification/Storage_Tx.thy ===== *)
theory Storage_Tx
  imports Storage_Spec
begin

text \<open>
  Transactions (\<^verbatim>\<open>src/src/storage/transaction.rs\<close>) and the table locks that serialise them
  (\<^verbatim>\<open>InMemoryStorage::lock_table\<close>).  A transaction is the rows it has buffered per table and the
  tables it has locked; its methods take the store they read through.  The step relation
  \<open>tx_step\<close> interleaves the statements of any number of connections at the grain the locks give:
  an insert holds its table's lock for the whole statement, a transaction until it ends.
\<close>

section \<open>A transaction\<close>

record tx =
  tx_pending :: "string \<rightharpoonup> row list"
  tx_locked :: "string set"

definition tx_new :: tx where
  "tx_new = \<lparr>tx_pending = Map.empty, tx_locked = {}\<rparr>"

definition pending_rows :: "tx \<Rightarrow> string \<Rightarrow> row list" where
  "pending_rows tx n = (case tx_pending tx n of None \<Rightarrow> [] | Some rows \<Rightarrow> rows)"

definition tx_primary_key_index :: "table_schema \<Rightarrow> nat option" where
  "tx_primary_key_index schema =
     Option.bind (ts_primary_key schema) (\<lambda>pk. position (\<lambda>c. cs_name c = pk) (ts_columns schema))"

text \<open>\<^verbatim>\<open>rows.iter().any(|r| &r[pk_idx] == key)\<close> stops at the first match; the index may panic.\<close>

fun any_key :: "nat \<Rightarrow> value \<Rightarrow> row list \<Rightarrow> bool result" where
  "any_key i key [] = Ok False"
| "any_key i key (r # rs) = bindR (index_at r i) (\<lambda>v. if v = key then Ok True else any_key i key rs)"

fun find_key :: "nat \<Rightarrow> value \<Rightarrow> row list \<Rightarrow> row option result" where
  "find_key i key [] = Ok None"
| "find_key i key (r # rs) =
     bindR (index_at r i) (\<lambda>v. if v = key then Ok (Some r) else find_key i key rs)"

definition tx_check :: "engine \<Rightarrow> tx \<Rightarrow> string \<Rightarrow> row \<Rightarrow> unit result" where
  "tx_check en tx n row =
     bindR (get_table_schema en n) (\<lambda>schema.
     if length row \<noteq> length (ts_columns schema)
     then Inl (err_column_count n (length (ts_columns schema)) (length row))
     else case tx_primary_key_index schema of
       None \<Rightarrow> Ok ()
     | Some pk_idx \<Rightarrow>
         bindR (index_at row pk_idx) (\<lambda>key.
         bindR (lookup_by_primary_key en n key) (\<lambda>m.
         bindR (any_key pk_idx key (pending_rows tx n)) (\<lambda>already_pending.
         if m \<noteq> None \<or> already_pending then Inl (err_duplicate_entry key) else Ok ()))))"

definition tx_insert_row :: "engine \<Rightarrow> tx \<Rightarrow> string \<Rightarrow> row \<Rightarrow> unit result \<times> tx" where
  "tx_insert_row en tx n row =
     (case tx_check en tx n row of
        Inl x \<Rightarrow> (Inl x, tx)
      | Inr _ \<Rightarrow> (Ok (), tx\<lparr>tx_pending := (tx_pending tx)(n \<mapsto> pending_rows tx n @ [row])\<rparr>))"

text \<open>The default method of the trait, which a transaction keeps: one row at a time.\<close>

fun tx_insert_rows :: "engine \<Rightarrow> tx \<Rightarrow> (string \<times> row) list \<Rightarrow> unit result \<times> tx" where
  "tx_insert_rows en tx [] = (Ok (), tx)"
| "tx_insert_rows en tx ((n, row) # rows) =
     (let (r, tx') = tx_insert_row en tx n row in
      case r of Inl x \<Rightarrow> (Inl x, tx') | Inr _ \<Rightarrow> tx_insert_rows en tx' rows)"

definition tx_scan :: "engine \<Rightarrow> tx \<Rightarrow> string \<Rightarrow> row list result" where
  "tx_scan en tx n = map_result (\<lambda>rows. rows @ pending_rows tx n) (scan en n)"

definition tx_scan_filtered :: "engine \<Rightarrow> tx \<Rightarrow> string \<Rightarrow> (row \<Rightarrow> bool) \<Rightarrow> row list result" where
  "tx_scan_filtered en tx n P =
     map_result (\<lambda>rows. rows @ filter P (pending_rows tx n)) (scan_filtered en n P)"

definition tx_lookup_by_primary_key :: "engine \<Rightarrow> tx \<Rightarrow> string \<Rightarrow> value \<Rightarrow> row option result" where
  "tx_lookup_by_primary_key en tx n key =
     bindR (lookup_by_primary_key en n key) (\<lambda>m.
     case m of
       Some row \<Rightarrow> Ok (Some row)
     | None \<Rightarrow>
         bindR (get_table_schema en n) (\<lambda>schema.
         case tx_primary_key_index schema of
           None \<Rightarrow> Ok None
         | Some pk_idx \<Rightarrow> find_key pk_idx key (pending_rows tx n)))"

text \<open>The rows of a commit, tables in the iteration order \<open>pord\<close> of the pending map.\<close>

definition commit_rows :: "((string \<rightharpoonup> row list) \<Rightarrow> string list) \<Rightarrow> tx \<Rightarrow> (string \<times> row) list" where
  "commit_rows pord tx =
     concat (map (\<lambda>n. map (\<lambda>row. (n, row)) (pending_rows tx n)) (pord (tx_pending tx)))"

definition tx_commit ::
    "((string \<rightharpoonup> row list) \<Rightarrow> string list) \<Rightarrow> io_outcome \<Rightarrow> engine \<Rightarrow> tx \<Rightarrow> unit result \<times> engine" where
  "tx_commit pord io en tx = insert_rows io en (commit_rows pord tx)"

section \<open>Connections and locks\<close>

record world =
  w_store :: engine
  w_tx :: "nat \<rightharpoonup> tx"
  w_locks :: "string \<rightharpoonup> nat"

text \<open>\<^verbatim>\<open>ensure_locked\<close>: idempotent; a table held by another connection is waited for in vain.\<close>

definition err_lock_timeout :: exn where
  "err_lock_timeout = Err (Execution ''Lock wait timeout exceeded; try restarting transaction'')"

definition ensure_locked :: "world \<Rightarrow> nat \<Rightarrow> tx \<Rightarrow> string \<Rightarrow> (tx \<times> (string \<rightharpoonup> nat)) result" where
  "ensure_locked w c tx n =
     (if n \<in> tx_locked tx then Ok (tx, w_locks w)
      else if w_locks w n \<noteq> None then Inl err_lock_timeout
      else Ok (tx\<lparr>tx_locked := insert n (tx_locked tx)\<rparr>, (w_locks w)(n \<mapsto> c)))"

definition release_locks :: "(string \<rightharpoonup> nat) \<Rightarrow> nat \<Rightarrow> (string \<rightharpoonup> nat)" where
  "release_locks lk c = (\<lambda>n. if lk n = Some c then None else lk n)"

text \<open>
  One statement of one connection.  Inserts of a connection without a transaction lock their table
  for the statement only, so they need it free.  \<^verbatim>\<open>CREATE TABLE\<close>, database names and
  \<^verbatim>\<open>AUTO_INCREMENT\<close> take no lock.  \<^verbatim>\<open>ALTER TABLE\<close> takes none either and is
  no step here: see the last section.
\<close>

inductive tx_step :: "((string \<rightharpoonup> row list) \<Rightarrow> string list) \<Rightarrow> world \<Rightarrow> world \<Rightarrow> bool"
  for pord where
  step_begin: "w_tx w c = None \<Longrightarrow> tx_step pord w (w\<lparr>w_tx := (w_tx w)(c \<mapsto> tx_new)\<rparr>)"
| step_insert: "w_tx w c = Some tx \<Longrightarrow> ensure_locked w c tx n = Ok (tx1, lk) \<Longrightarrow>
    tx_insert_rows (w_store w) tx1 (map (\<lambda>row. (n, row)) rows) = (r, tx2) \<Longrightarrow>
    tx_step pord w (w\<lparr>w_tx := (w_tx w)(c \<mapsto> tx2), w_locks := lk\<rparr>)"
| step_autocommit: "w_tx w c = None \<Longrightarrow> w_locks w n = None \<Longrightarrow>
    insert_rows io (w_store w) (map (\<lambda>row. (n, row)) rows) = (r, en') \<Longrightarrow>
    tx_step pord w (w\<lparr>w_store := en'\<rparr>)"
| step_commit: "w_tx w c = Some tx \<Longrightarrow> tx_commit pord io (w_store w) tx = (r, en') \<Longrightarrow>
    tx_step pord w (w\<lparr>w_store := en', w_tx := (w_tx w)(c := None), w_locks := release_locks (w_locks w) c\<rparr>)"
| step_rollback: "w_tx w c = Some tx \<Longrightarrow>
    tx_step pord w (w\<lparr>w_tx := (w_tx w)(c := None), w_locks := release_locks (w_locks w) c\<rparr>)"
| step_create_table: "create_table io (w_store w) n cols pk = (r, en') \<Longrightarrow>
    tx_step pord w (w\<lparr>w_store := en'\<rparr>)"
| step_next_auto: "next_auto_increment (w_store w) n = (v, en') \<Longrightarrow>
    tx_step pord w (w\<lparr>w_store := en'\<rparr>)"
| step_create_database: "create_database io (w_store w) n b = (r, en') \<Longrightarrow>
    tx_step pord w (w\<lparr>w_store := en'\<rparr>)"
| step_drop_database: "drop_database io (w_store w) n b = (r, en') \<Longrightarrow>
    tx_step pord w (w\<lparr>w_store := en'\<rparr>)"

definition world_start :: "engine \<Rightarrow> world" where
  "world_start en = \<lparr>w_store = en, w_tx = Map.empty, w_locks = Map.empty\<rparr>"

section \<open>Pending rows fit the committed ones\<close>

definition pend_fits :: "adb \<Rightarrow> string \<Rightarrow> row list \<Rightarrow> bool" where
  "pend_fits db n rows \<longleftrightarrow>
     rows = [] \<or>
     (\<exists>s old. db n = Some (s, old) \<and> (\<forall>row \<in> set rows. length row = length (ts_columns s))
        \<and> (\<forall>i. schema_pk s = Some i \<longrightarrow> distinct (map (\<lambda>r. r ! i) (old @ rows))))"

lemma pend_fits_Nil [simp]: "pend_fits db n []"
  by (simp add: pend_fits_def)

lemma pend_fits_cong: "db n = db' n \<Longrightarrow> pend_fits db n rows = pend_fits db' n rows"
  by (simp add: pend_fits_def)

lemma schema_pk_less: "schema_pk s = Some i \<Longrightarrow> i < length (ts_columns s)"
  by (auto simp: schema_pk_def dest: pk_position_less)

lemma spec_insert_pending:
  assumes "db n = Some (s, old)" "pend_fits db n rows"
  shows "spec_insert_all db (map (\<lambda>row. (n, row)) rows) = Some (db(n \<mapsto> (s, old @ rows)))"
  using assms
proof (induction rows arbitrary: db old)
  case Nil
  then show ?case by (simp add: fun_upd_idem)
next
  case (Cons row rows)
  have k: "key_fresh s old row" and l: "length row = length (ts_columns s)"
    using Cons.prems by (auto simp: pend_fits_def key_fresh_def split: option.split)
  have "pend_fits (db(n \<mapsto> (s, old @ [row]))) n rows"
    using Cons.prems by (auto simp: pend_fits_def)
  with Cons.IH [of "db(n \<mapsto> (s, old @ [row]))" "old @ [row]"] k l Cons.prems(1) show ?case
    by (simp del: fun_upd_apply add: fun_upd_same)
qed

definition add_pending :: "adb \<Rightarrow> (string \<Rightarrow> row list) \<Rightarrow> adb" where
  "add_pending db pend = (\<lambda>n. map_option (\<lambda>(s, old). (s, old @ pend n)) (db n))"

lemma spec_insert_names:
  assumes "distinct ns" "\<forall>n \<in> set ns. pend_fits db n (pend n)"
  shows "spec_insert_all db (concat (map (\<lambda>n. map (\<lambda>row. (n, row)) (pend n)) ns)) =
    Some (add_pending db (\<lambda>n. if n \<in> set ns then pend n else []))"
  using assms
proof (induction ns arbitrary: db)
  case Nil
  then show ?case by (simp add: add_pending_def option.map_ident case_prod_unfold)
next
  case (Cons n ns)
  have app: "spec_insert_all db (xs @ ys) = Option.bind (spec_insert_all db xs) (\<lambda>d. spec_insert_all d ys)"
    for db xs ys by (induction xs arbitrary: db) (simp_all add: Option.bind_assoc)
  obtain db1 where 1: "spec_insert_all db (map (\<lambda>row. (n, row)) (pend n)) = Some db1"
    and d: "db1 = add_pending db (\<lambda>k. if k = n then pend n else [])"
  proof (cases "db n")
    case None
    then have "pend n = []" using Cons.prems(2) by (auto simp: pend_fits_def)
    then have "db = add_pending db (\<lambda>k. if k = n then pend n else [])"
      by (simp add: fun_eq_iff add_pending_def option.map_ident case_prod_unfold)
    with \<open>pend n = []\<close> show thesis using that [of db] by simp
  next
    case (Some x)
    obtain s old where x: "x = (s, old)" by (cases x)
    have "spec_insert_all db (map (\<lambda>row. (n, row)) (pend n)) = Some (db(n \<mapsto> (s, old @ pend n)))"
      using spec_insert_pending [of db n s old "pend n"] Some x Cons.prems(2) by simp
    moreover have "db(n \<mapsto> (s, old @ pend n)) = add_pending db (\<lambda>k. if k = n then pend n else [])"
      using Some x by (auto simp: fun_eq_iff add_pending_def option.map_ident case_prod_unfold)
    ultimately show thesis using that by blast
  qed
  have "\<forall>k \<in> set ns. pend_fits db1 k (pend k)"
  proof
    fix k
    assume k: "k \<in> set ns"
    then have "db1 k = db k" using Cons.prems(1) unfolding d
      by (cases "db k") (auto simp: add_pending_def)
    with k Cons.prems(2) show "pend_fits db1 k (pend k)" by (simp cong: pend_fits_cong)
  qed
  with Cons.IH [of db1] Cons.prems(1)
  have "spec_insert_all db1 (concat (map (\<lambda>n. map (\<lambda>row. (n, row)) (pend n)) ns)) =
    Some (add_pending db1 (\<lambda>n. if n \<in> set ns then pend n else []))" by simp
  moreover have "add_pending db1 (\<lambda>n. if n \<in> set ns then pend n else []) =
      add_pending db (\<lambda>k. if k \<in> set (n # ns) then pend k else [])"
    using Cons.prems(1) unfolding d add_pending_def
    by (auto simp: fun_eq_iff option.map_comp comp_def case_prod_unfold)
  ultimately show ?case using 1 by (simp add: app)
qed

definition pending_order :: "((string \<rightharpoonup> row list) \<Rightarrow> string list) \<Rightarrow> bool" where
  "pending_order pord \<longleftrightarrow> (\<forall>m. finite (dom m) \<longrightarrow> set (pord m) = dom m \<and> distinct (pord m))"

definition tx_fits :: "adb \<Rightarrow> tx \<Rightarrow> bool" where
  "tx_fits db tx \<longleftrightarrow> finite (dom (tx_pending tx)) \<and> (\<forall>n. pend_fits db n (pending_rows tx n))"

lemma spec_commit:
  assumes "pending_order pord" "tx_fits db tx"
  shows "spec_insert_all db (commit_rows pord tx) = Some (add_pending db (pending_rows tx))"
proof -
  have o: "set (pord (tx_pending tx)) = dom (tx_pending tx)" "distinct (pord (tx_pending tx))"
    using assms by (auto simp: pending_order_def tx_fits_def)
  have "(\<lambda>n. if n \<in> dom (tx_pending tx) then pending_rows tx n else []) = pending_rows tx"
    by (auto simp: pending_rows_def fun_eq_iff split: option.split)
  with spec_insert_names [OF o(2), of db "pending_rows tx"] assms(2) o(1) show ?thesis
    by (simp add: commit_rows_def tx_fits_def)
qed

section \<open>Inserting into a transaction\<close>

lemma any_key_Ok: "\<forall>r \<in> set rows. i < length r \<Longrightarrow> any_key i key rows = Ok (\<exists>r \<in> set rows. r ! i = key)"
  by (induction rows) auto

lemma find_key_Ok: "\<forall>r \<in> set rows. i < length r \<Longrightarrow> find_key i key rows = Ok (find (\<lambda>r. r ! i = key) rows)"
  by (induction rows) auto

lemma tx_primary_key_index_eq: "tx_primary_key_index s = schema_pk s"
  by (simp add: tx_primary_key_index_def schema_pk_def pk_position_def)

lemma abs_store_Some: "abs_store en n = Some (s, old) \<longleftrightarrow> get_table_schema en n = Ok s \<and> scan en n = Ok old"
  by (cases "en_tables en n") (auto simp: abs_store_def abs_tables_def get_table_schema_def scan_def)

lemma pend_fits_lengths:
  assumes "pend_fits (abs_store en) n rows" "get_table_schema en n = Ok s" "schema_pk s = Some i"
  shows "\<forall>r \<in> set rows. i < length r"
  using assms schema_pk_less [OF assms(3)] by (auto simp: pend_fits_def abs_store_Some)

lemma tx_check_iff:
  assumes inv: "store_inv en" and fit: "pend_fits (abs_store en) n (pending_rows tx n)"
  shows "tx_check en tx n row = Ok () \<longleftrightarrow>
      (\<exists>s old. abs_store en n = Some (s, old) \<and> length row = length (ts_columns s)
         \<and> key_fresh s (old @ pending_rows tx n) row)"
    and "\<not> is_panic (tx_check en tx n row)"
proof -
  have both: "(tx_check en tx n row = Ok () \<longleftrightarrow>
      (\<exists>s old. abs_store en n = Some (s, old) \<and> length row = length (ts_columns s)
         \<and> key_fresh s (old @ pending_rows tx n) row)) \<and> \<not> is_panic (tx_check en tx n row)"
  proof (cases "get_table_schema en n")
    case (Inl x)
    then show ?thesis
      by (auto simp: tx_check_def abs_store_Some is_panic_def get_table_schema_def err_no_table_def result_simps ok_or_def
          split: option.splits)
  next
    case (Inr s)
    obtain old where old: "scan en n = Ok old" using store_view.rows_total [OF inv Inr] by blast
    then have a: "abs_store en n = Some (s, old)" using Inr by (simp add: abs_store_Some)
    show ?thesis
    proof (cases "length row = length (ts_columns s)")
      case False
      then show ?thesis using Inr a by (simp add: tx_check_def is_panic_def err_column_count_def)
    next
      case len: True
      show ?thesis
      proof (cases "schema_pk s")
        case None
        then show ?thesis using Inr a len
          by (simp add: tx_check_def is_panic_def tx_primary_key_index_eq key_fresh_def)
      next
        case (Some i)
        have "i < length row" using schema_pk_less [OF Some] len by simp
        moreover have "any_key i (row ! i) (pending_rows tx n) = Ok (\<exists>r \<in> set (pending_rows tx n). r ! i = row ! i)"
          by (rule any_key_Ok [OF pend_fits_lengths [OF fit Inr Some]])
        moreover have "lookup_by_primary_key en n (row ! i) = Ok (find (\<lambda>r. r ! i = row ! i) old)"
          using store_view.by_key_find [OF inv Inr Some] old by simp
        ultimately have "tx_check en tx n row =
            (if find (\<lambda>r. r ! i = row ! i) old \<noteq> None \<or> (\<exists>r \<in> set (pending_rows tx n). r ! i = row ! i)
             then Inl (err_duplicate_entry (row ! i)) else Ok ())"
          using Inr len Some by (simp add: tx_check_def tx_primary_key_index_eq)
        moreover have "find (\<lambda>r. r ! i = row ! i) old \<noteq> None \<longleftrightarrow> (\<exists>r \<in> set old. r ! i = row ! i)"
          by (auto simp: find_None_iff)
        moreover have "key_fresh s (old @ pending_rows tx n) row \<longleftrightarrow>
            \<not> (\<exists>r \<in> set old. r ! i = row ! i) \<and> \<not> (\<exists>r \<in> set (pending_rows tx n). r ! i = row ! i)"
          unfolding key_fresh_def Some option.case set_map set_append image_iff by (metis Un_iff)
        ultimately show ?thesis using a len by (simp add: is_panic_def err_duplicate_entry_def)
      qed
    qed
  qed
  then show "tx_check en tx n row = Ok () \<longleftrightarrow>
      (\<exists>s old. abs_store en n = Some (s, old) \<and> length row = length (ts_columns s)
         \<and> key_fresh s (old @ pending_rows tx n) row)" by blast
  from both show "\<not> is_panic (tx_check en tx n row)" by blast
qed

lemma pending_rows_upd [simp]:
  "pending_rows (tx\<lparr>tx_pending := (tx_pending tx)(n \<mapsto> rows)\<rparr>) k = (if k = n then rows else pending_rows tx k)"
  by (simp add: pending_rows_def)

lemma tx_insert_row_fits:
  assumes inv: "store_inv en" and fits: "tx_fits (abs_store en) tx" and i: "tx_insert_row en tx n row = (r, tx')"
  shows "tx_fits (abs_store en) tx'" "tx_locked tx' = tx_locked tx"
    "\<And>k. k \<noteq> n \<Longrightarrow> pending_rows tx' k = pending_rows tx k"
proof -
  have f: "pend_fits (abs_store en) n (pending_rows tx n)" using fits by (simp add: tx_fits_def)
  show "tx_locked tx' = tx_locked tx" "\<And>k. k \<noteq> n \<Longrightarrow> pending_rows tx' k = pending_rows tx k"
    using i by (auto simp: tx_insert_row_def split: sum.splits)
  show "tx_fits (abs_store en) tx'"
  proof (cases "tx_check en tx n row")
    case (Inl x)
    then show ?thesis using i fits by (simp add: tx_insert_row_def)
  next
    case (Inr u)
    then obtain s old where a: "abs_store en n = Some (s, old)" "length row = length (ts_columns s)"
      "key_fresh s (old @ pending_rows tx n) row"
      using tx_check_iff(1) [OF inv f, of row] by auto
    have d: "distinct (map (\<lambda>r. r ! j) (old @ pending_rows tx n))" if "schema_pk s = Some j" for j
    proof (cases "pending_rows tx n = []")
      case True
      then show ?thesis using store_view.keys_distinct [OF inv, of n s j old] a(1) that by (simp add: abs_store_Some)
    next
      case False
      then show ?thesis using f a(1) that by (auto simp: pend_fits_def)
    qed
    have w: "\<forall>r \<in> set (pending_rows tx n). length r = length (ts_columns s)"
      using f a(1) by (auto simp: pend_fits_def)
    have "pend_fits (abs_store en) n (pending_rows tx n @ [row])"
      unfolding pend_fits_def using a d w by (auto simp: key_fresh_def)
    then show ?thesis using Inr i fits by (auto simp: tx_insert_row_def tx_fits_def)
  qed
qed

lemma tx_insert_rows_fits:
  assumes "store_inv en" "tx_fits (abs_store en) tx" "tx_insert_rows en tx (map (\<lambda>row. (n, row)) rows) = (r, tx')"
  shows "tx_fits (abs_store en) tx' \<and> tx_locked tx' = tx_locked tx
    \<and> (\<forall>k. k \<noteq> n \<longrightarrow> pending_rows tx' k = pending_rows tx k)"
  using assms(2,3)
proof (induction rows arbitrary: tx)
  case (Cons row rows)
  obtain r1 tx1 where 1: "tx_insert_row en tx n row = (r1, tx1)" by fastforce
  note f = tx_insert_row_fits [OF assms(1) Cons.prems(1) 1]
  show ?case
  proof (cases r1)
    case (Inl x)
    with 1 f Cons.prems(2) show ?thesis by auto
  next
    case (Inr u)
    with 1 Cons.prems(2) have "tx_insert_rows en tx1 (map (\<lambda>row. (n, row)) rows) = (r, tx')" by simp
    from Cons.IH [OF f(1) this] f(2,3) show ?thesis by simp
  qed
qed simp

section \<open>The invariant of interleaved transactions\<close>

definition world_inv :: "world \<Rightarrow> bool" where
  "world_inv w \<longleftrightarrow>
     store_inv (w_store w)
     \<and> (\<forall>c tx. w_tx w c = Some tx \<longrightarrow>
          tx_fits (abs_store (w_store w)) tx
          \<and> (\<forall>n. pending_rows tx n \<noteq> [] \<longrightarrow> n \<in> tx_locked tx)
          \<and> (\<forall>n \<in> tx_locked tx. w_locks w n = Some c))"

lemma world_invD:
  assumes "world_inv w" "w_tx w c = Some tx"
  shows "tx_fits (abs_store (w_store w)) tx" "\<And>n. pending_rows tx n \<noteq> [] \<Longrightarrow> w_locks w n = Some c"
    "\<And>n. n \<in> tx_locked tx \<Longrightarrow> w_locks w n = Some c" "\<And>n. pending_rows tx n \<noteq> [] \<Longrightarrow> n \<in> tx_locked tx"
  using assms by (auto simp: world_inv_def)

text \<open>A store step that leaves every locked, existing table alone keeps pending rows fitting.\<close>

lemma tx_fits_mono:
  assumes "tx_fits db tx" "\<And>n. pending_rows tx n \<noteq> [] \<Longrightarrow> db n \<noteq> None \<Longrightarrow> db' n = db n"
  shows "tx_fits db' tx"
proof -
  have "pend_fits db' n (pending_rows tx n)" for n
  proof (cases "pending_rows tx n = []")
    case False
    moreover have f: "pend_fits db n (pending_rows tx n)" using assms(1) by (simp add: tx_fits_def)
    ultimately have "db n \<noteq> None" by (auto simp: pend_fits_def)
    with assms(2) [OF False] f show ?thesis by (simp cong: pend_fits_cong)
  qed simp
  with assms(1) show ?thesis by (simp add: tx_fits_def)
qed

lemma world_inv_store:
  assumes inv: "world_inv w" and s: "store_inv en'"
    and keep: "\<And>n. w_locks w n \<noteq> None \<Longrightarrow> abs_store (w_store w) n \<noteq> None \<Longrightarrow>
      abs_store en' n = abs_store (w_store w) n"
  shows "world_inv (w\<lparr>w_store := en'\<rparr>)"
  unfolding world_inv_def
proof (intro conjI allI impI)
  show "store_inv (w_store (w\<lparr>w_store := en'\<rparr>))" using s by simp
  fix c tx
  assume "w_tx (w\<lparr>w_store := en'\<rparr>) c = Some tx"
  then have c: "w_tx w c = Some tx" by simp
  note d = world_invD [OF inv c]
  show "tx_fits (abs_store (w_store (w\<lparr>w_store := en'\<rparr>))) tx"
    using tx_fits_mono [OF d(1), of "abs_store en'"] d(2) keep by simp
  show "\<And>n. pending_rows tx n \<noteq> [] \<Longrightarrow> n \<in> tx_locked tx" by (rule d(4))
  show "\<forall>n \<in> tx_locked tx. w_locks (w\<lparr>w_store := en'\<rparr>) n = Some c" using d(3) by simp
qed

lemma spec_insert_all_other:
  "spec_insert_all db rows = Some db' \<Longrightarrow> n \<notin> fst ` set rows \<Longrightarrow> db' n = db n"
proof (induction rows arbitrary: db)
  case (Cons tr rows)
  obtain k row where tr: "tr = (k, row)" by (cases tr)
  from Cons.prems(1) tr obtain db1 where 1: "spec_insert db (k, row) = Some db1" "spec_insert_all db1 rows = Some db'"
    by (cases "spec_insert db (k, row)") auto
  have "db1 n = db n" using 1(1) Cons.prems(2) tr by (auto split: option.splits if_splits)
  with Cons.IH [OF 1(2)] Cons.prems(2) show ?case by simp
qed simp

lemma insert_rows_store:
  assumes inv: "store_inv en" and i: "insert_rows io en rows = (r, en')"
  shows "store_inv en'" "\<And>n. n \<notin> fst ` set rows \<Longrightarrow> abs_store en' n = abs_store en n"
proof -
  have both: "store_inv en' \<and> (\<forall>n. n \<notin> fst ` set rows \<longrightarrow> abs_store en' n = abs_store en n)"
  proof (cases "spec_insert_all (abs_store en) rows")
    case None
    with insert_rows_refined [OF inv, where rows = rows and io = io] i inv show ?thesis by auto
  next
    case (Some db)
    obtain rl en1 where le: "log_entry io en (Transaction rows) = (rl, en1)" by fastforce
    have t1: "en_tables en1 = en_tables en" using log_entry_memory [OF le] by (simp add: memory_of_def)
    show ?thesis
    proof (cases "rows = []")
      case True
      with i inv show ?thesis by (simp add: insert_rows_def)
    next
      case False
      with insert_rows_refined [OF inv, where rows = rows and io = io] Some le i t1 inv
        spec_insert_all_other [OF Some] show ?thesis
        by (cases rl) (auto simp: abs_store_def store_inv_def)
    qed
  qed
  from both show "store_inv en'" by blast
  from both show "\<And>n. n \<notin> fst ` set rows \<Longrightarrow> abs_store en' n = abs_store en n" by blast
qed

lemma insert_rows_ok_spec:
  assumes "store_inv en" "insert_rows io en rows = (Ok (), en')"
  shows "spec_insert_all (abs_store en) rows = Some (abs_store en')"
proof (cases "rows = []")
  case True
  with assms show ?thesis by (simp add: insert_rows_def)
next
  case False
  with insert_rows_refined [OF assms(1), where rows = rows and io = io] assms(2) show ?thesis
    by (auto split: option.splits sum.splits)
qed

lemma create_table_store:
  assumes inv: "store_inv en" and c: "create_table io en n cols pk = (r, en')"
  shows "store_inv en' \<and> (\<forall>k. abs_store en k \<noteq> None \<longrightarrow> abs_store en' k = abs_store en k)"
proof -
  have wf: "tables_wf (en_tables en)" using inv by (simp add: store_inv_def)
  obtain rl en1 where le: "log_entry io en (CreateTable n cols pk) = (rl, en1)" by fastforce
  have t1: "en_tables en1 = en_tables en" using log_entry_memory [OF le] by (simp add: memory_of_def)
  show ?thesis
  proof (cases "create_table_check en n cols pk")
    case (Inl x)
    with c inv show ?thesis by (simp add: create_table_def logged_op_def)
  next
    case (Inr u)
    then have f: "en_tables en n = None" and p: "pk \<noteq> None \<longrightarrow> pk_position pk cols \<noteq> None"
      by (auto simp: create_table_check_def result_simps pk_position_def position_Ex list_ex_iff
          split: option.splits if_splits)
    have "en_tables en' = en_tables en \<or> en_tables en' = (en_tables en)(n \<mapsto> new_table cols pk)"
      using c Inr le t1 by (auto simp: create_table_def logged_op_def create_table_apply_def split: sum.splits if_splits)
    then show ?thesis using inv f new_table_wf [OF p]
      by (auto simp: store_inv_def tables_wf_def tables_unique_def abs_store_def abs_tables_upd
          split: if_splits)
  qed
qed

lemma core_store_eq:
  assumes "mem_core (memory_of en') = mem_core (memory_of en)"
  shows "abs_store en' = abs_store en" "tables_unique (en_tables en') = tables_unique (en_tables en)"
proof -
  have c: "map_option core (en_tables en' n) = map_option core (en_tables en n)" for n
    using assms by (intro tables_core_eqD) (simp add: mem_core_def memory_of_def)
  have "abs_store e n = map_option (\<lambda>t. (tb_schema t, tb_rows t)) (map_option core (en_tables e n))" for e n
    by (cases "en_tables e n") (simp_all add: abs_store_def abs_tables_def)
  then show "abs_store en' = abs_store en" using c by (simp add: fun_eq_iff)
  have "keys_unique (core t) = keys_unique t" for t by (simp add: keys_unique_def split: option.split)
  then have "tables_unique ts \<longleftrightarrow> (\<forall>n t. map_option core (ts n) = Some t \<longrightarrow> keys_unique t)" for ts
    by (auto simp: tables_unique_def)
  then show "tables_unique (en_tables en') = tables_unique (en_tables en)"
    using c by (simp del: map_option_eq_Some)
qed

lemma next_auto_store:
  assumes "store_inv en" "next_auto_increment en n = (v, en')"
  shows "store_inv en' \<and> abs_store en' = abs_store en"
proof -
  have c: "mem_core (memory_of en') = mem_core (memory_of en)" and wf: "tables_wf (en_tables en')"
    using next_auto_core [OF assms(2)] assms(1) by (auto simp: store_inv_def)
  then show ?thesis
    using assms(1) core_store_eq [OF c] by (simp add: store_inv_def)
qed

lemma database_store:
  assumes "create_database io en n b = (r, en') \<or> drop_database io en n b = (r, en')"
  shows "en_tables en' = en_tables en"
  using assms log_entry_tables [of io en "CreateDatabase n"] log_entry_tables [of io en "DropDatabase n"]
  by (auto simp: create_database_def drop_database_def logged_op_def create_database_apply_def drop_database_apply_def
      Let_def split: sum.splits if_splits prod.splits)

lemma database_inv:
  assumes "store_inv en" "create_database io en n b = (r, en') \<or> drop_database io en n b = (r, en')"
  shows "store_inv en' \<and> abs_store en' = abs_store en"
  using assms(1) database_store [OF assms(2)] by (simp add: store_inv_def abs_store_def)

lemma world_inv_begin: "world_inv w \<Longrightarrow> w_tx w c = None \<Longrightarrow> world_inv (w\<lparr>w_tx := (w_tx w)(c \<mapsto> tx_new)\<rparr>)"
  by (auto simp: world_inv_def tx_new_def tx_fits_def pending_rows_def)

lemma world_inv_insert:
  assumes inv: "world_inv w" and c: "w_tx w c = Some tx" and l: "ensure_locked w c tx n = Ok (tx1, lk)"
    and i: "tx_insert_rows (w_store w) tx1 (map (\<lambda>row. (n, row)) rows) = (r, tx2)"
  shows "world_inv (w\<lparr>w_tx := (w_tx w)(c \<mapsto> tx2), w_locks := lk\<rparr>)"
proof -
  note d = world_invD [OF inv c]
  have s: "store_inv (w_store w)" using inv by (simp add: world_inv_def)
  have t1: "tx_pending tx1 = tx_pending tx" "tx_locked tx1 = insert n (tx_locked tx)" "lk = (w_locks w)(n \<mapsto> c)"
    using l d(3) by (auto simp: ensure_locked_def fun_upd_idem split: if_splits)
  have f: "w_locks w n = None \<or> w_locks w n = Some c"
    using l d(3) by (auto simp: ensure_locked_def split: if_splits)
  have p: "pending_rows tx1 = pending_rows tx" by (simp add: pending_rows_def t1(1) fun_eq_iff)
  have "tx_fits (abs_store (w_store w)) tx1" using d(1) by (simp add: tx_fits_def p t1(1))
  note f2 = tx_insert_rows_fits [OF s this i]
  have lk: "lk k = w_locks w k" if "w_locks w k = Some c'" "c' \<noteq> c" for k c' using that f t1(3) by auto
  show ?thesis
    unfolding world_inv_def
  proof (intro conjI allI impI)
    show "store_inv (w_store (w\<lparr>w_tx := (w_tx w)(c \<mapsto> tx2), w_locks := lk\<rparr>))" using s by simp
    fix c' tx'
    assume "w_tx (w\<lparr>w_tx := (w_tx w)(c \<mapsto> tx2), w_locks := lk\<rparr>) c' = Some tx'"
    then have c': "if c' = c then tx' = tx2 else w_tx w c' = Some tx'" by (simp split: if_splits)
    have "tx_fits (abs_store (w_store w)) tx' \<and> (\<forall>k. pending_rows tx' k \<noteq> [] \<longrightarrow> k \<in> tx_locked tx')
        \<and> (\<forall>k \<in> tx_locked tx'. lk k = Some c')"
    proof (cases "c' = c")
      case True
      with c' have e: "tx' = tx2" by simp
      have "k \<in> tx_locked tx2" if "pending_rows tx2 k \<noteq> []" for k
        using that f2 p d(4) t1(2) by (cases "k = n") auto
      moreover have "lk k = Some c" if "k \<in> tx_locked tx2" for k
        using that f2 t1(2,3) d(3) by auto
      ultimately show ?thesis using f2 e True by blast
    next
      case False
      with c' have e: "w_tx w c' = Some tx'" by simp
      note d' = world_invD [OF inv e]
      from False lk d'(1,3,4) show ?thesis by fastforce
    qed
    then show "tx_fits (abs_store (w_store (w\<lparr>w_tx := (w_tx w)(c \<mapsto> tx2), w_locks := lk\<rparr>))) tx'"
      "\<And>k. pending_rows tx' k \<noteq> [] \<Longrightarrow> k \<in> tx_locked tx'"
      "\<forall>k \<in> tx_locked tx'. w_locks (w\<lparr>w_tx := (w_tx w)(c \<mapsto> tx2), w_locks := lk\<rparr>) k = Some c'" by simp_all
  qed
qed

lemma world_inv_end:
  assumes inv: "world_inv w" and c: "w_tx w c = Some tx" and s: "store_inv en'"
    and keep: "\<And>n. pending_rows tx n = [] \<Longrightarrow> abs_store en' n = abs_store (w_store w) n"
  shows "world_inv (w\<lparr>w_store := en', w_tx := (w_tx w)(c := None), w_locks := release_locks (w_locks w) c\<rparr>)"
    (is "world_inv ?w'")
  unfolding world_inv_def
proof (intro conjI allI impI)
  show "store_inv (w_store ?w')" using s by simp
  fix c' tx'
  assume "w_tx ?w' c' = Some tx'"
  then have c': "c' \<noteq> c" "w_tx w c' = Some tx'" by (simp_all split: if_splits)
  note d = world_invD [OF inv c] and d' = world_invD [OF inv c'(2)]
  have "pending_rows tx n = []" if "pending_rows tx' n \<noteq> []" for n
    using d(2) [of n] d'(2) [OF that] c'(1) by force
  then show "tx_fits (abs_store (w_store ?w')) tx'"
    using tx_fits_mono [OF d'(1), of "abs_store en'"] keep by simp
  show "\<And>n. pending_rows tx' n \<noteq> [] \<Longrightarrow> n \<in> tx_locked tx'" by (rule d'(4))
  show "\<forall>n \<in> tx_locked tx'. w_locks ?w' n = Some c'" using d'(3) c'(1) by (auto simp: release_locks_def)
qed

lemma commit_rows_names: "fst ` set (commit_rows pord tx) \<subseteq> {n. pending_rows tx n \<noteq> []}"
  by (auto simp: commit_rows_def)

lemma world_inv_step:
  assumes "tx_step pord w w'" "world_inv w"
  shows "world_inv w'"
  using assms
proof cases
  case (step_begin c)
  with assms(2) show ?thesis by (simp add: world_inv_begin)
next
  case (step_insert c tx n tx1 lk rows r tx2)
  with assms(2) show ?thesis by (simp add: world_inv_insert)
next
  case (step_autocommit c n io rows r en')
  have "store_inv (w_store w)" using assms(2) by (simp add: world_inv_def)
  note i = insert_rows_store [OF this step_autocommit(4)]
  have "abs_store en' k = abs_store (w_store w) k" if "w_locks w k \<noteq> None" for k
    using that step_autocommit(3) by (intro i(2)) auto
  then have "world_inv (w\<lparr>w_store := en'\<rparr>)" by (rule world_inv_store [OF assms(2) i(1)])
  with step_autocommit(1) show ?thesis by simp
next
  case (step_commit c tx io r en')
  have "store_inv (w_store w)" using assms(2) by (simp add: world_inv_def)
  note i = insert_rows_store [OF this step_commit(3) [unfolded tx_commit_def]]
  have "abs_store en' n = abs_store (w_store w) n" if "pending_rows tx n = []" for n
    using i(2) [of n] that commit_rows_names [of pord tx] by auto
  with step_commit(1) world_inv_end [OF assms(2) step_commit(2) i(1)] show ?thesis by simp
next
  case (step_rollback c tx)
  have "store_inv (w_store w)" using assms(2) by (simp add: world_inv_def)
  from world_inv_end [OF assms(2) step_rollback(2) this] step_rollback(1) show ?thesis by simp
next
  case (step_create_table io n cols pk r en')
  have "store_inv (w_store w)" using assms(2) by (simp add: world_inv_def)
  note k = create_table_store [OF this step_create_table(2)]
  have "world_inv (w\<lparr>w_store := en'\<rparr>)" using k by (intro world_inv_store [OF assms(2)]) blast+
  with step_create_table(1) show ?thesis by simp
next
  case (step_next_auto n v en')
  have "store_inv (w_store w)" using assms(2) by (simp add: world_inv_def)
  from next_auto_store [OF this step_next_auto(2)] step_next_auto(1) assms(2) show ?thesis
    by (simp add: world_inv_store)
next
  case (step_create_database io n b r en')
  have "store_inv (w_store w)" using assms(2) by (simp add: world_inv_def)
  from database_inv [OF this disjI1 [OF step_create_database(2)]] step_create_database(1) assms(2) show ?thesis
    by (simp add: world_inv_store)
next
  case (step_drop_database io n b r en')
  have "store_inv (w_store w)" using assms(2) by (simp add: world_inv_def)
  from database_inv [OF this disjI2 [OF step_drop_database(2)]] step_drop_database(1) assms(2) show ?thesis
    by (simp add: world_inv_store)
qed

lemma world_inv_start: "store_inv en \<Longrightarrow> world_inv (world_start en)"
  by (simp add: world_inv_def world_start_def)

lemma world_inv_reachable: "(tx_step pord)\<^sup>*\<^sup>* w w' \<Longrightarrow> world_inv w \<Longrightarrow> world_inv w'"
  by (induction rule: rtranclp_induct) (simp_all add: world_inv_step)

section \<open>A transaction as a view of the store\<close>

definition tx_inv :: "engine \<times> tx \<Rightarrow> bool" where
  "tx_inv et \<longleftrightarrow> store_inv (fst et) \<and> tx_fits (abs_store (fst et)) (snd et)"

lemma tx_scan_rows:
  assumes "tx_inv (en, tx)" "get_table_schema en n = Ok s"
  obtains old where "scan en n = Ok old" "tx_scan en tx n = Ok (old @ pending_rows tx n)"
    "\<forall>r \<in> set (old @ pending_rows tx n). length r = length (ts_columns s)"
    "\<forall>i. schema_pk s = Some i \<longrightarrow> distinct (map (\<lambda>r. r ! i) (old @ pending_rows tx n))"
proof -
  have inv: "store_inv en" and f: "pend_fits (abs_store en) n (pending_rows tx n)"
    using assms(1) by (auto simp: tx_inv_def tx_fits_def)
  obtain old where old: "scan en n = Ok old" using store_view.rows_total [OF inv assms(2)] by blast
  then have a: "abs_store en n = Some (s, old)" using assms(2) by (simp add: abs_store_Some)
  from store_view.widths [OF inv assms(2) old] store_view.keys_distinct [OF inv assms(2) _ old] f a old
  show thesis
    by (intro that [of old]; cases "pending_rows tx n = []")
      (auto simp: tx_scan_def pend_fits_def simp del: distinct_append map_append)
qed

interpretation tx_view: storage_view tx_inv "\<lambda>(en, tx). get_table_schema en" "\<lambda>(en, tx). tx_scan en tx"
  "\<lambda>(en, tx). tx_scan_filtered en tx" "\<lambda>(en, tx). tx_lookup_by_primary_key en tx"
proof (unfold_locales, goal_cases)
  case (1 s n P)
  obtain en tx where s: "s = (en, tx)" by (cases s)
  then have "store_inv en" using 1 by (simp add: tx_inv_def)
  from store_view.filtered_rows [OF this, of n P] s show ?case
    by (cases "scan en n") (simp_all add: tx_scan_filtered_def tx_scan_def)
next
  case (2 s n sch i k)
  obtain en tx where s: "s = (en, tx)" by (cases s)
  with 2 have i: "tx_inv (en, tx)" "get_table_schema en n = Ok sch" by simp_all
  then have inv: "store_inv en" by (simp add: tx_inv_def)
  obtain old where old: "scan en n = Ok old" "tx_scan en tx n = Ok (old @ pending_rows tx n)"
    "\<forall>r \<in> set (old @ pending_rows tx n). length r = length (ts_columns sch)"
    using tx_scan_rows [OF i] by metis
  have f: "find_key i k (pending_rows tx n) = Ok (find (\<lambda>r. r ! i = k) (pending_rows tx n))"
    using old(3) schema_pk_less [OF 2(3)] by (intro find_key_Ok) auto
  have fa: "find P (xs @ ys) = (case find P xs of None \<Rightarrow> find P ys | Some x \<Rightarrow> Some x)" for P :: "row \<Rightarrow> bool" and xs ys
    by (induction xs) auto
  from store_view.by_key_find [OF inv i(2) 2(3), of k] old(1,2) f s i(2) 2(3) show ?case
    by (simp add: tx_lookup_by_primary_key_def tx_primary_key_index_eq fa split: option.split)
next
  case (3 s n sch i rows)
  obtain en tx where s: "s = (en, tx)" by (cases s)
  with 3 have i: "tx_inv (en, tx)" "get_table_schema en n = Ok sch" by simp_all
  show ?case using tx_scan_rows [OF i] 3(3,4) s by (metis case_prod_conv sum.inject(2))
next
  case (4 s n sch rows)
  obtain en tx where s: "s = (en, tx)" by (cases s)
  with 4 have i: "tx_inv (en, tx)" "get_table_schema en n = Ok sch" by simp_all
  show ?case using tx_scan_rows [OF i] 4(3) s by (metis case_prod_conv sum.inject(2))
next
  case (5 s n sch)
  obtain en tx where s: "s = (en, tx)" by (cases s)
  with 5 have i: "tx_inv (en, tx)" "get_table_schema en n = Ok sch" by simp_all
  show ?case using tx_scan_rows [OF i] s by (metis case_prod_conv)
qed

lemma world_tx_inv: "world_inv w \<Longrightarrow> w_tx w c = Some tx \<Longrightarrow> tx_inv (w_store w, tx)"
  by (simp add: tx_inv_def world_inv_def)

lemma step_keeps_locked:
  assumes "tx_step pord w w'" and inv: "world_inv w" and c: "w_tx w c = Some tx" and n: "n \<in> tx_locked tx"
    and alive: "w_tx w' c \<noteq> None" and ex: "abs_store (w_store w) n \<noteq> None"
  shows "abs_store (w_store w') n = abs_store (w_store w) n"
proof -
  have s: "store_inv (w_store w)" using inv by (simp add: world_inv_def)
  have l: "w_locks w n = Some c" using world_invD(3) [OF inv c] n by blast
  from assms(1) show ?thesis
  proof cases
    case (step_autocommit c' m io rows r en')
    then have "n \<noteq> m" using l by auto
    then have "n \<notin> fst ` set (map (\<lambda>row. (m, row)) rows)" by auto
    from insert_rows_store(2) [OF s step_autocommit(4) this] step_autocommit(1) show ?thesis by simp
  next
    case (step_commit c' tx' io r en')
    have "c' \<noteq> c" using step_commit(1) alive by auto
    then have "pending_rows tx' n = []" using world_invD(2) [OF inv step_commit(2), of n] l by force
    then have "n \<notin> fst ` set (commit_rows pord tx')" using commit_rows_names [of pord tx'] by blast
    from insert_rows_store(2) [OF s step_commit(3) [unfolded tx_commit_def] this] step_commit(1) show ?thesis by simp
  next
    case (step_create_table io m cols pk r en')
    from create_table_store [OF s step_create_table(2)] ex step_create_table(1) show ?thesis by simp
  next
    case (step_next_auto m v en')
    from next_auto_store [OF s step_next_auto(2)] step_next_auto(1) show ?thesis by simp
  next
    case (step_create_database io m b r en')
    from database_inv [OF s disjI1 [OF step_create_database(2)]] step_create_database(1) show ?thesis by simp
  next
    case (step_drop_database io m b r en')
    from database_inv [OF s disjI2 [OF step_drop_database(2)]] step_drop_database(1) show ?thesis by simp
  qed auto
qed

section \<open>A sample run\<close>

definition sorted_pending :: "(string \<rightharpoonup> row list) \<Rightarrow> string list" where
  "sorted_pending m = sorted_list_of_set (dom m)"

lemma sorted_pending_order: "pending_order sorted_pending"
  by (simp add: pending_order_def sorted_pending_def)

definition demo_tx :: tx where
  "demo_tx = \<lparr>tx_pending = [''t'' \<mapsto> [[VInt 9, VNull]]], tx_locked = {''t''}\<rparr>"

definition demo_world :: world where
  "demo_world = \<lparr>w_store = demo_store, w_tx = [1 \<mapsto> demo_tx], w_locks = [''t'' \<mapsto> 1]\<rparr>"

lemmas tx_defs = tx_check_def tx_insert_row_def lookup_by_primary_key_def get_table_schema_def pending_rows_def
  tx_primary_key_index_def scan_def demo_store_tables new_table_def demo_columns_def demo_tx_def

lemma demo_world_reachable: "(tx_step sorted_pending)\<^sup>*\<^sup>* (world_start demo_store) demo_world"
proof -
  let ?w = "(world_start demo_store)\<lparr>w_tx := (w_tx (world_start demo_store))(1 \<mapsto> tx_new)\<rparr>"
  let ?tx = "tx_new\<lparr>tx_locked := {''t''}\<rparr>"
  have "tx_step sorted_pending (world_start demo_store) ?w"
    by (rule step_begin) (simp add: world_start_def)
  moreover have "tx_step sorted_pending ?w (?w\<lparr>w_tx := (w_tx ?w)(1 \<mapsto> demo_tx), w_locks := [''t'' \<mapsto> 1]\<rparr>)"
  proof (rule step_insert)
    show "w_tx ?w 1 = Some tx_new" by simp
    show "ensure_locked ?w 1 tx_new ''t'' = Ok (?tx, [''t'' \<mapsto> 1])"
      by (simp add: ensure_locked_def world_start_def tx_new_def)
    show "tx_insert_rows (w_store ?w) ?tx (map (\<lambda>row. (''t'', row)) [[VInt 9, VNull]]) = (Ok (), demo_tx)"
      by (simp add: tx_defs world_start_def tx_new_def)
  qed
  moreover have "?w\<lparr>w_tx := (w_tx ?w)(1 \<mapsto> demo_tx), w_locks := [''t'' \<mapsto> 1]\<rparr> = demo_world"
    by (simp add: world_start_def demo_world_def)
  ultimately show ?thesis by (metis r_into_rtranclp rtranclp_trans)
qed

lemma demo_world_inv: "world_inv demo_world"
  by (rule world_inv_reachable [OF demo_world_reachable world_inv_start [OF demo_store_inv]])

section \<open>Properties of transactions\<close>



text \<open>
  Claim (C14). Read your own writes, and only them. What a transaction scans before its commit is
  what every connection scans after it succeeds, table by table, and its key lookup agrees with a
  filtered scan of that overlay.
\<close>

theorem transaction_reads_its_commit:
  assumes "store_inv en" "(tx_step pord)\<^sup>*\<^sup>* (world_start en) w" "pending_order pord"
    and "w_tx w c = Some tx" "tx_commit pord io (w_store w) tx = (Ok (), en')"
    and "get_table_schema (w_store w) n = Ok s"
  shows "scan en' n = tx_scan (w_store w) tx n
    \<and> (\<forall>i k. schema_pk s = Some i \<longrightarrow>
         map_result (\<lambda>m. case m of None \<Rightarrow> [] | Some r \<Rightarrow> [r]) (tx_lookup_by_primary_key (w_store w) tx n k) =
         scan_filtered en' n (\<lambda>r. r ! i = k))"
proof -
  have inv: "world_inv w" by (rule world_inv_reachable [OF assms(2) world_inv_start [OF assms(1)]])
  note ti = world_tx_inv [OF inv assms(4)]
  have si: "store_inv (w_store w)" using inv by (simp add: world_inv_def)
  have s': "store_inv en'" by (rule insert_rows_store(1) [OF si assms(5) [unfolded tx_commit_def]])
  have sp: "spec_insert_all (abs_store (w_store w)) (commit_rows pord tx) =
      Some (add_pending (abs_store (w_store w)) (pending_rows tx))"
    by (rule spec_commit [OF assms(3) world_invD(1) [OF inv assms(4)]])
  have a: "abs_store en' = add_pending (abs_store (w_store w)) (pending_rows tx)"
    using insert_rows_ok_spec [OF si assms(5) [unfolded tx_commit_def]] sp by simp
  obtain old where o: "scan (w_store w) n = Ok old" "tx_scan (w_store w) tx n = Ok (old @ pending_rows tx n)"
    using tx_scan_rows [OF ti assms(6)] by metis
  then have "abs_store (w_store w) n = Some (s, old)" using assms(6) by (simp add: abs_store_Some)
  then have "abs_store en' n = Some (s, old @ pending_rows tx n)" by (simp add: a add_pending_def)
  then have sc: "scan en' n = tx_scan (w_store w) tx n" using o(2) by (simp add: abs_store_Some)
  have "map_result (\<lambda>m. case m of None \<Rightarrow> [] | Some r \<Rightarrow> [r]) (tx_lookup_by_primary_key (w_store w) tx n k) =
      scan_filtered en' n (\<lambda>r. r ! i = k)" if "schema_pk s = Some i" for i k
    using tx_view.key_lookup_filter [OF ti, of n s i k] tx_view.filtered_rows [OF ti, of n]
      store_view.filtered_rows [OF s', of n] sc assms(6) that by simp
  with sc show ?thesis by blast
qed

theorem transaction_reads_its_commit_witness:
  "\<exists>en'. tx_commit sorted_pending IoOk demo_store demo_tx = (Ok (), en') \<and> scan en' ''t'' = tx_scan demo_store demo_tx ''t''"
proof -
  obtain lg where lg: "en_log demo_store = Some lg" using demo_store_ok by (auto simp: store_ok_def durable_def)
  have w: "w_tx demo_world 1 = Some demo_tx" "w_store demo_world = demo_store" by (simp_all add: demo_world_def)
  have "fst (tx_commit sorted_pending IoOk demo_store demo_tx) = Ok ()"
    by (simp add: tx_commit_def commit_rows_def sorted_pending_def tx_defs op_defs Let_def lg batch_step_def row_check_def
        check_insertable_def primary_key_value_def push_named_def push_trusted_def push_index_def push_auto_def)
  then obtain en' where c: "tx_commit sorted_pending IoOk demo_store demo_tx = (Ok (), en')" by (metis prod.collapse)
  have "get_table_schema demo_store ''t'' = Ok \<lparr>ts_columns = demo_columns, ts_primary_key = Some ''id''\<rparr>"
    by (simp add: tx_defs)
  from transaction_reads_its_commit [OF demo_store_inv demo_world_reachable sorted_pending_order w(1)
      c [folded w(2)] this [folded w(2)]] c w(2) show ?thesis by simp
qed




section \<open>ALTER TABLE under an open transaction\<close>

definition heap_column :: "string \<Rightarrow> column_schema" where
  "heap_column c = \<lparr>cs_name = c, cs_type = TInt, cs_nullable = True, cs_auto_increment = False\<rparr>"

definition heap_store :: engine where
  "heap_store = new_storage\<lparr>en_tables := [''h'' \<mapsto> new_table [heap_column ''a''] None]\<rparr>"

lemmas alter_defs = alter_table_def alter_table_check_def alter_table_apply_def
  alter_add_column_def alter_drop_column_def alter_add_primary_key_def vec_remove_def op_defs Let_def
  push_trusted_def push_index_def push_auto_def

text \<open>
  \<^verbatim>\<open>ALTER TABLE\<close> takes no table lock, so another connection can run it while a
  transaction holds the table. Dropping a column then makes the commit fail on the row width that
  was right when the row was buffered.
\<close>

theorem alter_breaks_commit:
  "\<exists>en'. alter_table IoOk demo_store ''t'' (DropColumn ''v'') = (Ok (), en')
     \<and> fst (tx_commit sorted_pending IoOk en' demo_tx) = Inl (err_column_count ''t'' 1 2)"
proof -
  obtain lg where lg: "en_log demo_store = Some lg" using demo_store_ok by (auto simp: store_ok_def durable_def)
  obtain r en' where a: "alter_table IoOk demo_store ''t'' (DropColumn ''v'') = (r, en')" by fastforce
  then have "r = Ok () \<and> en_tables en' ''t'' = Some ((new_table [hd demo_columns] (Some ''id''))\<lparr>tb_rows := [[VInt 7]],
      tb_index := [VInt 7 \<mapsto> 0], tb_auto := Some (0, 8)\<rparr>)"
    by (auto simp: alter_defs lg demo_store_tables new_table_def demo_columns_def max_i64_def)
  moreover from this have "fst (tx_commit sorted_pending IoOk en' demo_tx) = Inl (err_column_count ''t'' 1 2)"
    by (simp add: tx_commit_def commit_rows_def sorted_pending_def op_defs batch_step_def row_check_def
        demo_tx_def pending_rows_def new_table_def numeral_2_eq_2)
  ultimately show ?thesis using a by blast
qed


end
