(* ===== verification/Storage_Races.thy ===== *)
theory Storage_Races
  imports Storage_Spec
begin

text \<open>
  The three phases of a mutating operation of \<^verbatim>\<open>InMemoryStorage\<close>, interleaved.  An operation
  checks under the read lock, appends to the log with no lock held, and applies under the write lock
  (\<^verbatim>\<open>src/src/storage/engine.rs\<close>, lines 639 to 974); between the phases other connections run.
  Inserts are protected by the table locks the connection holds around the whole statement;
  \<^verbatim>\<open>CREATE TABLE\<close> is protected by nothing.
\<close>

section \<open>Phases\<close>

datatype phase = Checked | Logged

record race =
  rc_store :: engine
  rc_flight :: "nat \<rightharpoonup> op \<times> phase"

text \<open>The first phase: whether the operation goes on to append its record.\<close>

fun op_proceeds :: "engine \<Rightarrow> op \<Rightarrow> bool" where
  "op_proceeds en (CreateTableOp n cols pk) = (create_table_check en n cols pk = Ok ())"
| "op_proceeds en (AlterTableOp n ch) = (\<not> isl (alter_table_check en n ch))"
| "op_proceeds en (InsertRowOp n row) = (insert_row_check en n row = Ok ())"
| "op_proceeds en (InsertRowsOp rows) = (rows \<noteq> [] \<and> insert_rows_check en rows = Ok ())"
| "op_proceeds en (NextAutoOp n) = False"
| "op_proceeds en (CreateDatabaseOp n b) = (n \<notin> en_databases en)"
| "op_proceeds en (DropDatabaseOp n b) = (n \<in> en_databases en \<or> b)"

text \<open>The third phase.\<close>

fun op_apply :: "op \<Rightarrow> engine \<Rightarrow> unit result \<times> engine" where
  "op_apply (CreateTableOp n cols pk) en = create_table_apply n cols pk en"
| "op_apply (AlterTableOp n ch) en = alter_table_apply n ch en"
| "op_apply (InsertRowOp n row) en = insert_row_apply n row en"
| "op_apply (InsertRowsOp rows) en = insert_rows_apply rows en"
| "op_apply (NextAutoOp n) en = (Ok (), en)"
| "op_apply (CreateDatabaseOp n b) en = create_database_apply n b en"
| "op_apply (DropDatabaseOp n b) en = drop_database_apply n b en"

fun op_tables :: "op \<Rightarrow> string set" where
  "op_tables (InsertRowOp n row) = {n}"
| "op_tables (InsertRowsOp rows) = fst ` set rows"
| "op_tables _ = {}"

fun is_insert :: "op \<Rightarrow> bool" where
  "is_insert (InsertRowOp n row) = True"
| "is_insert (InsertRowsOp rows) = True"
| "is_insert _ = False"

text \<open>
  The parameter \<open>may\<close> says which operations may start beside those in flight: everything in the
  unrestricted system, inserts into tables no other insert holds under the table locks.
\<close>

inductive race_step :: "(race \<Rightarrow> op \<Rightarrow> bool) \<Rightarrow> race \<Rightarrow> race \<Rightarrow> bool" for may where
  race_check: "rc_flight w c = None \<Longrightarrow> may w opn \<Longrightarrow> op_loggable opn \<Longrightarrow> op_proceeds (rc_store w) opn \<Longrightarrow>
    race_step may w (w\<lparr>rc_flight := (rc_flight w)(c \<mapsto> (opn, Checked))\<rparr>)"
| race_log: "rc_flight w c = Some (opn, Checked) \<Longrightarrow> op_entry opn = Some e \<Longrightarrow>
    log_entry IoOk (rc_store w) e = (r, en1) \<Longrightarrow>
    race_step may w (w\<lparr>rc_store := en1, rc_flight := (rc_flight w)(c \<mapsto> (opn, Logged))\<rparr>)"
| race_apply: "rc_flight w c = Some (opn, Logged) \<Longrightarrow> op_apply opn (rc_store w) = (r, en') \<Longrightarrow>
    race_step may w (w\<lparr>rc_store := en', rc_flight := (rc_flight w)(c := None)\<rparr>)"
| race_auto: "next_auto_increment (rc_store w) n = (v, en') \<Longrightarrow> race_step may w (w\<lparr>rc_store := en'\<rparr>)"

definition locked_insert :: "race \<Rightarrow> op \<Rightarrow> bool" where
  "locked_insert w opn \<longleftrightarrow>
     is_insert opn
     \<and> (\<forall>c o' p. rc_flight w c = Some (o', p) \<longrightarrow> op_tables opn \<inter> op_tables o' = {})"

definition race_start :: "engine \<Rightarrow> race" where
  "race_start en = \<lparr>rc_store = en, rc_flight = Map.empty\<rparr>"

section \<open>Inserts as pushes of rows\<close>

fun op_rows :: "op \<Rightarrow> (string \<times> row) list" where
  "op_rows (InsertRowOp n row) = [(n, row)]"
| "op_rows (InsertRowsOp rows) = rows"
| "op_rows _ = []"

lemma op_tables_rows: "is_insert opn \<Longrightarrow> op_tables opn = fst ` set (op_rows opn)"
  by (cases opn) auto

lemma insert_entry_apply:
  assumes "is_insert opn" "op_entry opn = Some e"
  shows "apply_entry m e = map_result (\<lambda>ts. (ts, snd m)) (foldR push_named (fst m) (op_rows opn))"
  using assms by (cases opn; cases m) (auto simp: foldR_map result_simps split: sum.split)

definition rows_for :: "string \<Rightarrow> (string \<times> row) list \<Rightarrow> row list" where
  "rows_for n rows = map snd (filter (\<lambda>tr. fst tr = n) rows)"

lemma rows_for_simps [simp]:
  "rows_for n [] = []"
  "rows_for n (tr # trs) = (if fst tr = n then snd tr # rows_for n trs else rows_for n trs)"
  by (simp_all add: rows_for_def)

lemma rows_for_Nil: "n \<notin> fst ` set rows \<Longrightarrow> rows_for n rows = []"
  by (induction rows) auto

text \<open>A batch acts on each table by the rows it has for it.\<close>

lemma push_named_table:
  assumes "foldR push_named ts rows = Ok ts'"
  shows "case ts n of None \<Rightarrow> ts' n = None
    | Some t \<Rightarrow> \<exists>t'. ts' n = Some t' \<and> foldR push_trusted t (rows_for n rows) = Ok t'"
  using assms
proof (induction rows arbitrary: ts)
  case Nil
  then show ?case by (simp split: option.split)
next
  case (Cons tr rows)
  then obtain us where u: "push_named ts tr = Ok us" "foldR push_named us rows = Ok ts'"
    by (auto simp: result_simps)
  note IH = Cons.IH [OF u(2)]
  show ?case
  proof (cases "fst tr = n")
    case False
    then have "us n = ts n" using u(1) by (auto simp: push_named_def result_simps split: option.splits)
    with IH False show ?thesis by (simp split: option.splits)
  next
    case True
    show ?thesis
    proof (cases "ts n")
      case None
      then have "us = ts" using u(1) True by (simp add: push_named_def)
      with IH None show ?thesis by simp
    next
      case (Some t)
      then obtain t1 where "push_trusted t (snd tr) = Ok t1" "us n = Some t1"
        using u(1) True by (auto simp: push_named_def result_simps)
      with IH Some True show ?thesis by simp
    qed
  qed
qed

lemma foldR_push_trusted_core:
  "core t = core u \<Longrightarrow> foldR push_trusted t rows = Ok t' \<Longrightarrow>
    \<exists>u'. foldR push_trusted u rows = Ok u' \<and> core t' = core u'"
proof (induction rows arbitrary: t u)
  case (Cons row rows)
  then obtain t1 where t1: "push_trusted t row = Ok t1" "foldR push_trusted t1 rows = Ok t'"
    by (auto simp: result_simps)
  obtain u1 where "push_trusted u row = Ok u1" "core t1 = core u1"
    using map_result_cong_Inr [OF push_trusted_core [OF Cons.prems(1), of row] t1(1)] by blast
  with Cons.IH [OF this(2) t1(2)] show ?case by auto
qed simp

lemma foldR_push_trusted_rows:
  "foldR push_trusted t rows = Ok t' \<Longrightarrow> tb_rows t' = tb_rows t @ rows \<and> tb_schema t' = tb_schema t"
proof (induction rows arbitrary: t)
  case (Cons row rows)
  then obtain t1 where "push_trusted t row = Ok t1" "foldR push_trusted t1 rows = Ok t'"
    by (auto simp: result_simps)
  with Cons.IH [OF this(2)] push_trusted_shape [OF this(1)] show ?case by simp
qed simp

section \<open>What the locks keep\<close>

text \<open>The replayed table \<open>m\<close> is the table in memory with \<open>rows\<close> still to be applied to it.\<close>

definition ahead_by :: "row list \<Rightarrow> tbl option \<Rightarrow> tbl option \<Rightarrow> bool" where
  "ahead_by rows t m \<longleftrightarrow>
     (case t of None \<Rightarrow> m = None
      | Some t \<Rightarrow> \<exists>t' m'. foldR push_trusted t rows = Ok t' \<and> m = Some m' \<and> core m' = core t')"

lemma ahead_by_core:
  assumes "ahead_by rows t m" "map_option core t = map_option core u"
  shows "ahead_by rows u m"
proof (cases t)
  case None
  with assms show ?thesis by (simp add: ahead_by_def)
next
  case (Some x)
  then obtain y where y: "u = Some y" "core x = core y" using assms(2) by (cases u) auto
  from assms(1) Some obtain t' m' where t: "foldR push_trusted x rows = Ok t'" "m = Some m'" "core m' = core t'"
    by (auto simp: ahead_by_def)
  from foldR_push_trusted_core [OF y(2) t(1)] t y show ?thesis by (auto simp: ahead_by_def)
qed

lemma ahead_by_log:
  assumes "ahead_by [] (ts n) (ms n)" "foldR push_named ms rows = Ok ms'"
  shows "ahead_by (rows_for n rows) (ts n) (ms' n)"
proof (cases "ts n")
  case None
  with assms push_named_table [OF assms(2), of n] show ?thesis by (simp add: ahead_by_def)
next
  case (Some t)
  then obtain m where m: "ms n = Some m" "core m = core t" using assms(1) by (auto simp: ahead_by_def)
  then obtain m' where m': "ms' n = Some m'" "foldR push_trusted m (rows_for n rows) = Ok m'"
    using push_named_table [OF assms(2), of n] by auto
  from foldR_push_trusted_core [OF m(2) m'(2)] m' Some show ?thesis by (auto simp: ahead_by_def)
qed

lemma ahead_by_apply:
  assumes "ahead_by (rows_for n rows) (ts n) m" "foldR push_named ts rows = Ok ts'"
  shows "ahead_by [] (ts' n) m"
  using assms(1) push_named_table [OF assms(2), of n] by (cases "ts n") (auto simp: ahead_by_def)

lemma ahead_by_frame:
  assumes "ahead_by rs (ts n) m" "foldR push_named ts rows = Ok ts'" "n \<notin> fst ` set rows"
  shows "ahead_by rs (ts' n) m"
  using assms(1) push_named_table [OF assms(2), of n] rows_for_Nil [OF assms(3)] by (cases "ts n") auto

definition op_fits :: "tables \<Rightarrow> op \<Rightarrow> bool" where
  "op_fits ts opn \<longleftrightarrow> rows_fit ts (op_rows opn) \<and> op_tables opn \<subseteq> dom ts"

definition race_inv :: "entry list \<Rightarrow> memory \<Rightarrow> race \<Rightarrow> bool" where
  "race_inv es m w \<longleftrightarrow>
     tables_wf (en_tables (rc_store w)) \<and> durable (rc_store w)
     \<and> (\<exists>lg. en_log (rc_store w) = Some lg \<and> lg_file lg = frames es) \<and> list_all loggable es
     \<and> replayed es = Ok m \<and> tables_wf (fst m) \<and> snd m = en_databases (rc_store w)
     \<and> (\<forall>c o' p. rc_flight w c = Some (o', p) \<longrightarrow>
          is_insert o' \<and> op_loggable o' \<and> op_fits (en_tables (rc_store w)) o')
     \<and> (\<forall>c d o' q p p'. rc_flight w c = Some (o', p) \<longrightarrow> rc_flight w d = Some (q, p') \<longrightarrow> c \<noteq> d \<longrightarrow>
          op_tables o' \<inter> op_tables q = {})
     \<and> (\<forall>c o' n. rc_flight w c = Some (o', Logged) \<longrightarrow> n \<in> op_tables o' \<longrightarrow>
          ahead_by (rows_for n (op_rows o')) (en_tables (rc_store w) n) (fst m n))
     \<and> (\<forall>n. (\<forall>c o'. rc_flight w c = Some (o', Logged) \<longrightarrow> n \<notin> op_tables o') \<longrightarrow>
          ahead_by [] (en_tables (rc_store w) n) (fst m n))"

lemma race_invD:
  assumes "race_inv es m w"
  shows "tables_wf (en_tables (rc_store w))" "durable (rc_store w)"
    "\<exists>lg. en_log (rc_store w) = Some lg \<and> lg_file lg = frames es" "list_all loggable es" "replayed es = Ok m"
    "tables_wf (fst m)" "snd m = en_databases (rc_store w)"
    "\<And>c o' p. rc_flight w c = Some (o', p) \<Longrightarrow>
       is_insert o' \<and> op_loggable o' \<and> op_fits (en_tables (rc_store w)) o'"
    "\<And>c d o' q p p'. rc_flight w c = Some (o', p) \<Longrightarrow> rc_flight w d = Some (q, p') \<Longrightarrow> c \<noteq> d \<Longrightarrow>
       op_tables o' \<inter> op_tables q = {}"
    "\<And>c o' n. rc_flight w c = Some (o', Logged) \<Longrightarrow> n \<in> op_tables o' \<Longrightarrow>
       ahead_by (rows_for n (op_rows o')) (en_tables (rc_store w) n) (fst m n)"
    "\<And>n. (\<And>c o'. rc_flight w c = Some (o', Logged) \<Longrightarrow> n \<notin> op_tables o') \<Longrightarrow>
       ahead_by [] (en_tables (rc_store w) n) (fst m n)"
  using assms unfolding race_inv_def by blast+

lemma race_invI:
  assumes "rc_store w = en" "rc_flight w = fl" "tables_wf (en_tables en)" "durable en"
    "\<exists>lg. en_log en = Some lg \<and> lg_file lg = frames es" "list_all loggable es" "replayed es = Ok m"
    "tables_wf (fst m)" "snd m = en_databases en"
    "\<And>c o' p. fl c = Some (o', p) \<Longrightarrow> is_insert o' \<and> op_loggable o' \<and> op_fits (en_tables en) o'"
    "\<And>c d o' q p p'. fl c = Some (o', p) \<Longrightarrow> fl d = Some (q, p') \<Longrightarrow> c \<noteq> d \<Longrightarrow> op_tables o' \<inter> op_tables q = {}"
    "\<And>c o' n. fl c = Some (o', Logged) \<Longrightarrow> n \<in> op_tables o' \<Longrightarrow>
       ahead_by (rows_for n (op_rows o')) (en_tables en n) (fst m n)"
    "\<And>n. (\<And>c o'. fl c = Some (o', Logged) \<Longrightarrow> n \<notin> op_tables o') \<Longrightarrow> ahead_by [] (en_tables en n) (fst m n)"
  shows "race_inv es m w"
  unfolding race_inv_def assms(1,2) using assms(3-) by blast

lemma batch_names: "foldR (batch_step ts) seen rows = Ok seen' \<Longrightarrow> fst ` set rows \<subseteq> dom ts"
proof (induction rows arbitrary: seen)
  case (Cons tr rows)
  then obtain s1 where s: "batch_step ts seen tr = Ok s1" "foldR (batch_step ts) s1 rows = Ok seen'"
    by (auto simp: result_simps)
  with Cons.IH [OF s(2)] show ?case
    by (cases tr) (auto simp: batch_step_def result_simps row_check_Ok_iff)
qed simp

lemma insert_proceeds_fits:
  assumes "is_insert opn" "op_proceeds en opn"
  shows "op_fits (en_tables en) opn"
proof (cases opn)
  case (InsertRowOp n row)
  with assms show ?thesis
    by (auto simp: op_fits_def rows_fit_def insert_row_check_def result_simps row_check_Ok_iff)
next
  case (InsertRowsOp rows)
  with assms obtain s where "foldR (batch_step (en_tables en)) (\<lambda>_. {}) rows = Ok s"
    by (auto simp: insert_rows_check_def result_simps)
  from batch_fits [OF this] batch_names [OF this] InsertRowsOp show ?thesis by (simp add: op_fits_def)
qed (use assms in simp_all)

lemma op_fits_mono:
  assumes "op_fits ts opn" "dom ts' = dom ts" "\<And>rows. rows_fit ts rows \<Longrightarrow> rows_fit ts' rows"
  shows "op_fits ts' opn"
  using assms by (simp add: op_fits_def)

lemma push_all_fits:
  assumes "foldR push_named ts rows = Ok ts'"
  shows "dom ts' = dom ts" "rows_fit ts rs \<Longrightarrow> rows_fit ts' rs"
proof -
  have t: "case ts n of None \<Rightarrow> ts' n = None | Some t \<Rightarrow> \<exists>t'. ts' n = Some t' \<and> tb_schema t' = tb_schema t" for n
    using push_named_table [OF assms, of n] foldR_push_trusted_rows by (fastforce split: option.splits)
  show "dom ts' = dom ts" using t by (fastforce split: option.splits)
  show "rows_fit ts' rs" if "rows_fit ts rs"
    unfolding rows_fit_def
  proof (intro allI impI)
    fix n row u
    assume a: "(n, row) \<in> set rs" "ts' n = Some u"
    then obtain v where "ts n = Some v" "tb_schema u = tb_schema v" using t [of n] by (auto split: option.splits)
    with that a(1) show "length row = length (tb_columns u)" by (auto simp: rows_fit_def)
  qed
qed

lemma insert_apply_ok:
  assumes "is_insert opn" "tables_wf (en_tables en)" "op_fits (en_tables en) opn"
  obtains ts where "foldR push_named (en_tables en) (op_rows opn) = Ok ts" "tables_wf ts"
    "op_apply opn en = (Ok (), en\<lparr>en_tables := ts\<rparr>)"
proof -
  obtain ts where ts: "foldR push_named (en_tables en) (op_rows opn) = Ok ts" "tables_wf ts"
    using push_all_named [OF assms(2)] assms(3) unfolding op_fits_def by blast
  have "op_apply opn en = (Ok (), en\<lparr>en_tables := ts\<rparr>)"
  proof (cases opn)
    case (InsertRowOp n row)
    with assms(3) obtain t where t: "en_tables en n = Some t" by (auto simp: op_fits_def)
    then obtain t' where "push_trusted t row = Ok t'" "ts = (en_tables en)(n \<mapsto> t')"
      using ts(1) InsertRowOp by (auto simp: push_named_def result_simps)
    with t InsertRowOp show ?thesis by (simp add: insert_row_apply_def)
  next
    case (InsertRowsOp rows)
    with ts(1) show ?thesis by (simp add: insert_rows_apply_def)
  qed (use assms(1) in simp_all)
  with ts that show thesis by blast
qed

lemma race_inv_check:
  assumes inv: "race_inv es m w" and c: "rc_flight w c = None" and may: "locked_insert w opn"
    and l: "op_loggable opn" and p: "op_proceeds (rc_store w) opn"
  shows "race_inv es m (w\<lparr>rc_flight := (rc_flight w)(c \<mapsto> (opn, Checked))\<rparr>)"
proof -
  note d = race_invD [OF inv]
  have i: "is_insert opn" using may by (simp add: locked_insert_def)
  have f: "op_fits (en_tables (rc_store w)) opn" by (rule insert_proceeds_fits [OF i p])
  have dis: "op_tables opn \<inter> op_tables o' = {}" if "rc_flight w c' = Some (o', ph)" for c' o' ph
    using may that unfolding locked_insert_def by blast
  let ?fl = "(rc_flight w)(c \<mapsto> (opn, Checked))"
  have fl: "?fl c' = Some (o', Logged) \<longleftrightarrow> rc_flight w c' = Some (o', Logged)" for c' o'
    using c by auto
  show ?thesis
  proof (rule race_invI [where en = "rc_store w" and fl = ?fl])
    fix c' o' ph
    assume "?fl c' = Some (o', ph)"
    then show "is_insert o' \<and> op_loggable o' \<and> op_fits (en_tables (rc_store w)) o'"
      using d(8) i l f by (cases "c' = c") auto
  next
    fix c' c'' o' q ph ph'
    assume "?fl c' = Some (o', ph)" "?fl c'' = Some (q, ph')" "c' \<noteq> c''"
    then show "op_tables o' \<inter> op_tables q = {}"
      using d(9) [of c' o' ph c'' q ph'] dis [of c' o' ph] dis [of c'' q ph']
      by (cases "c' = c"; cases "c'' = c") (auto simp: Int_commute)
  next
    fix c' o' n
    assume "?fl c' = Some (o', Logged)" "n \<in> op_tables o'"
    then show "ahead_by (rows_for n (op_rows o')) (en_tables (rc_store w) n) (fst m n)"
      unfolding fl by (rule d(10))
  next
    fix n
    assume "\<And>c o'. ?fl c = Some (o', Logged) \<Longrightarrow> n \<notin> op_tables o'"
    then show "ahead_by [] (en_tables (rc_store w) n) (fst m n)" unfolding fl by (rule d(11))
  qed (use d in simp_all)
qed

lemma log_entry_IoOk:
  assumes "log_entry IoOk en e = (r, en1)" "en_log en = Some lg" "durable en"
  shows "r = Ok () \<and> en_tables en1 = en_tables en \<and> en_databases en1 = en_databases en \<and> durable en1
    \<and> (\<exists>lg'. en_log en1 = Some lg' \<and> lg_file lg' = lg_file lg @ frame e)"
  using assms by (auto simp: log_entry_def log_append_def write_framed_batch_def Let_def durable_def)

lemma race_inv_log:
  assumes inv: "race_inv es m w" and c: "rc_flight w c = Some (opn, Checked)" and e: "op_entry opn = Some e"
    and l: "log_entry IoOk (rc_store w) e = (r, en1)"
  obtains m' where "race_inv (es @ [e]) m' (w\<lparr>rc_store := en1, rc_flight := (rc_flight w)(c \<mapsto> (opn, Logged))\<rparr>)"
proof -
  note d = race_invD [OF inv]
  let ?fl = "(rc_flight w)(c \<mapsto> (opn, Logged))"
  have o: "is_insert opn" "op_loggable opn" "op_fits (en_tables (rc_store w)) opn" using d(8) [OF c] by simp_all
  obtain lg where lg: "en_log (rc_store w) = Some lg" "lg_file lg = frames es" using d(3) by blast
  note en1 = log_entry_IoOk [OF l lg(1) d(2)]
  have ah: "ahead_by [] (en_tables (rc_store w) n) (fst m n)" if "n \<in> op_tables opn" for n
  proof (rule d(11))
    fix c' o'
    assume c': "rc_flight w c' = Some (o', Logged)"
    with c have "c' \<noteq> c" by auto
    with d(9) [OF c' c] that show "n \<notin> op_tables o'" by blast
  qed
  have "rows_fit (fst m) (op_rows opn)"
    unfolding rows_fit_def
  proof (intro allI impI)
    fix n row u
    assume a: "(n, row) \<in> set (op_rows opn)" "fst m n = Some u"
    then have "n \<in> op_tables opn" using op_tables_rows [OF o(1)] by force
    from ah [OF this] a(2) obtain t where t: "en_tables (rc_store w) n = Some t" "core u = core t"
      by (auto simp: ahead_by_def split: option.splits)
    have "tb_schema u = tb_schema t" by (rule core_eqD(1) [OF t(2)])
    with t(1) show "length row = length (tb_columns u)" using o(3) a(1) by (auto simp: op_fits_def rows_fit_def)
  qed
  then obtain ms' where ms: "foldR push_named (fst m) (op_rows opn) = Ok ms'" "tables_wf ms'"
    using push_all_named [OF d(6)] by blast
  let ?m' = "(ms', snd m)"
  have rep: "replayed (es @ [e]) = Ok ?m'" using d(5) insert_entry_apply [OF o(1) e, of m] ms(1) by simp
  have old: "ms' n = fst m n" if "n \<notin> op_tables opn" for n
  proof -
    have "rows_for n (op_rows opn) = []" using that op_tables_rows [OF o(1)] by (simp add: rows_for_Nil)
    then show ?thesis using push_named_table [OF ms(1), of n] by (auto split: option.splits)
  qed
  have fl: "?fl c' = Some (o', ph) \<Longrightarrow> \<exists>ph'. rc_flight w c' = Some (o', ph')" for c' o' ph
    using c by (auto split: if_splits)
  have "race_inv (es @ [e]) ?m' (w\<lparr>rc_store := en1, rc_flight := ?fl\<rparr>)"
  proof (rule race_invI [where en = en1 and fl = ?fl])
    show "\<exists>lg. en_log en1 = Some lg \<and> lg_file lg = frames (es @ [e])" using en1 lg(2) by auto
    show "list_all loggable (es @ [e])" using d(4) o(2) e by (simp add: op_loggable_def)
  next
    fix c' o' ph
    assume "?fl c' = Some (o', ph)"
    from fl [OF this] d(8) en1 show "is_insert o' \<and> op_loggable o' \<and> op_fits (en_tables en1) o'" by auto
  next
    fix c' d' o' q ph ph'
    assume "?fl c' = Some (o', ph)" "?fl d' = Some (q, ph')" "c' \<noteq> d'"
    with fl [OF this(1)] fl [OF this(2)] d(9) show "op_tables o' \<inter> op_tables q = {}" by blast
  next
    fix c' o' n
    assume a: "?fl c' = Some (o', Logged)" "n \<in> op_tables o'"
    show "ahead_by (rows_for n (op_rows o')) (en_tables en1 n) (fst ?m' n)"
    proof (cases "c' = c")
      case True
      with a have "o' = opn" by simp
      with a(2) have "ahead_by [] (en_tables (rc_store w) n) (fst m n)" by (simp add: ah)
      from ahead_by_log [where ts = "en_tables (rc_store w)" and n = n, OF this ms(1)] \<open>o' = opn\<close> en1 show ?thesis by simp
    next
      case False
      with a(1) have c': "rc_flight w c' = Some (o', Logged)" by simp
      with d(9) [OF c' c False] a(2) have "n \<notin> op_tables opn" by blast
      with d(10) [OF c' a(2)] old en1 show ?thesis by simp
    qed
  next
    fix n
    assume a: "\<And>c' o'. ?fl c' = Some (o', Logged) \<Longrightarrow> n \<notin> op_tables o'"
    have "n \<notin> op_tables opn" by (rule a [of c]) simp
    moreover have "ahead_by [] (en_tables (rc_store w) n) (fst m n)"
    proof (rule d(11))
      fix c' o'
      assume c': "rc_flight w c' = Some (o', Logged)"
      then have "c' \<noteq> c" using c by auto
      with c' show "n \<notin> op_tables o'" by (intro a [of c']) simp
    qed
    ultimately show "ahead_by [] (en_tables en1 n) (fst ?m' n)" using old en1 by simp
  qed (use en1 d(1,7) ms(2) rep in simp_all)
  then show thesis by (rule that)
qed

lemma race_inv_apply:
  assumes inv: "race_inv es m w" and c: "rc_flight w c = Some (opn, Logged)"
    and ap: "op_apply opn (rc_store w) = (r, en')"
  shows "r = Ok () \<and> race_inv es m (w\<lparr>rc_store := en', rc_flight := (rc_flight w)(c := None)\<rparr>)"
proof -
  note d = race_invD [OF inv]
  let ?fl = "(rc_flight w)(c := None)"
  have o: "is_insert opn" "op_fits (en_tables (rc_store w)) opn" using d(8) [OF c] by simp_all
  obtain ts where ts: "foldR push_named (en_tables (rc_store w)) (op_rows opn) = Ok ts" "tables_wf ts"
    and r: "r = Ok ()" "en' = (rc_store w)\<lparr>en_tables := ts\<rparr>"
    by (rule insert_apply_ok [OF o(1) d(1) o(2)]) (use ap in auto)
  have tabs: "op_tables opn = fst ` set (op_rows opn)" by (rule op_tables_rows [OF o(1)])
  have fl: "?fl c' = Some x \<longleftrightarrow> c' \<noteq> c \<and> rc_flight w c' = Some x" for c' x by auto
  have "race_inv es m (w\<lparr>rc_store := en', rc_flight := ?fl\<rparr>)"
  proof (rule race_invI [where en = en' and fl = ?fl]; (unfold fl)?)
    fix c' o' ph
    assume "c' \<noteq> c \<and> rc_flight w c' = Some (o', ph)"
    then have "is_insert o' \<and> op_loggable o' \<and> op_fits (en_tables (rc_store w)) o'" using d(8) by blast
    with op_fits_mono [OF _ push_all_fits [OF ts(1)]] r(2)
    show "is_insert o' \<and> op_loggable o' \<and> op_fits (en_tables en') o'" by auto
  next
    fix c' d' o' q ph ph'
    assume "c' \<noteq> c \<and> rc_flight w c' = Some (o', ph)" "d' \<noteq> c \<and> rc_flight w d' = Some (q, ph')" "c' \<noteq> d'"
    with d(9) show "op_tables o' \<inter> op_tables q = {}" by blast
  next
    fix c' o' n
    assume a: "c' \<noteq> c \<and> rc_flight w c' = Some (o', Logged)" "n \<in> op_tables o'"
    then have "n \<notin> op_tables opn" using d(9) [OF _ c, of c' o' Logged] by blast
    then show "ahead_by (rows_for n (op_rows o')) (en_tables en' n) (fst m n)"
      using ahead_by_frame [OF d(10) [of c' o' n] ts(1)] a tabs r(2) by auto
  next
    fix n
    assume a: "\<And>c' o'. c' \<noteq> c \<and> rc_flight w c' = Some (o', Logged) \<Longrightarrow> n \<notin> op_tables o'"
    show "ahead_by [] (en_tables en' n) (fst m n)"
    proof (cases "n \<in> op_tables opn")
      case True
      with ahead_by_apply [OF d(10) [OF c True] ts(1)] r(2) show ?thesis by simp
    next
      case False
      have "ahead_by [] (en_tables (rc_store w) n) (fst m n)"
      proof (rule d(11))
        fix c' o'
        assume "rc_flight w c' = Some (o', Logged)"
        then show "n \<notin> op_tables o'" using a [of c' o'] False c by (cases "c' = c") auto
      qed
      from ahead_by_frame [OF this ts(1)] False tabs r(2) show ?thesis by simp
    qed
  qed (use d(1-7) ts(2) r(2) in \<open>simp_all add: durable_def\<close>)
  with r(1) show ?thesis by simp
qed

lemma race_inv_auto:
  assumes inv: "race_inv es m w" and a: "next_auto_increment (rc_store w) n = (v, en')"
  shows "race_inv es m (w\<lparr>rc_store := en'\<rparr>)"
proof -
  note d = race_invD [OF inv]
  have c: "mem_core (memory_of en') = mem_core (memory_of (rc_store w))" and l: "en_log en' = en_log (rc_store w)"
    and wf: "tables_wf (en_tables en')" using next_auto_core [OF a] d(1) by auto
  have t: "map_option core (en_tables (rc_store w) k) = map_option core (en_tables en' k)" for k
    using c by (intro tables_core_eqD) (simp add: mem_core_def memory_of_def)
  have db: "en_databases en' = en_databases (rc_store w)" using c by (simp add: mem_core_def memory_of_def)
  have f: "op_fits (en_tables en') o'" if "op_fits (en_tables (rc_store w)) o'" for o'
  proof (rule op_fits_mono [OF that])
    have "(en_tables en' k = None) = (en_tables (rc_store w) k = None)" for k using t [of k] by (metis option.map_disc_iff)
    then show "dom (en_tables en') = dom (en_tables (rc_store w))" by (auto simp: dom_def)
    show "rows_fit (en_tables en') rows" if "rows_fit (en_tables (rc_store w)) rows" for rows
      unfolding rows_fit_def
    proof (intro allI impI)
      fix k row u
      assume r: "(k, row) \<in> set rows" "en_tables en' k = Some u"
      then obtain x where x: "en_tables (rc_store w) k = Some x" "core x = core u" using t [of k] by auto
      have "tb_schema x = tb_schema u" by (rule core_eqD(1) [OF x(2)])
      with x(1) show "length row = length (tb_columns u)" using that r(1) by (auto simp: rows_fit_def)
    qed
  qed
  have du: "durable en'" using d(2) l by (simp add: durable_def)
  show ?thesis
  proof (rule race_invI [where en = en' and fl = "rc_flight w"])
    fix k
    assume "\<And>c o'. rc_flight w c = Some (o', Logged) \<Longrightarrow> k \<notin> op_tables o'"
    then have "ahead_by [] (en_tables (rc_store w) k) (fst m k)" by (rule d(11))
    then show "ahead_by [] (en_tables en' k) (fst m k)" by (rule ahead_by_core [OF _ t])
  next
    fix c o' k
    assume "rc_flight w c = Some (o', Logged)" "k \<in> op_tables o'"
    then have "ahead_by (rows_for k (op_rows o')) (en_tables (rc_store w) k) (fst m k)" by (rule d(10))
    then show "ahead_by (rows_for k (op_rows o')) (en_tables en' k) (fst m k)" by (rule ahead_by_core [OF _ t])
  next
    fix c d' o' q ph ph'
    assume "rc_flight w c = Some (o', ph)" "rc_flight w d' = Some (q, ph')" "c \<noteq> d'"
    then show "op_tables o' \<inter> op_tables q = {}" by (rule d(9))
  qed (use d f wf du l db in auto)
qed

lemma race_inv_step:
  assumes "race_step locked_insert w w'" "race_inv es m w"
  shows "\<exists>es' m'. race_inv es' m' w'"
  using assms(1)
proof cases
  case (race_check c opn)
  with race_inv_check [OF assms(2) race_check(2-5)] show ?thesis by blast
next
  case (race_log c opn e r en1)
  obtain m' where "race_inv (es @ [e]) m' w'"
    using race_inv_log [OF assms(2) race_log(2-4)] race_log(1) by blast
  then show ?thesis by blast
next
  case (race_apply c opn r en')
  with race_inv_apply [OF assms(2) race_apply(2,3)] show ?thesis by blast
next
  case (race_auto n v en')
  with race_inv_auto [OF assms(2) race_auto(2)] show ?thesis by blast
qed

lemma race_inv_reachable:
  "(race_step locked_insert)\<^sup>*\<^sup>* w w' \<Longrightarrow> \<exists>es m. race_inv es m w \<Longrightarrow> \<exists>es m. race_inv es m w'"
proof (induction rule: rtranclp_induct)
  case (step y z)
  then show ?case using race_inv_step by blast
qed

section \<open>Properties of interleaved operations\<close>

lemma race_inv_start:
  assumes "store_ok en"
  shows "\<exists>es m. race_inv es m (race_start en)"
proof -
  obtain es where l: "logged en es" and wf: "tables_wf (en_tables en)" and d: "durable en"
    using assms by (auto simp: store_ok_def)
  then obtain m where m: "replayed es = Ok m" "mem_core m = mem_core (memory_of en)" by (auto simp: logged_def)
  have "map_option core (en_tables en n) = map_option core (fst m n)" for n
    using m(2) by (intro tables_core_eqD) (simp add: mem_core_def memory_of_def)
  then have a: "ahead_by [] (en_tables en n) (fst m n)" for n
    by (cases "en_tables en n"; cases "fst m n") (auto simp: ahead_by_def dest: arg_cong [of _ _ "map_option core"])
  have "tables_wf (fst m)" using mem_core_tables_wf [OF m(2)] wf by (simp add: memory_of_def)
  moreover have "snd m = en_databases en" using m(2) by (simp add: mem_core_def memory_of_def)
  ultimately have "race_inv es m (race_start en)"
    using l wf d m(1) a
    by (intro race_invI [where en = en and fl = Map.empty]) (auto simp: race_start_def logged_def)
  then show ?thesis by blast
qed


definition insert_nine :: op where
  "insert_nine = InsertRowOp ''t'' [VInt 9, VNull]"

definition demo_race :: race where
  "demo_race = \<lparr>rc_store = snd (log_entry IoOk demo_store (InsertRow ''t'' [VInt 9, VNull])),
     rc_flight = [1 \<mapsto> (insert_nine, Logged)]\<rparr>"

lemma demo_race_reachable: "(race_step locked_insert)\<^sup>*\<^sup>* (race_start demo_store) demo_race"
proof -
  let ?w = "(race_start demo_store)\<lparr>rc_flight := (rc_flight (race_start demo_store))(1 \<mapsto> (insert_nine, Checked))\<rparr>"
  have "op_loggable insert_nine" by code_simp
  moreover have "op_proceeds demo_store insert_nine"
    by (simp add: insert_nine_def insert_row_check_def row_check_def demo_store_tables new_table_def demo_columns_def
        check_insertable_def)
  ultimately have "race_step locked_insert (race_start demo_store) ?w"
    by (intro race_check) (simp_all add: race_start_def locked_insert_def insert_nine_def)
  moreover have "race_step locked_insert ?w demo_race"
  proof -
    have "log_entry IoOk (rc_store ?w) (InsertRow ''t'' [VInt 9, VNull]) =
        (fst (log_entry IoOk demo_store (InsertRow ''t'' [VInt 9, VNull])), rc_store demo_race)"
      by (simp add: demo_race_def race_start_def)
    from race_log [OF _ _ this, of 1 insert_nine locked_insert] show ?thesis
      by (simp add: insert_nine_def demo_race_def race_start_def)
  qed
  ultimately show ?thesis by (metis r_into_rtranclp rtranclp_trans)
qed


section \<open>Two CREATE TABLE statements for one name\<close>

definition heap_columns :: "column_schema list" where
  "heap_columns = [\<lparr>cs_name = ''a'', cs_type = TInt, cs_nullable = True, cs_auto_increment = False\<rparr>]"

definition create_h :: op where "create_h = CreateTableOp ''h'' heap_columns None"
definition insert_h :: op where "insert_h = InsertRowOp ''h'' [VInt 1]"

abbreviation any_op :: "race \<Rightarrow> op \<Rightarrow> bool" where "any_op \<equiv> \<lambda>_ _. True"

definition h_entries :: "entry list" where
  "h_entries = [CreateTable ''h'' heap_columns None, InsertRow ''h'' [VInt 1], CreateTable ''h'' heap_columns None]"

definition h_store :: "nat \<Rightarrow> row list option \<Rightarrow> engine" where
  "h_store k rows = \<lparr>en_tables = (case rows of None \<Rightarrow> Map.empty
       | Some rs \<Rightarrow> [''h'' \<mapsto> (new_table heap_columns None)\<lparr>tb_rows := rs\<rparr>]),
     en_databases = {}, en_log = Some (opened_log Always (frames (take k h_entries)))\<rparr>"

lemma h_store_log:
  assumes "k < 3"
  shows "log_entry IoOk (h_store k rows) (h_entries ! k) = (Ok (), h_store (Suc k) rows)"
proof -
  have "take (Suc k) h_entries = take k h_entries @ [h_entries ! k]"
    using assms by (intro take_Suc_conv_app_nth) (simp add: h_entries_def)
  then show ?thesis
    by (simp add: h_store_def log_entry_def log_append_def write_framed_batch_def Let_def opened_log_def)
qed

lemma h_store_apply:
  "op_apply create_h (h_store k None) = (Ok (), h_store k (Some []))"
  "op_apply insert_h (h_store k (Some [])) = (Ok (), h_store k (Some [[VInt 1]]))"
  "op_apply create_h (h_store k (Some rs)) = (Inl (err_exists ''h''), h_store k (Some rs))"
  by (simp_all add: create_h_def insert_h_def h_store_def create_table_apply_def insert_row_apply_def new_table_def
      push_trusted_def push_index_def push_auto_def heap_columns_def)

lemma h_proceeds:
  "op_proceeds (h_store k None) create_h" "op_proceeds (h_store k (Some [])) insert_h"
  by (simp_all add: create_h_def insert_h_def h_store_def create_table_check_def insert_row_check_def row_check_def
      new_table_def check_insertable_def heap_columns_def)

lemma race_steps:
  "fl c = None \<Longrightarrow> op_loggable opn \<Longrightarrow> op_proceeds en opn \<Longrightarrow> fl' = fl(c \<mapsto> (opn, Checked)) \<Longrightarrow>
     race_step any_op \<lparr>rc_store = en, rc_flight = fl\<rparr> \<lparr>rc_store = en, rc_flight = fl'\<rparr>"
  "fl c = Some (opn, Checked) \<Longrightarrow> op_entry opn = Some e \<Longrightarrow> log_entry IoOk en e = (r, en1) \<Longrightarrow>
     fl' = fl(c \<mapsto> (opn, Logged)) \<Longrightarrow>
     race_step any_op \<lparr>rc_store = en, rc_flight = fl\<rparr> \<lparr>rc_store = en1, rc_flight = fl'\<rparr>"
  "fl c = Some (opn, Logged) \<Longrightarrow> op_apply opn en = (r, en') \<Longrightarrow> fl' = fl(c := None) \<Longrightarrow>
     race_step any_op \<lparr>rc_store = en, rc_flight = fl\<rparr> \<lparr>rc_store = en', rc_flight = fl'\<rparr>"
  using race_check [of "\<lparr>rc_store = en, rc_flight = fl\<rparr>" c any_op opn]
    race_log [of "\<lparr>rc_store = en, rc_flight = fl\<rparr>" c opn e r en1 any_op]
    race_apply [of "\<lparr>rc_store = en, rc_flight = fl\<rparr>" c opn r en' any_op] by simp_all

lemma create_race_trace:
  "(race_step any_op)\<^sup>*\<^sup>* (race_start empty_store) \<lparr>rc_store = h_store 3 (Some [[VInt 1]]), rc_flight = Map.empty\<rparr>"
proof -
  define W where "W k rows fl = \<lparr>rc_store = h_store k rows, rc_flight = fl\<rparr>" for k rows fl
  let ?C = "(create_h, Checked)" and ?L = "(create_h, Logged)"
  have lo: "op_loggable create_h" "op_loggable insert_h" by code_simp+
  have e: "op_entry create_h = Some (h_entries ! 0)" "op_entry create_h = Some (h_entries ! 2)"
    "op_entry insert_h = Some (h_entries ! 1)" by (simp_all add: create_h_def insert_h_def h_entries_def)
  have l: "log_entry IoOk (h_store 0 rows) (h_entries ! 0) = (Ok (), h_store 1 rows)"
    "log_entry IoOk (h_store 1 rows) (h_entries ! 1) = (Ok (), h_store 2 rows)"
    "log_entry IoOk (h_store 2 rows) (h_entries ! 2) = (Ok (), h_store 3 rows)" for rows
    using h_store_log [of 0 rows] h_store_log [of 1 rows] h_store_log [of 2 rows] by (simp_all add: eval_nat_numeral)
  have s0: "race_start empty_store = W 0 None Map.empty"
    by (simp add: race_start_def empty_store_def h_store_def W_def)
  have s1: "race_step any_op (W 0 None Map.empty) (W 0 None [1 \<mapsto> ?C])"
    unfolding W_def by (rule race_steps(1) [OF _ lo(1) h_proceeds(1), where c = 1]) simp_all
  have s2: "race_step any_op (W 0 None [1 \<mapsto> ?C]) (W 0 None [1 \<mapsto> ?C, 2 \<mapsto> ?C])"
    unfolding W_def by (rule race_steps(1) [OF _ lo(1) h_proceeds(1), where c = 2]) simp_all
  have s3: "race_step any_op (W 0 None [1 \<mapsto> ?C, 2 \<mapsto> ?C]) (W 1 None [2 \<mapsto> ?C, 1 \<mapsto> ?L])"
    unfolding W_def by (rule race_steps(2) [OF _ e(1) l(1), where c = 1]) (simp_all add: fun_upd_twist)
  have s4: "race_step any_op (W 1 None [2 \<mapsto> ?C, 1 \<mapsto> ?L]) (W 1 (Some []) [2 \<mapsto> ?C])"
    unfolding W_def by (rule race_steps(3) [OF _ h_store_apply(1), where c = 1]) (simp_all add: fun_upd_idem)
  have s5: "race_step any_op (W 1 (Some []) [2 \<mapsto> ?C]) (W 1 (Some []) [2 \<mapsto> ?C, 3 \<mapsto> (insert_h, Checked)])"
    unfolding W_def by (rule race_steps(1) [OF _ lo(2) h_proceeds(2), where c = 3]) simp_all
  have s6: "race_step any_op (W 1 (Some []) [2 \<mapsto> ?C, 3 \<mapsto> (insert_h, Checked)])
      (W 2 (Some []) [2 \<mapsto> ?C, 3 \<mapsto> (insert_h, Logged)])"
    unfolding W_def by (rule race_steps(2) [OF _ e(3) l(2), where c = 3]) simp_all
  have s7: "race_step any_op (W 2 (Some []) [2 \<mapsto> ?C, 3 \<mapsto> (insert_h, Logged)]) (W 2 (Some [[VInt 1]]) [2 \<mapsto> ?C])"
    unfolding W_def by (rule race_steps(3) [OF _ h_store_apply(2), where c = 3]) (simp_all add: fun_upd_idem)
  have s8: "race_step any_op (W 2 (Some [[VInt 1]]) [2 \<mapsto> ?C]) (W 3 (Some [[VInt 1]]) [2 \<mapsto> ?L])"
    unfolding W_def by (rule race_steps(2) [OF _ e(2) l(3), where c = 2]) simp_all
  have s9: "race_step any_op (W 3 (Some [[VInt 1]]) [2 \<mapsto> ?L]) (W 3 (Some [[VInt 1]]) Map.empty)"
    unfolding W_def by (rule race_steps(3) [OF _ h_store_apply(3), where c = 2]) simp_all
  show ?thesis
    unfolding s0 W_def [symmetric]
    by (rule converse_rtranclp_into_rtranclp, rule s1, rule converse_rtranclp_into_rtranclp, rule s2,
        rule converse_rtranclp_into_rtranclp, rule s3, rule converse_rtranclp_into_rtranclp, rule s4,
        rule converse_rtranclp_into_rtranclp, rule s5, rule converse_rtranclp_into_rtranclp, rule s6,
        rule converse_rtranclp_into_rtranclp, rule s7, rule converse_rtranclp_into_rtranclp, rule s8,
        rule r_into_rtranclp, rule s9)
qed

text \<open>
  Claim (C32). A race of two \<^verbatim>\<open>CREATE TABLE\<close> statements for one name is not harmless. Both pass
  the check; one wins, a row is inserted and acknowledged, and only then the loser appends its
  record and is told that the table exists. Memory holds the row, but replaying the log creates
  the table a second time, empty: the row is gone after a restart.
\<close>

theorem create_table_race_loses_rows:
  "\<exists>w lg en'. (race_step any_op)\<^sup>*\<^sup>* (race_start empty_store) w \<and> rc_flight w = Map.empty
     \<and> scan (rc_store w) ''h'' = Ok [[VInt 1]] \<and> en_log (rc_store w) = Some lg
     \<and> open_store sorted_keys sorted_names Always 1000 (Some (lg_file lg)) = Ok en' \<and> scan en' ''h'' = Ok []"
proof -
  have l: "list_all loggable h_entries" unfolding h_entries_def by code_simp
  have len: "length (frames h_entries) < 2 ^ 64"
    by (simp add: h_entries_def encode_create_table_def encode_insert_row_def write_row_def write_column_schema_def
        heap_columns_def)
  have "log_open replay_step (Ok (Map.empty, {})) Always (Some (frames h_entries)) =
      Ok (foldl replay_step (Ok (Map.empty, {})) h_entries, opened_log Always (frames h_entries))"
    using log_open_crash [OF l len, of replay_step "Ok (Map.empty, {})" Always "length (frames h_entries)"]
    by (simp add: complete_all)
  moreover have "foldl replay_step (Ok (Map.empty, {})) h_entries =
      Ok ([''h'' \<mapsto> new_table heap_columns None], {})"
    by (simp add: h_entries_def replay_step_def push_named_def push_trusted_def new_table_def push_index_def
        push_auto_def heap_columns_def)
  ultimately obtain en' where o: "open_store sorted_keys sorted_names Always 1000 (Some (frames h_entries)) = Ok en'"
    "scan en' ''h'' = Ok []"
    by (simp add: open_store_def scan_def new_table_def)
  let ?w = "\<lparr>rc_store = h_store 3 (Some [[VInt 1]]), rc_flight = Map.empty\<rparr>"
  have "scan (rc_store ?w) ''h'' = Ok [[VInt 1]]" by (simp add: scan_def h_store_def)
  moreover have "en_log (rc_store ?w) = Some (opened_log Always (frames h_entries))"
    by (simp add: h_store_def h_entries_def)
  moreover have "lg_file (opened_log Always (frames h_entries)) = frames h_entries" by simp
  ultimately show ?thesis using create_race_trace o by (intro exI [of _ ?w]) auto
qed

end
