(* ===== verification/Query_Ast.thy ===== *)
theory Query_Ast
  imports Sql_Value
begin

text \<open>
  The abstract syntax of the SQL subset (\<^verbatim>\<open>src/src/query/parser.rs\<close>, lines 13 to 278) and the
  binding of prepared-statement parameters (lines 1831 to 1902).  A placeholder is an expression
  with its position; binding replaces it by the literal at that position or reports the parameter
  that is missing.
\<close>

section \<open>Syntax\<close>

record column_ref =
  cr_table :: "string option"
  cr_column :: string

datatype expr =
    EInteger i64
  | EDecimal i64 u8
  | EString string
  | ENull
  | ESystemVariable string
  | EColumn column_ref
  | EFunction string "expr list"
  | EPlaceholder nat

datatype compare_op = CEq | CNotEq | CLt | CGt | CLe | CGe

record condition =
  cn_column :: column_ref
  cn_op :: compare_op
  cn_value :: expr

record order_by_item =
  ob_column :: column_ref
  ob_descending :: bool

datatype select_item = Wildcard | ItemExpr expr "string option"

record table_ref =
  tr_name :: string
  tr_alias :: "string option"

definition qualifier :: "table_ref \<Rightarrow> string" where
  "qualifier t = (case tr_alias t of Some a \<Rightarrow> a | None \<Rightarrow> tr_name t)"

datatype join_type = Inner | Left

record join_clause =
  jc_type :: join_type
  jc_table :: table_ref
  jc_left :: column_ref
  jc_right :: column_ref

record from_clause =
  fc_table :: table_ref
  fc_joins :: "join_clause list"

record column_def =
  cd_name :: string
  cd_type_name :: string
  cd_is_primary_key :: bool
  cd_nullable :: bool
  cd_auto_increment :: bool

datatype show_statement =
    ShowDatabases | ShowTables | ShowWarnings | ShowVariables "string option"
  | ShowCharacterSet | ShowCollation | ShowOther

datatype alter_action =
    ActAddColumn column_def
  | ActDropColumn string
  | ActModifyColumn column_def
  | ActAddPrimaryKey string
  | ActDropPrimaryKey

record select_stmt =
  sl_projection :: "select_item list"
  sl_from :: "from_clause option"
  sl_selection :: "condition option"
  sl_group_by :: "column_ref list"
  sl_order_by :: "order_by_item list"
  sl_limit :: "u64 option"
  sl_offset :: "u64 option"

datatype statement =
    StCreateTable string "column_def list"
  | StInsert string "string list option" "expr list list"
  | StSelect select_stmt
  | StBegin
  | StCommit
  | StRollback
  | StSet
  | StUse
  | StShow show_statement
  | StCreateDatabase string bool
  | StDropDatabase string bool
  | StAlterTable string alter_action

definition to_value_string :: "expr \<Rightarrow> string option" where
  "to_value_string e =
     (case e of
        EInteger n \<Rightarrow> Some (show_i64 n)
      | EDecimal unscaled scale \<Rightarrow> Some (format_decimal unscaled scale)
      | EString s \<Rightarrow> Some s
      | ENull \<Rightarrow> None
      | ESystemVariable name \<Rightarrow> Some (''@@'' @ name)
      | EColumn c \<Rightarrow> Some (cr_column c)
      | EFunction name _ \<Rightarrow> Some (name @ ''()'')
      | EPlaceholder i \<Rightarrow> Some (''?'' @ show_nat i))"

section \<open>Binding parameters\<close>

definition err_missing_parameter :: "nat \<Rightarrow> exn" where
  "err_missing_parameter i = Err (Execution (''missing value for parameter '' @ show_nat (i + 1)))"

fun bind_expr :: "expr list \<Rightarrow> expr \<Rightarrow> expr result" where
  "bind_expr params (EPlaceholder i) = ok_or (err_missing_parameter i) (get_at params i)"
| "bind_expr params (EFunction name args) = map_result (EFunction name) (mapR (bind_expr params) args)"
| "bind_expr params e = Ok e"

definition bind_item :: "expr list \<Rightarrow> select_item \<Rightarrow> select_item result" where
  "bind_item params item =
     (case item of
        Wildcard \<Rightarrow> Ok Wildcard
      | ItemExpr e alias \<Rightarrow> map_result (\<lambda>e'. ItemExpr e' alias) (bind_expr params e))"

definition bind_parameters :: "statement \<Rightarrow> expr list \<Rightarrow> statement result" where
  "bind_parameters st params =
     (case st of
        StInsert table columns rows \<Rightarrow>
          map_result (StInsert table columns) (mapR (mapR (bind_expr params)) rows)
      | StSelect sel \<Rightarrow>
          bindR (mapR (bind_item params) (sl_projection sel)) (\<lambda>projection.
          bindR (case sl_selection sel of
                   Some cond \<Rightarrow> map_result (\<lambda>v. Some (cond\<lparr>cn_value := v\<rparr>)) (bind_expr params (cn_value cond))
                 | None \<Rightarrow> Ok None) (\<lambda>selection.
          Ok (StSelect (sel\<lparr>sl_projection := projection, sl_selection := selection\<rparr>))))
      | other \<Rightarrow> Ok other)"

section \<open>Placeholders\<close>

text \<open>The positions of the placeholders of a statement, in the order binding visits them.\<close>

fun expr_holes :: "expr \<Rightarrow> nat list" where
  "expr_holes (EPlaceholder i) = [i]"
| "expr_holes (EFunction name args) = concat (map expr_holes args)"
| "expr_holes _ = []"

definition item_holes :: "select_item \<Rightarrow> nat list" where
  "item_holes item = (case item of Wildcard \<Rightarrow> [] | ItemExpr e _ \<Rightarrow> expr_holes e)"

definition holes :: "statement \<Rightarrow> nat list" where
  "holes st =
     (case st of
        StInsert _ _ rows \<Rightarrow> concat (map (\<lambda>row. concat (map expr_holes row)) rows)
      | StSelect sel \<Rightarrow>
          concat (map item_holes (sl_projection sel))
          @ (case sl_selection sel of Some cond \<Rightarrow> expr_holes (cn_value cond) | None \<Rightarrow> [])
      | _ \<Rightarrow> [])"

text \<open>
  Binding fails exactly on the first placeholder without a value.
\<close>

definition first_missing :: "expr list \<Rightarrow> nat list \<Rightarrow> nat option" where
  "first_missing params is = find (\<lambda>i. length params \<le> i) is"

lemma first_missing_simps [simp]:
  "first_missing params [] = None"
  "first_missing params (i # is) = (if length params \<le> i then Some i else first_missing params is)"
  by (simp_all add: first_missing_def)

lemma first_missing_append:
  "first_missing params (is @ js) =
     (case first_missing params is of Some i \<Rightarrow> Some i | None \<Rightarrow> first_missing params js)"
  by (induction "is") auto

definition bind_spec :: "expr list \<Rightarrow> nat list \<Rightarrow> ('a \<Rightarrow> nat list) \<Rightarrow> 'a result \<Rightarrow> bool" where
  "bind_spec params is h r \<longleftrightarrow>
     (case first_missing params is of
        Some i \<Rightarrow> r = Inl (err_missing_parameter i)
      | None \<Rightarrow> \<exists>x. r = Ok x \<and> h x = [])"

lemma bind_spec_map:
  assumes "bind_spec params is h r" "\<And>x. h x = [] \<Longrightarrow> h' (f x) = []"
  shows "bind_spec params is h' (map_result f r)"
  using assms by (auto simp: bind_spec_def split: option.splits)

lemma bind_spec_bind:
  assumes "bind_spec params is h r" "\<And>x. r = Ok x \<Longrightarrow> h x = [] \<Longrightarrow> bind_spec params js h' (f x)"
  shows "bind_spec params (is @ js) h' (bindR r f)"
  using assms by (cases r) (auto simp: bind_spec_def first_missing_append split: option.splits)

lemma bind_spec_mapR:
  assumes "\<And>x. x \<in> set xs \<Longrightarrow> bind_spec params (hx x) hy (f x)"
  shows "bind_spec params (concat (map hx xs)) (\<lambda>ys. concat (map hy ys)) (mapR f xs)"
  using assms
proof (induction xs)
  case Nil
  then show ?case by (simp add: bind_spec_def)
next
  case (Cons x xs)
  have IH: "bind_spec params (concat (map hx xs)) (\<lambda>ys. concat (map hy ys)) (mapR f xs)"
    using Cons by simp
  have "bind_spec params (concat (map hx xs) @ []) (\<lambda>ys. concat (map hy ys)) (bindR (mapR f xs) (\<lambda>ys. Ok (y # ys)))"
    if "hy y = []" for y
    by (rule bind_spec_bind [OF IH]) (use that in \<open>simp add: bind_spec_def\<close>)
  then have "bind_spec params (hx x @ concat (map hx xs)) (\<lambda>ys. concat (map hy ys)) (mapR f (x # xs))"
    unfolding mapR.simps using Cons.prems by (intro bind_spec_bind [of _ _ hy]) auto
  then show ?case by simp
qed

lemma bind_expr_spec:
  assumes "\<forall>p \<in> set params. expr_holes p = []"
  shows "bind_spec params (expr_holes e) expr_holes (bind_expr params e)"
proof (induction e)
  case (EFunction name args)
  have "bind_spec params (concat (map expr_holes args)) (\<lambda>ys. concat (map expr_holes ys)) (mapR (bind_expr params) args)"
    by (rule bind_spec_mapR) (rule EFunction)
  from bind_spec_map [OF this, of expr_holes "EFunction name"] show ?case by simp
next
  case (EPlaceholder i)
  then show ?case using assms by (auto simp: bind_spec_def not_le)
qed (simp_all add: bind_spec_def)

lemma bind_item_spec:
  assumes "\<forall>p \<in> set params. expr_holes p = []"
  shows "bind_spec params (item_holes item) item_holes (bind_item params item)"
proof (cases item)
  case Wildcard
  then show ?thesis by (simp add: bind_spec_def item_holes_def bind_item_def)
next
  case (ItemExpr e al)
  from bind_spec_map [OF bind_expr_spec [OF assms, of e], of item_holes "\<lambda>e'. ItemExpr e' al"] ItemExpr
  show ?thesis by (simp add: item_holes_def bind_item_def)
qed

lemma bind_parameters_spec:
  assumes "\<forall>p \<in> set params. expr_holes p = []"
  shows "bind_spec params (holes st) holes (bind_parameters st params)"
proof (cases st)
  case (StInsert table columns rows)
  have "bind_spec params (concat (map (\<lambda>row. concat (map expr_holes row)) rows))
      (\<lambda>rows. concat (map (\<lambda>row. concat (map expr_holes row)) rows)) (mapR (mapR (bind_expr params)) rows)"
    by (intro bind_spec_mapR bind_expr_spec) (rule assms)
  from bind_spec_map [OF this, of holes "StInsert table columns"] StInsert show ?thesis
    by (simp add: holes_def bind_parameters_def)
next
  case (StSelect sel)
  let ?sel = "case sl_selection sel of
      Some cond \<Rightarrow> map_result (\<lambda>v. Some (cond\<lparr>cn_value := v\<rparr>)) (bind_expr params (cn_value cond)) | None \<Rightarrow> Ok None"
  let ?h = "\<lambda>m. case m of Some cond \<Rightarrow> expr_holes (cn_value cond) | None \<Rightarrow> []"
  have p: "bind_spec params (concat (map item_holes (sl_projection sel))) (\<lambda>items. concat (map item_holes items))
      (mapR (bind_item params) (sl_projection sel))"
    by (intro bind_spec_mapR bind_item_spec assms)
  have s: "bind_spec params (?h (sl_selection sel)) ?h ?sel"
  proof (cases "sl_selection sel")
    case (Some cond)
    from bind_spec_map [OF bind_expr_spec [OF assms, of "cn_value cond"], of ?h "\<lambda>v. Some (cond\<lparr>cn_value := v\<rparr>)"] Some
    show ?thesis by simp
  qed (simp add: bind_spec_def)
  have "bind_spec params (?h (sl_selection sel) @ []) holes
      (bindR ?sel (\<lambda>selection. Ok (StSelect (sel\<lparr>sl_projection := projection, sl_selection := selection\<rparr>))))"
    if "concat (map item_holes projection) = []" for projection
    by (rule bind_spec_bind [OF s]) (use that in \<open>simp add: bind_spec_def holes_def\<close>)
  then have "bind_spec params (concat (map item_holes (sl_projection sel)) @ ?h (sl_selection sel)) holes
      (bindR (mapR (bind_item params) (sl_projection sel)) (\<lambda>projection. bindR ?sel
         (\<lambda>selection. Ok (StSelect (sel\<lparr>sl_projection := projection, sl_selection := selection\<rparr>)))))"
    by (intro bind_spec_bind [OF p]) simp
  with StSelect show ?thesis by (simp add: holes_def bind_parameters_def)
qed (simp_all add: bind_spec_def holes_def bind_parameters_def)

section \<open>Properties of binding\<close>

text \<open>
  Binding the parameters of a prepared statement.  With literals for parameters, binding
  fails exactly when some placeholder has no parameter, and then the error names the first such
  placeholder in the order of the statement; otherwise it succeeds and leaves no placeholder behind.
\<close>

theorem bind_parameters_total:
  assumes "\<forall>p \<in> set params. expr_holes p = []"
  shows "case first_missing params (holes st) of
      Some i \<Rightarrow> bind_parameters st params = Inl (err_missing_parameter i)
    | None \<Rightarrow> \<exists>st'. bind_parameters st params = Ok st' \<and> holes st' = []"
  using bind_parameters_spec [OF assms, of st] by (simp add: bind_spec_def split: option.splits)

theorem bind_parameters_total_witness:
  "bind_parameters (StInsert ''t'' None [[EPlaceholder 0, EPlaceholder 1]]) [EInteger 5] = Inl (err_missing_parameter 1)"
  using bind_parameters_total [of "[EInteger 5]" "StInsert ''t'' None [[EPlaceholder 0, EPlaceholder 1]]"]
  by (simp add: holes_def)

end
