(* ===== verification/Exec_Order.thy ===== *)
theory Exec_Order
  imports Query_Ast "HOL-Library.Multiset"
begin

text \<open>
  Comparing and sorting values (\<^verbatim>\<open>src/src/query/executor.rs\<close>, lines 1438 to 1558): the order of
  \<^verbatim>\<open>ORDER BY\<close>, the comparison of \<^verbatim>\<open>WHERE\<close>, and sorting with \<^verbatim>\<open>OFFSET\<close> and
  \<^verbatim>\<open>LIMIT\<close>.  On the values of one column type the order is total and agrees with equality of
  values.  The page that the code takes by partial selection is the page of a full sort, up to rows
  with equal sort keys.
\<close>

section \<open>Comparing values\<close>

definition saturate_i64 :: "int \<Rightarrow> i64" where
  "saturate_i64 z = word_of_int (max i64_min (min i64_max z))"

definition scale_up :: "i64 \<Rightarrow> u8 \<Rightarrow> i64" where
  "scale_up unscaled extra_scale =
     (case checked_pow10_i64 (unat extra_scale) of
        Some factor \<Rightarrow> saturate_i64 (sint unscaled * sint factor)
      | None \<Rightarrow> if sint unscaled < 0 then word_of_int i64_min else word_of_int i64_max)"

definition decimal_ordering :: "i64 \<Rightarrow> u8 \<Rightarrow> i64 \<Rightarrow> u8 \<Rightarrow> ordering" where
  "decimal_ordering a_unscaled a_scale b_unscaled b_scale =
     (let (a_cmp, b_cmp) =
        (if a_scale = b_scale then (a_unscaled, b_unscaled)
         else if a_scale < b_scale then (scale_up a_unscaled (b_scale - a_scale), b_unscaled)
         else (a_unscaled, scale_up b_unscaled (a_scale - b_scale)))
      in int_cmp (sint a_cmp) (sint b_cmp))"

fun value_ordering :: "value \<Rightarrow> value \<Rightarrow> ordering" where
  "value_ordering VNull VNull = Equal"
| "value_ordering VNull _ = Less"
| "value_ordering _ VNull = Greater"
| "value_ordering (VInt a) (VInt b) = int_cmp (sint a) (sint b)"
| "value_ordering (VVarchar a) (VVarchar b) = str_cmp a b"
| "value_ordering (VDate a) (VDate b) = str_cmp a b"
| "value_ordering (VDecimal a s) (VDecimal b t) = decimal_ordering a s b t"
| "value_ordering a b =
     str_cmp (unwrap_or_default (to_display_string a)) (unwrap_or_default (to_display_string b))"

definition compare_values :: "value \<Rightarrow> compare_op \<Rightarrow> value \<Rightarrow> bool" where
  "compare_values actual op expected =
     (if actual = VNull \<or> expected = VNull then False
      else let ordering = value_ordering actual expected in
        case op of
          CEq \<Rightarrow> ordering = Equal
        | CNotEq \<Rightarrow> ordering \<noteq> Equal
        | CLt \<Rightarrow> ordering = Less
        | CGt \<Rightarrow> ordering = Greater
        | CLe \<Rightarrow> ordering \<noteq> Greater
        | CGe \<Rightarrow> ordering \<noteq> Less)"

section \<open>Sorting and paging\<close>

text \<open>
  \<^verbatim>\<open>slice::sort_by\<close> is a stable sort, which a total order determines.
  \<^verbatim>\<open>select_nth_unstable_by\<close> leaves the order open, so it is the parameter \<open>sel\<close>.
\<close>

fun insert_by :: "('a \<Rightarrow> 'a \<Rightarrow> ordering) \<Rightarrow> 'a \<Rightarrow> 'a list \<Rightarrow> 'a list" where
  "insert_by cmp x [] = [x]"
| "insert_by cmp x (y # ys) = (if cmp x y = Greater then y # insert_by cmp x ys else x # y # ys)"

definition sort_by :: "('a \<Rightarrow> 'a \<Rightarrow> ordering) \<Rightarrow> 'a list \<Rightarrow> 'a list" where
  "sort_by cmp xs = foldr (insert_by cmp) xs []"

fun row_compare :: "(nat \<times> bool) list \<Rightarrow> row \<Rightarrow> row \<Rightarrow> ordering" where
  "row_compare [] a b = Equal"
| "row_compare ((idx, descending) # keys) a b =
     (let ord = value_ordering (a ! idx) (b ! idx);
          ord = (if descending then reverse_ordering ord else ord)
      in if ord \<noteq> Equal then ord else row_compare keys a b)"

definition page_start :: "u64 option \<Rightarrow> nat" where
  "page_start offset = (case offset of Some n \<Rightarrow> unat n | None \<Rightarrow> 0)"

definition page_length :: "u64 option \<Rightarrow> nat" where
  "page_length limit = (case limit of Some n \<Rightarrow> unat n | None \<Rightarrow> 2 ^ 64 - 1)"

type_synonym selector = "(row \<Rightarrow> row \<Rightarrow> ordering) \<Rightarrow> nat \<Rightarrow> row list \<Rightarrow> row list"

definition sort_and_paginate ::
    "selector \<Rightarrow> row list \<Rightarrow> (nat \<times> bool) list \<Rightarrow> u64 option \<Rightarrow> u64 option \<Rightarrow> row list" where
  "sort_and_paginate sel rows sort_keys limit offset =
     (let rows' =
        (if sort_keys = [] then rows
         else let keep = min (page_start offset + page_length limit) (2 ^ 64 - 1);
                  rows1 = (if 0 < keep \<and> keep < length rows
                           then take keep (sel (row_compare sort_keys) (keep - 1) rows) else rows)
              in sort_by (row_compare sort_keys) rows1)
      in take (page_length limit) (drop (page_start offset) rows'))"

section \<open>Total orders\<close>

definition sorted_by :: "('a \<Rightarrow> 'a \<Rightarrow> ordering) \<Rightarrow> 'a list \<Rightarrow> bool" where
  "sorted_by cmp xs \<longleftrightarrow> sorted_wrt (\<lambda>a b. cmp a b \<noteq> Greater) xs"

locale total_preorder_on =
  fixes S :: "'a set" and cmp :: "'a \<Rightarrow> 'a \<Rightarrow> ordering"
  assumes swap: "a \<in> S \<Longrightarrow> b \<in> S \<Longrightarrow> cmp b a = reverse_ordering (cmp a b)"
    and trans: "a \<in> S \<Longrightarrow> b \<in> S \<Longrightarrow> c \<in> S \<Longrightarrow> cmp a b \<noteq> Greater \<Longrightarrow> cmp b c \<noteq> Greater \<Longrightarrow> cmp a c \<noteq> Greater"
begin

lemma refl: "a \<in> S \<Longrightarrow> cmp a a = Equal"
  using swap [of a a] by (cases "cmp a a") auto

lemma less_trans: "a \<in> S \<Longrightarrow> b \<in> S \<Longrightarrow> c \<in> S \<Longrightarrow> cmp a b = Less \<Longrightarrow> cmp b c \<noteq> Greater \<Longrightarrow> cmp a c = Less"
  using trans [of a b c] trans [of b c a] swap [of a b] swap [of a c]
  by (cases "cmp a c"; cases "cmp b c") auto

lemma less_trans2: "a \<in> S \<Longrightarrow> b \<in> S \<Longrightarrow> c \<in> S \<Longrightarrow> cmp a b \<noteq> Greater \<Longrightarrow> cmp b c = Less \<Longrightarrow> cmp a c = Less"
  using trans [of a b c] trans [of c a b] swap [of b c] swap [of a c]
  by (cases "cmp a c"; cases "cmp a b") auto

lemma chain:
  assumes "a \<in> S" "b \<in> S" "c \<in> S"
  shows "cmp a b = Equal \<Longrightarrow> cmp a c = cmp b c" "cmp b c = Equal \<Longrightarrow> cmp a c = cmp a b"
    "cmp a b = cmp b c \<Longrightarrow> cmp a c = cmp a b"
proof -
  note sw = swap [OF assms(1,2)] swap [OF assms(2,3)] swap [OF assms(1,3)]
  note up = less_trans [OF assms] less_trans2 [OF assms] trans [OF assms]
  note down = less_trans [OF assms(3,2,1), unfolded sw] less_trans2 [OF assms(3,2,1), unfolded sw]
    trans [OF assms(3,2,1), unfolded sw]
  show "cmp a b = Equal \<Longrightarrow> cmp a c = cmp b c" "cmp b c = Equal \<Longrightarrow> cmp a c = cmp a b"
    "cmp a b = cmp b c \<Longrightarrow> cmp a c = cmp a b"
    using up down by (cases "cmp a b"; cases "cmp b c"; cases "cmp a c"; simp)+
qed

lemma insert_by_mset [simp]: "mset (insert_by cmp x xs) = add_mset x (mset xs)"
  by (induction xs) auto

lemma sort_by_mset [simp]: "mset (sort_by cmp xs) = mset xs"
  by (induction xs) (simp_all add: sort_by_def)

lemma insert_by_sorted:
  assumes "x \<in> S" "set xs \<subseteq> S" "sorted_by cmp xs"
  shows "sorted_by cmp (insert_by cmp x xs)"
  using assms
proof (induction xs)
  case (Cons y ys)
  have s: "set (insert_by cmp x ys) = insert x (set ys)"
    by (metis insert_by_mset set_mset_add_mset_insert set_mset_mset)
  show ?case
  proof (cases "cmp x y = Greater")
    case True
    then have "cmp y x = Less" using swap [of x y] Cons.prems by simp
    with True Cons s show ?thesis by (auto simp: sorted_by_def)
  next
    case False
    have "cmp x z \<noteq> Greater" if "z \<in> set ys" for z
      using trans [of x y z] that Cons.prems False by (auto simp: sorted_by_def)
    with False Cons.prems show ?thesis by (auto simp: sorted_by_def)
  qed
qed (simp add: sorted_by_def)

lemma sort_by_sorted: "set xs \<subseteq> S \<Longrightarrow> sorted_by cmp (sort_by cmp xs)"
proof (induction xs)
  case (Cons x xs)
  have "set (sort_by cmp xs) = set xs" by (metis sort_by_mset set_mset_mset)
  with Cons insert_by_sorted [of x "sort_by cmp xs"] show ?case by (simp add: sort_by_def)
qed (simp add: sort_by_def sorted_by_def)

text \<open>Two sorted arrangements of the same elements agree in every position up to equal keys.\<close>

lemma sorted_agree_not_less:
  assumes "sorted_by cmp xs" "sorted_by cmp ys" "mset xs = mset ys" "set xs \<subseteq> S" "i < length xs"
  shows "cmp (xs ! i) (ys ! i) \<noteq> Less"
proof
  assume less: "cmp (xs ! i) (ys ! i) = Less"
  let ?P = "\<lambda>a. cmp a (xs ! i) \<noteq> Greater"
  have len: "length ys = length xs" and ys: "set ys \<subseteq> S" using assms(3,4) by (metis size_mset) (metis assms(3,4) set_mset_mset)
  have x: "xs ! i \<in> S" using assms(4,5) by auto
  have "i < length (filter ?P xs)"
  proof -
    have "\<forall>a \<in> set (take (Suc i) xs). ?P a"
    proof
      fix a
      assume "a \<in> set (take (Suc i) xs)"
      then obtain k where k: "k \<le> i" "a = xs ! k" by (auto simp: in_set_conv_nth less_Suc_eq_le)
      show "?P a"
      proof (cases "k = i")
        case True
        with k(2) refl [OF x] show ?thesis by simp
      next
        case False
        with k assms(1,5) show ?thesis by (auto simp: sorted_by_def sorted_wrt_iff_nth_less)
      qed
    qed
    then have "filter ?P (take (Suc i) xs) = take (Suc i) xs" by (simp add: filter_id_conv)
    then have "Suc i \<le> length (filter ?P (take (Suc i) xs @ drop (Suc i) xs))"
      using assms(5) unfolding filter_append by simp
    then show ?thesis by simp
  qed
  moreover have "length (filter ?P ys) \<le> i"
  proof -
    have "\<forall>b \<in> set (drop i ys). \<not> ?P b"
    proof
      fix b
      assume "b \<in> set (drop i ys)"
      then obtain k where "k < length (drop i ys)" "b = drop i ys ! k" by (auto simp: in_set_conv_nth)
      then have k: "i + k < length ys" "b = ys ! (i + k)" by simp_all
      have y: "ys ! i \<in> S" "b \<in> S" using ys k assms(5) len by auto
      have "cmp (ys ! i) b \<noteq> Greater"
      proof (cases "k = 0")
        case True
        with k(2) refl [OF y(1)] show ?thesis by simp
      next
        case False
        with k assms(2) show ?thesis by (auto simp: sorted_by_def sorted_wrt_iff_nth_less)
      qed
      then have "cmp (xs ! i) b = Less" using less_trans [OF x y less] by simp
      then show "\<not> ?P b" using swap [OF x y(2)] by simp
    qed
    then have "filter ?P (drop i ys) = []" by (simp add: filter_empty_conv)
    then have "length (filter ?P (take i ys @ drop i ys)) \<le> i"
      unfolding filter_append using length_filter_le [of ?P "take i ys"] by simp
    then show ?thesis by simp
  qed
  moreover have "length (filter ?P xs) = length (filter ?P ys)"
    using assms(3) by (metis mset_filter size_mset)
  ultimately show False by simp
qed

lemma sorted_agree:
  assumes "sorted_by cmp xs" "sorted_by cmp ys" "mset xs = mset ys" "set xs \<subseteq> S"
  shows "list_all2 (\<lambda>a b. cmp a b = Equal) xs ys"
proof -
  have len: "length ys = length xs" and ys: "set ys \<subseteq> S" using assms(3,4) by (metis size_mset) (metis assms(3,4) set_mset_mset)
  have "cmp (xs ! i) (ys ! i) = Equal" if "i < length xs" for i
  proof -
    have "xs ! i \<in> S" "ys ! i \<in> S" using that assms(4) ys len by auto
    with sorted_agree_not_less [OF assms that] sorted_agree_not_less [OF assms(2,1) _ ys, of i] assms(3) that len
      swap [of "xs ! i" "ys ! i"] show ?thesis by (cases "cmp (xs ! i) (ys ! i)") auto
  qed
  then show ?thesis using len by (simp add: list_all2_conv_all_nth)
qed

end

section \<open>The order of one column\<close>

lemma sint_i64_eqI: "sint (a :: i64) = sint b \<Longrightarrow> a = b"
  by (rule signed_word_eqI)

lemma has_type_ex:
  "has_type v T \<Longrightarrow> v \<noteq> VNull \<Longrightarrow>
     (case T of TInt \<Rightarrow> \<exists>x. v = VInt x | TVarchar \<Rightarrow> \<exists>x. v = VVarchar x
      | TDecimal s \<Rightarrow> \<exists>x. v = VDecimal x s | TDate \<Rightarrow> \<exists>x. v = VDate x)"
  by (cases v) simp_all

lemma value_ordering_column_swap:
  assumes "has_type a T" "has_type b T"
  shows "value_ordering b a = reverse_ordering (value_ordering a b)"
proof (cases "a = VNull \<or> b = VNull")
  case False
  note ex = has_type_ex [OF assms(1)] has_type_ex [OF assms(2)]
  have i: "int_cmp y x = reverse_ordering (int_cmp x y)" for x y by (simp add: int_cmp_def)
  show ?thesis
  proof (cases T)
    case TInt
    with False ex obtain x y where "a = VInt x" "b = VInt y" by auto
    then show ?thesis using i [of "sint y" "sint x"] by simp
  next
    case TVarchar
    with False ex obtain x y where "a = VVarchar x" "b = VVarchar y" by auto
    then show ?thesis using str_cmp_swap [of y x] by simp
  next
    case (TDecimal s)
    with False ex obtain x y where "a = VDecimal x s" "b = VDecimal y s" by auto
    then show ?thesis using i [of "sint y" "sint x"] by (simp add: decimal_ordering_def)
  next
    case TDate
    with False ex obtain x y where "a = VDate x" "b = VDate y" by auto
    then show ?thesis using str_cmp_swap [of y x] by simp
  qed
next
  case True
  then show ?thesis by (cases a; cases b) simp_all
qed

lemma str_cmp_le_trans: "str_cmp a b \<noteq> Greater \<Longrightarrow> str_cmp b c \<noteq> Greater \<Longrightarrow> str_cmp a c \<noteq> Greater"
  using str_cmp_Less_trans [of a b c] str_cmp_Equal_iff [of a b] str_cmp_Equal_iff [of b c]
  by (cases "str_cmp a b"; cases "str_cmp b c") auto

lemma int_cmp_le_iff: "int_cmp a b \<noteq> Greater \<longleftrightarrow> a \<le> b"
  by (auto simp: int_cmp_def)

lemma value_ordering_column_trans:
  assumes "has_type a T" "has_type b T" "has_type c T"
    and le: "value_ordering a b \<noteq> Greater" "value_ordering b c \<noteq> Greater"
  shows "value_ordering a c \<noteq> Greater"
proof -
  consider "a = VNull" | "b = VNull" "a \<noteq> VNull" | "c = VNull" "b \<noteq> VNull" | "a \<noteq> VNull" "b \<noteq> VNull" "c \<noteq> VNull" by blast
  then show ?thesis
  proof cases
    case 4
    note ex = has_type_ex [OF assms(1)] has_type_ex [OF assms(2)] has_type_ex [OF assms(3)]
    show ?thesis
    proof (cases T)
      case TInt
      with 4 ex obtain x y z where "a = VInt x" "b = VInt y" "c = VInt z" by auto
      with le show ?thesis by (simp add: int_cmp_le_iff)
    next
      case TVarchar
      with 4 ex obtain x y z where "a = VVarchar x" "b = VVarchar y" "c = VVarchar z" by auto
      with le show ?thesis using str_cmp_le_trans by simp
    next
      case (TDecimal s)
      with 4 ex obtain x y z where "a = VDecimal x s" "b = VDecimal y s" "c = VDecimal z s" by auto
      with le show ?thesis by (simp add: decimal_ordering_def int_cmp_le_iff)
    next
      case TDate
      with 4 ex obtain x y z where "a = VDate x" "b = VDate y" "c = VDate z" by auto
      with le show ?thesis using str_cmp_le_trans by simp
    qed
  qed (use le in \<open>cases a; cases b; cases c; simp\<close>)+
qed

interpretation column_order: total_preorder_on "{v. has_type v T}" value_ordering for T
  by unfold_locales (use value_ordering_column_swap value_ordering_column_trans in blast)+

lemma value_ordering_Equal_iff:
  "has_type a T \<Longrightarrow> has_type b T \<Longrightarrow> value_ordering a b = Equal \<longleftrightarrow> a = b"
  by (cases a; cases b; cases T)
    (auto simp: str_cmp_Equal_iff int_cmp_def decimal_ordering_def intro: sint_i64_eqI split: if_splits)

section \<open>The order of rows\<close>

definition sortable_rows :: "column_type list \<Rightarrow> (nat \<times> bool) list \<Rightarrow> row set" where
  "sortable_rows Ts keys = {r. list_all2 has_type r Ts \<and> list_all (\<lambda>(i, d). i < length r) keys}"

lemma row_compare_swap:
  assumes "a \<in> sortable_rows Ts keys" "b \<in> sortable_rows Ts keys"
  shows "row_compare keys b a = reverse_ordering (row_compare keys a b)"
  using assms
proof (induction keys)
  case (Cons k ks)
  obtain i d where k: "k = (i, d)" by (cases k)
  have "has_type (a ! i) (Ts ! i)" "has_type (b ! i) (Ts ! i)"
    using Cons.prems k by (auto simp: sortable_rows_def list_all2_conv_all_nth)
  from value_ordering_column_swap [OF this] Cons show ?case
    by (cases "value_ordering (a ! i) (b ! i)") (auto simp: k sortable_rows_def)
qed simp

lemma lex_le_trans:
  assumes "x = Equal \<Longrightarrow> z = y" "y = Equal \<Longrightarrow> z = x" "x = y \<Longrightarrow> z = x"
    and "(if x \<noteq> Equal then x else p) \<noteq> Greater" "(if y \<noteq> Equal then y else q) \<noteq> Greater"
    and "p \<noteq> Greater \<Longrightarrow> q \<noteq> Greater \<Longrightarrow> r \<noteq> Greater"
  shows "(if z \<noteq> Equal then z else r) \<noteq> Greater"
  using assms by (cases x; cases y; simp)

lemma reverse_ordering_eq [simp]:
  "reverse_ordering x = reverse_ordering y \<longleftrightarrow> x = y" "reverse_ordering x = Equal \<longleftrightarrow> x = Equal"
  by (cases x; cases y; simp)+

lemma row_compare_trans:
  assumes "a \<in> sortable_rows Ts keys" "b \<in> sortable_rows Ts keys" "c \<in> sortable_rows Ts keys"
    and "row_compare keys a b \<noteq> Greater" "row_compare keys b c \<noteq> Greater"
  shows "row_compare keys a c \<noteq> Greater"
  using assms
proof (induction keys)
  case (Cons k ks)
  obtain i d where k: "k = (i, d)" by (cases k)
  have t: "has_type (a ! i) (Ts ! i)" "has_type (b ! i) (Ts ! i)" "has_type (c ! i) (Ts ! i)"
    using Cons.prems k by (auto simp: sortable_rows_def list_all2_conv_all_nth)
  have sub: "x \<in> sortable_rows Ts (k # ks) \<Longrightarrow> x \<in> sortable_rows Ts ks" for x by (simp add: sortable_rows_def)
  note IH = Cons.IH [OF Cons.prems(1-3) [THEN sub]]
  note ch = column_order.chain [of "a ! i" "Ts ! i" "b ! i" "c ! i"]
  let ?f = "\<lambda>x. if d then reverse_ordering x else x"
  have step: "row_compare (k # ks) x y = (if ?f (value_ordering (x ! i) (y ! i)) \<noteq> Equal
      then ?f (value_ordering (x ! i) (y ! i)) else row_compare ks x y)" for x y by (simp add: k Let_def)
  show ?case
    unfolding step
    by (rule lex_le_trans [where x = "?f (value_ordering (a ! i) (b ! i))" and y = "?f (value_ordering (b ! i) (c ! i))",
        OF _ _ _ Cons.prems(4,5) [unfolded step] IH]) (use ch t in \<open>auto split: if_splits\<close>)
qed simp

interpretation row_order: total_preorder_on "sortable_rows Ts keys" "row_compare keys" for Ts keys
  by unfold_locales (use row_compare_swap row_compare_trans in blast)+

lemma row_compare_Equal_iff:
  "a \<in> sortable_rows Ts keys \<Longrightarrow> b \<in> sortable_rows Ts keys \<Longrightarrow>
     row_compare keys a b = Equal \<longleftrightarrow> map (\<lambda>(i, d). a ! i) keys = map (\<lambda>(i, d). b ! i) keys"
proof (induction keys)
  case (Cons k ks)
  obtain i d where k: "k = (i, d)" by (cases k)
  have t: "has_type (a ! i) (Ts ! i)" "has_type (b ! i) (Ts ! i)"
    using Cons.prems k by (auto simp: sortable_rows_def list_all2_conv_all_nth)
  have "a \<in> sortable_rows Ts ks" "b \<in> sortable_rows Ts ks"
    using Cons.prems by (simp_all add: sortable_rows_def)
  with Cons.IH value_ordering_Equal_iff [OF t] show ?case
    by (cases "value_ordering (a ! i) (b ! i)") (auto simp: k Let_def)
qed simp

section \<open>The page of a sorted result\<close>

text \<open>What \<^verbatim>\<open>select_nth_unstable_by\<close> promises for an order on the given rows.\<close>

definition selects :: "selector \<Rightarrow> (row \<Rightarrow> row \<Rightarrow> ordering) \<Rightarrow> row list \<Rightarrow> bool" where
  "selects sel cmp rows \<longleftrightarrow>
     (\<forall>k < length rows. mset (sel cmp k rows) = mset rows \<and>
        (\<forall>i < k. cmp (sel cmp k rows ! i) (sel cmp k rows ! k) \<noteq> Greater) \<and>
        (\<forall>j < length rows. k < j \<longrightarrow> cmp (sel cmp k rows ! k) (sel cmp k rows ! j) \<noteq> Greater))"

definition page :: "u64 option \<Rightarrow> u64 option \<Rightarrow> 'a list \<Rightarrow> 'a list" where
  "page limit offset xs = take (page_length limit) (drop (page_start offset) xs)"

context total_preorder_on
begin

lemma append_sortedI:
  "sorted_by cmp xs \<Longrightarrow> sorted_by cmp ys \<Longrightarrow> (\<And>x y. x \<in> set xs \<Longrightarrow> y \<in> set ys \<Longrightarrow> cmp x y \<noteq> Greater)
   \<Longrightarrow> sorted_by cmp (xs @ ys)"
  by (auto simp: sorted_by_def sorted_wrt_append)

text \<open>Sorting the front part of a partition gives the front part of the full sort.\<close>

lemma partial_sort_agree:
  assumes m: "mset (us @ vs) = mset xs" and S: "set xs \<subseteq> S"
    and p: "\<And>u v. u \<in> set us \<Longrightarrow> v \<in> set vs \<Longrightarrow> cmp u v \<noteq> Greater"
  shows "list_all2 (\<lambda>a b. cmp a b = Equal) (sort_by cmp us) (take (length us) (sort_by cmp xs))"
proof -
  have st: "set (sort_by cmp zs) = set zs" for zs by (metis sort_by_mset set_mset_mset)
  have len: "length (sort_by cmp us) = length us" by (metis sort_by_mset size_mset)
  have uv: "set us \<subseteq> S" "set vs \<subseteq> S" using m S by (metis Un_subset_iff set_append set_mset_mset)+
  have "sorted_by cmp (sort_by cmp us @ sort_by cmp vs)"
    using p by (intro append_sortedI sort_by_sorted uv) (simp_all add: st)
  moreover have "mset (sort_by cmp us @ sort_by cmp vs) = mset (sort_by cmp xs)" using m by simp
  moreover have "set (sort_by cmp us @ sort_by cmp vs) \<subseteq> S" using uv by (simp add: st)
  ultimately have "list_all2 (\<lambda>a b. cmp a b = Equal) (sort_by cmp us @ sort_by cmp vs) (sort_by cmp xs)"
    by (intro sorted_agree sort_by_sorted S)
  from list_all2_takeI [OF this, of "length us"] len show ?thesis by simp
qed

lemma sort_by_unique:
  assumes "mset xs = mset ys" "set xs \<subseteq> S" "\<And>a b. a \<in> S \<Longrightarrow> b \<in> S \<Longrightarrow> cmp a b = Equal \<Longrightarrow> a = b"
  shows "sort_by cmp xs = sort_by cmp ys"
proof -
  have st: "set (sort_by cmp zs) = set zs" for zs by (metis sort_by_mset set_mset_mset)
  have y: "set ys \<subseteq> S" using assms(1,2) by (metis set_mset_mset)
  have "list_all2 (\<lambda>a b. cmp a b = Equal) (sort_by cmp xs) (sort_by cmp ys)"
    using assms(1,2) y by (intro sorted_agree sort_by_sorted) (simp_all add: st)
  then have "list_all2 (=) (sort_by cmp xs) (sort_by cmp ys)"
    by (rule list.rel_mono_strong) (use assms(2,3) y in \<open>auto simp: st subset_iff\<close>)
  then show ?thesis by (simp add: list.rel_eq)
qed

end

definition key_values :: "(nat \<times> bool) list \<Rightarrow> row \<Rightarrow> value list" where
  "key_values keys row = map (\<lambda>(i, d). row ! i) keys"

lemma sort_by_set [simp]: "set (sort_by cmp xs) = set xs"
  by (metis total_preorder_on.sort_by_mset [of "{}" cmp] total_preorder_on.intro empty_iff set_mset_mset)

lemma selected_front_agrees:
  assumes S: "set rows \<subseteq> sortable_rows Ts keys" and sel: "selects sel (row_compare keys) rows"
    and k: "0 < keep" "keep < length rows"
  shows "list_all2 (\<lambda>a b. row_compare keys a b = Equal)
    (sort_by (row_compare keys) (take keep (sel (row_compare keys) (keep - 1) rows)))
    (take keep (sort_by (row_compare keys) rows))"
proof -
  let ?s = "sel (row_compare keys) (keep - 1) rows"
  from sel k have m: "mset ?s = mset rows"
    and lo: "\<And>i. i < keep - 1 \<Longrightarrow> row_compare keys (?s ! i) (?s ! (keep - 1)) \<noteq> Greater"
    and hi: "\<And>j. j < length rows \<Longrightarrow> keep - 1 < j \<Longrightarrow> row_compare keys (?s ! (keep - 1)) (?s ! j) \<noteq> Greater"
    by (simp_all add: selects_def)
  have len: "length ?s = length rows" and sS: "set ?s \<subseteq> sortable_rows Ts keys"
    using m S by (metis size_mset) (metis m S set_mset_mset)
  have p: "?s ! (keep - 1) \<in> sortable_rows Ts keys" using sS len k by (simp add: subset_iff)
  have "row_compare keys u v \<noteq> Greater" if "u \<in> set (take keep ?s)" "v \<in> set (drop keep ?s)" for u v
  proof -
    from that(1) obtain i where i: "i < keep" "u = ?s ! i" "i < length ?s" by (auto simp: in_set_conv_nth)
    from that(2) obtain j where "j < length (drop keep ?s)" "v = drop keep ?s ! j" by (auto simp: in_set_conv_nth)
    then have j: "keep + j < length ?s" "v = ?s ! (keep + j)" by simp_all
    have uv: "u \<in> sortable_rows Ts keys" "v \<in> sortable_rows Ts keys" using sS i j by (auto simp: subset_iff)
    have "row_compare keys u (?s ! (keep - 1)) \<noteq> Greater"
      using lo [of i] i(1,2) row_order.refl [OF p] by (cases "i = keep - 1") auto
    moreover have "row_compare keys (?s ! (keep - 1)) v \<noteq> Greater" using hi [of "keep + j"] j len k by simp
    ultimately show ?thesis using row_order.trans [OF uv(1) p uv(2)] by blast
  qed
  then have "list_all2 (\<lambda>a b. row_compare keys a b = Equal) (sort_by (row_compare keys) (take keep ?s))
      (take (length (take keep ?s)) (sort_by (row_compare keys) rows))"
    using m by (intro row_order.partial_sort_agree [OF _ S, where vs = "drop keep ?s"]) simp_all
  then show ?thesis using k len by simp
qed

lemma page_take: "page_start offset + page_length limit \<le> k \<Longrightarrow> page limit offset (take k xs) = page limit offset xs"
  by (simp add: page_def drop_take min_absorb1)

lemma list_all2_page: "list_all2 P xs ys \<Longrightarrow> list_all2 P (page limit offset xs) (page limit offset ys)"
  by (simp add: page_def list_all2_takeI list_all2_dropI)

lemma sort_and_paginate_agrees:
  assumes S: "set rows \<subseteq> sortable_rows Ts keys" and sel: "selects sel (row_compare keys) rows"
    and len: "length rows < 2 ^ 64" and ne: "keys \<noteq> []"
  shows "list_all2 (\<lambda>a b. row_compare keys a b = Equal)
    (sort_and_paginate sel rows keys limit offset) (page limit offset (sort_by (row_compare keys) rows))"
proof -
  define keep where "keep = min (page_start offset + page_length limit) (2 ^ 64 - 1)"
  let ?full = "sort_by (row_compare keys) rows"
  show ?thesis
  proof (cases "0 < keep \<and> keep < length rows")
    case True
    then have "page_start offset + page_length limit = keep" using len by (simp add: keep_def min_def split: if_splits)
    then have "page limit offset (take keep ?full) = page limit offset ?full" by (simp add: page_take)
    with list_all2_page [OF selected_front_agrees [OF S sel True [THEN conjunct1] True [THEN conjunct2]], of limit offset]
    show ?thesis using True ne by (simp add: sort_and_paginate_def page_def keep_def Let_def)
  next
    case False
    have "list_all2 (\<lambda>a b. row_compare keys a b = Equal) ?full ?full"
      using row_order.refl S by (intro list.rel_refl_strong) auto
    from list_all2_page [OF this, of limit offset] False ne show ?thesis
      by (auto simp: sort_and_paginate_def page_def keep_def Let_def)
  qed
qed

lemma take_subset: "mset (take n xs) \<subseteq># mset xs"
  by (metis append_take_drop_id mset_append mset_subset_eq_add_left)

lemma drop_subset: "mset (drop n xs) \<subseteq># mset xs"
  by (metis append_take_drop_id mset_append mset_subset_eq_add_right)

lemma sorted_by_page: "sorted_by cmp xs \<Longrightarrow> sorted_by cmp (page limit offset xs)"
  by (simp add: sorted_by_def page_def sorted_wrt_take sorted_wrt_drop)

lemma list_all2_map_eq: "list_all2 (\<lambda>a b. f a = f b) xs ys \<Longrightarrow> map f xs = map f ys"
  by (induction rule: list_all2_induct) simp_all

text \<open>What the code returns is a page of the sorted arrangement of some of the rows.\<close>

lemma sort_and_paginate_page:
  assumes sel: "selects sel (row_compare keys) rows" and ne: "keys \<noteq> []"
  obtains rows1 where "sort_and_paginate sel rows keys limit offset = page limit offset (sort_by (row_compare keys) rows1)"
    "mset rows1 \<subseteq># mset rows"
proof -
  define keep where "keep = min (page_start offset + page_length limit) (2 ^ 64 - 1)"
  let ?s = "sel (row_compare keys) (keep - 1) rows"
  show thesis
  proof (cases "0 < keep \<and> keep < length rows")
    case True
    then have "keep - 1 < length rows" by linarith
    with sel have "mset ?s = mset rows" unfolding selects_def by blast
    then have "mset (take keep ?s) \<subseteq># mset rows" using take_subset [of keep ?s] by simp
    with True ne show ?thesis
      by (intro that [of "take keep ?s"]) (simp_all add: sort_and_paginate_def page_def keep_def Let_def)
  next
    case False
    with ne show ?thesis
      by (intro that [of rows]) (auto simp: sort_and_paginate_def page_def keep_def Let_def)
  qed
qed

text \<open>
  Claim (C19). \<^verbatim>\<open>ORDER BY\<close> with \<^verbatim>\<open>OFFSET\<close> and \<^verbatim>\<open>LIMIT\<close> on rows of one table type.  The code
  selects the rows of the page before it sorts them.  The page has the sort keys of the same page of
  a full sort, in the same order; it is sorted; and its rows are rows of the input, none of them more
  often than there.
\<close>

theorem sort_page_correct:
  assumes typed: "\<forall>row \<in> set rows. list_all2 has_type row Ts" and keys: "\<forall>(i, d) \<in> set keys. i < length Ts"
    and sel: "selects sel (row_compare keys) rows" and len: "length rows < 2 ^ 64" and ne: "keys \<noteq> []"
  shows "map (key_values keys) (sort_and_paginate sel rows keys limit offset)
      = map (key_values keys) (page limit offset (sort_by (row_compare keys) rows))
    \<and> sorted_by (row_compare keys) (sort_and_paginate sel rows keys limit offset)
    \<and> mset (sort_and_paginate sel rows keys limit offset) \<subseteq># mset rows"
proof -
  have S: "set rows \<subseteq> sortable_rows Ts keys"
    using typed keys by (force simp: sortable_rows_def list_all_iff dest: list_all2_lengthD)
  obtain rows1 where r: "sort_and_paginate sel rows keys limit offset = page limit offset (sort_by (row_compare keys) rows1)"
    "mset rows1 \<subseteq># mset rows" by (rule sort_and_paginate_page [OF sel ne])
  then have S1: "set rows1 \<subseteq> sortable_rows Ts keys" using S by (meson mset_subset_eqD set_mset_mset subset_code(1) in_multiset_in_set)
  have sub: "mset (page limit offset (sort_by (row_compare keys) rows1)) \<subseteq># mset rows"
    using take_subset drop_subset r(2) by (metis page_def row_order.sort_by_mset subset_mset.order_trans)
  have pS: "set (page limit offset xs) \<subseteq> sortable_rows Ts keys" if "set xs \<subseteq> sortable_rows Ts keys" for xs
    using that by (auto simp: page_def dest!: in_set_takeD in_set_dropD)
  have "list_all2 (\<lambda>a b. key_values keys a = key_values keys b)
      (sort_and_paginate sel rows keys limit offset) (page limit offset (sort_by (row_compare keys) rows))"
    using sort_and_paginate_agrees [OF S sel len ne, of limit offset]
  proof (rule list.rel_mono_strong)
    fix a b
    assume "a \<in> set (sort_and_paginate sel rows keys limit offset)"
      and "b \<in> set (page limit offset (sort_by (row_compare keys) rows))" and e: "row_compare keys a b = Equal"
    then have "a \<in> sortable_rows Ts keys" "b \<in> sortable_rows Ts keys"
      using pS [of "sort_by (row_compare keys) rows"] pS [of "sort_by (row_compare keys) rows1"] S S1
      unfolding r(1) sort_by_set by blast+
    from row_compare_Equal_iff [OF this] e show "key_values keys a = key_values keys b" by (simp add: key_values_def)
  qed
  then have "map (key_values keys) (sort_and_paginate sel rows keys limit offset)
      = map (key_values keys) (page limit offset (sort_by (row_compare keys) rows))"
    by (simp add: list_all2_map_eq)
  moreover have "sorted_by (row_compare keys) (sort_and_paginate sel rows keys limit offset)"
    unfolding r(1) by (intro sorted_by_page row_order.sort_by_sorted [OF S1])
  ultimately show ?thesis using sub unfolding r(1) [symmetric] by blast
qed

theorem sort_page_correct_witness:
  "sort_and_paginate (\<lambda>cmp k xs. sort_by cmp xs) [[VInt 3], [VInt 1], [VNull], [VInt 2]] [(0, True)] (Some 2) (Some 1)
     = [[VInt 2], [VInt 1]]
   \<and> map (key_values [(0, True)]) (sort_and_paginate (\<lambda>cmp k xs. sort_by cmp xs) [[VInt 3], [VInt 1], [VNull], [VInt 2]] [(0, True)] (Some 2) (Some 1))
     = map (key_values [(0, True)]) (page (Some 2) (Some 1) (sort_by (row_compare [(0, True)]) [[VInt 3], [VInt 1], [VNull], [VInt 2]]))"
proof
  let ?rows = "[[VInt 3], [VInt 1], [VNull], [VInt 2]]" and ?keys = "[(0 :: nat, True)]"
  have s: "sort_by (row_compare ?keys) ?rows = [[VInt 3], [VInt 2], [VInt 1], [VNull]]" by code_simp
  have "selects (\<lambda>cmp k xs. sort_by cmp xs) (row_compare ?keys) ?rows"
    unfolding selects_def s by code_simp
  then show "map (key_values ?keys) (sort_and_paginate (\<lambda>cmp k xs. sort_by cmp xs) ?rows ?keys (Some 2) (Some 1))
     = map (key_values ?keys) (page (Some 2) (Some 1) (sort_by (row_compare ?keys) ?rows))"
    using sort_page_correct [of ?rows "[TInt]" ?keys "\<lambda>cmp k xs. sort_by cmp xs" "Some 2" "Some 1"] by simp
qed code_simp

end
