(* ===== verification/Rust_Chars.thy ===== *)
theory Rust_Chars
  imports Rust_Bytes
begin

text \<open>
  The characters of a string.  A Rust \<^verbatim>\<open>char\<close> is represented by its UTF-8 encoding, so
  \<^verbatim>\<open>str::chars\<close> splits the bytes of a string before each byte that is not a continuation
  byte, and collecting characters into a \<^verbatim>\<open>String\<close> is \<open>concat\<close>.
\<close>

definition is_cont_byte :: "char \<Rightarrow> bool" where
  "is_cont_byte c \<longleftrightarrow> 128 \<le> (of_char c :: nat) \<and> (of_char c :: nat) < 192"

type_synonym rchar = string

function chars_of :: "string \<Rightarrow> rchar list" where
  "chars_of [] = []"
| "chars_of (c # cs) = (c # takeWhile is_cont_byte cs) # chars_of (dropWhile is_cont_byte cs)"
  by pat_completeness auto
termination
  by (relation "measure length") (auto simp: length_dropWhile_le less_Suc_eq_le)

lemma concat_chars_of [simp]: "concat (chars_of s) = s"
  by (induction s rule: chars_of.induct) simp_all

lemma chars_of_nonempty: "[] \<notin> set (chars_of s)"
  by (induction s rule: chars_of.induct) simp_all

text \<open>ASCII characters are one byte, so the characters of an ASCII string are its bytes.\<close>

lemma chars_of_ascii: "list_all is_ascii s \<Longrightarrow> chars_of s = map (\<lambda>c. [c]) s"
proof (induction s)
  case (Cons c cs)
  have "\<not> is_cont_byte d" if "is_ascii d" for d
    using that by (simp add: is_ascii_def is_cont_byte_def)
  with Cons have "takeWhile is_cont_byte cs = []" "dropWhile is_cont_byte cs = cs"
    by (cases cs; simp)+
  with Cons show ?case by simp
qed simp

text \<open>The ASCII classes of a character.\<close>

definition in_char_range :: "char \<Rightarrow> char \<Rightarrow> rchar \<Rightarrow> bool" where
  "in_char_range lo hi r \<longleftrightarrow>
     (case r of [c] \<Rightarrow> (of_char lo :: nat) \<le> of_char c \<and> (of_char c :: nat) \<le> of_char hi | _ \<Rightarrow> False)"

definition is_digit_rchar :: "rchar \<Rightarrow> bool" where
  "is_digit_rchar = in_char_range (CHR ''0'') (CHR ''9'')"

definition is_ascii_letter :: "rchar \<Rightarrow> bool" where
  "is_ascii_letter r \<longleftrightarrow> in_char_range (CHR ''a'') (CHR ''z'') r \<or> in_char_range (CHR ''A'') (CHR ''Z'') r"

definition is_ascii_rchar :: "rchar \<Rightarrow> bool" where
  "is_ascii_rchar r \<longleftrightarrow> (case r of [c] \<Rightarrow> is_ascii c | _ \<Rightarrow> False)"

definition is_whitespace :: "rchar \<Rightarrow> bool" where
  "is_whitespace r \<longleftrightarrow> r \<in> set ws_chars"

end
