(* ===== verification/Exec_Values.thy ===== *)
theory Exec_Values
  imports Exec_Order Rust_Chars Storage_Table
begin

text \<open>
  Literals, column definitions and patterns (\<^verbatim>\<open>src/src/query/executor.rs\<close>, lines 1264 to 1422):
  a literal becomes a value of its column's type, the values of an \<^verbatim>\<open>INSERT\<close> are put in the
  order of the table's columns, and \<^verbatim>\<open>LIKE\<close> patterns are matched by dynamic programming.
\<close>

section \<open>Literals\<close>

definition err_date_literal :: "string \<Rightarrow> exn" where
  "err_date_literal c = Err (Execution (''Incorrect date value for column '' @ quoted c
     @ '': expected a '' @ quoted ''YYYY-MM-DD'' @ '' string''))"

definition err_literal_required :: "string \<Rightarrow> exn" where
  "err_literal_required c = Err (Execution (''a literal value is required for column '' @ quoted c))"

definition err_unbound :: exn where
  "err_unbound = Err (Execution (''unbound '' @ quoted ''?'' @ '' parameter reached the executor''))"

fun coerce :: "expr \<Rightarrow> column_type \<Rightarrow> string \<Rightarrow> value result" where
  "coerce ENull _ _ = Ok VNull"
| "coerce (EInteger n) TInt _ = Ok (VInt n)"
| "coerce (EInteger n) TVarchar _ = Ok (VVarchar (show_i64 n))"
| "coerce (EString s) TVarchar _ = Ok (VVarchar s)"
| "coerce (EString s) TInt c = map_result VInt (ok_or (err_integer_value s c) (parse_i64 s))"
| "coerce (EInteger n) (TDecimal scale) c =
     map_result (\<lambda>u. VDecimal u scale) (rescale_decimal n 0 scale c)"
| "coerce (EDecimal unscaled lit_scale) (TDecimal scale) c =
     map_result (\<lambda>u. VDecimal u scale) (rescale_decimal unscaled lit_scale scale c)"
| "coerce (EDecimal unscaled lit_scale) TInt c =
     map_result VInt (rescale_decimal unscaled lit_scale 0 c)"
| "coerce (EDecimal unscaled lit_scale) TVarchar _ = Ok (VVarchar (format_decimal unscaled lit_scale))"
| "coerce (EString s) (TDecimal scale) c =
     bindR (parse_decimal_literal s c) (\<lambda>(unscaled, lit_scale).
     map_result (\<lambda>u. VDecimal u scale) (rescale_decimal unscaled lit_scale scale c))"
| "coerce (EString s) TDate c = map_result VDate (parse_date_literal s c)"
| "coerce (EInteger _) TDate c = Inl (err_date_literal c)"
| "coerce (EDecimal _ _) TDate c = Inl (err_date_literal c)"
| "coerce (ESystemVariable _) _ c = Inl (err_literal_required c)"
| "coerce (EColumn _) _ c = Inl (err_literal_required c)"
| "coerce (EFunction _ _) _ c = Inl (err_literal_required c)"
| "coerce (EPlaceholder _) _ _ = Inl err_unbound"

lemma coerce_has_type: "coerce e T c = Ok v \<Longrightarrow> has_type v T"
  by (cases e; cases T) (auto simp: result_simps split: prod.splits)


section \<open>Column definitions\<close>

definition err_unknown_type :: "string \<Rightarrow> string \<Rightarrow> exn" where
  "err_unknown_type ty c = Err (Execution (''Unknown column type '' @ quoted ty @ '' for column '' @ quoted c))"

definition column_def_to_schema :: "column_def \<Rightarrow> (column_schema \<times> bool) result" where
  "column_def_to_schema col =
     bindR (ok_or (err_unknown_type (cd_type_name col) (cd_name col)) (from_name (cd_type_name col))) (\<lambda>column_type.
     Ok (\<lparr>cs_name = cd_name col, cs_type = column_type,
           cs_nullable = (\<not> cd_is_primary_key col \<and> cd_nullable col),
           cs_auto_increment = cd_auto_increment col\<rparr>, cd_is_primary_key col))"

definition column_index :: "column_schema list \<Rightarrow> string \<Rightarrow> nat result" where
  "column_index table_columns name =
     ok_or (err_unknown_column name) (position (\<lambda>c. cs_name c = name) table_columns)"

section \<open>The column list of an INSERT\<close>

definition err_value_count :: "nat \<Rightarrow> nat \<Rightarrow> exn" where
  "err_value_count named given = Err (Execution (''Column count doesn'' @ [CHR 0x27] @ ''t match value count: ''
     @ show_nat named @ '' column(s) named, '' @ show_nat given @ '' value(s) given''))"

definition err_field_list :: "string \<Rightarrow> exn" where
  "err_field_list col = Err (Execution (''Unknown column '' @ quoted col @ '' in field list''))"

definition err_no_default :: "string \<Rightarrow> exn" where
  "err_no_default col = Err (Execution (''Column '' @ quoted col @ '' has no default value and was not given a value''))"

fun take_named :: "(string \<rightharpoonup> expr) \<Rightarrow> column_schema list \<Rightarrow> expr list result" where
  "take_named named [] = Ok []"
| "take_named named (col # cols) =
     (case named (cs_name col) of
        Some e \<Rightarrow> map_result (Cons e) (take_named (named(cs_name col := None)) cols)
      | None \<Rightarrow>
          if cs_auto_increment col then map_result (Cons ENull) (take_named named cols)
          else Inl (err_no_default (cs_name col)))"

definition reorder_exprs :: "column_schema list \<Rightarrow> string list \<Rightarrow> expr list \<Rightarrow> expr list result" where
  "reorder_exprs table_columns insert_columns values =
     (if length insert_columns \<noteq> length values
      then Inl (err_value_count (length insert_columns) (length values))
      else case find (\<lambda>col. \<not> list_ex (\<lambda>c. cs_name c = col) table_columns) insert_columns of
        Some col \<Rightarrow> Inl (err_field_list col)
      | None \<Rightarrow>
          take_named (fold (\<lambda>(col, e) named. named(col \<mapsto> e)) (zip insert_columns values) Map.empty) table_columns)"

text \<open>
  Every column gets the expression named for it, the last one if it is named twice; only
  \<^verbatim>\<open>AUTO_INCREMENT\<close> columns may be left out.
\<close>

definition named_expr :: "string list \<Rightarrow> expr list \<Rightarrow> column_schema \<Rightarrow> expr option" where
  "named_expr ins vals col =
     (case map_of (rev (zip ins vals)) (cs_name col) of
        Some e \<Rightarrow> Some e
      | None \<Rightarrow> if cs_auto_increment col then Some ENull else None)"

lemma fold_named: "fold (\<lambda>(col, e) named. named(col \<mapsto> e)) ps m = m ++ map_of (rev ps)"
  by (induction ps arbitrary: m) (auto simp: fun_eq_iff map_add_def split: option.splits)

lemma take_named_Ok:
  "distinct (map cs_name cols) \<Longrightarrow> take_named named cols = Ok es \<longleftrightarrow>
     list_all2 (\<lambda>col e. (case named (cs_name col) of Some e \<Rightarrow> Some e
        | None \<Rightarrow> if cs_auto_increment col then Some ENull else None) = Some e) cols es"
proof (induction cols arbitrary: named es)
  case (Cons col cols)
  have "list_all2 (\<lambda>c e. (case (named(cs_name col := None)) (cs_name c) of Some e \<Rightarrow> Some e
        | None \<Rightarrow> if cs_auto_increment c then Some ENull else None) = Some e) cols es'
     \<longleftrightarrow> list_all2 (\<lambda>c e. (case named (cs_name c) of Some e \<Rightarrow> Some e
        | None \<Rightarrow> if cs_auto_increment c then Some ENull else None) = Some e) cols es'" for es'
    using Cons.prems by (intro list.rel_cong) (auto simp: image_iff)
  with Cons show ?case
    by (auto simp: list_all2_Cons1 result_simps split: option.splits if_splits)
qed auto

lemma reorder_exprs_Ok:
  assumes "distinct (map cs_name cols)" "reorder_exprs cols ins vals = Ok es"
  shows "list_all2 (\<lambda>col e. named_expr ins vals col = Some e) cols es"
  using assms by (auto simp: reorder_exprs_def fold_named take_named_Ok named_expr_def split: if_splits option.splits)

section \<open>Patterns\<close>

definition dp_set :: "bool list list \<Rightarrow> nat \<Rightarrow> nat \<Rightarrow> bool \<Rightarrow> bool list list" where
  "dp_set dp i j b = dp[i := (dp ! i)[j := b]]"

definition dp_cell :: "rchar list \<Rightarrow> rchar list \<Rightarrow> bool list list \<Rightarrow> nat \<Rightarrow> nat \<Rightarrow> bool" where
  "dp_cell p t dp i j =
     (if p ! (i - 1) = ''%'' then dp ! (i - 1) ! j \<or> dp ! i ! (j - 1)
      else if p ! (i - 1) = ''_'' then dp ! (i - 1) ! (j - 1)
      else dp ! (i - 1) ! (j - 1) \<and> p ! (i - 1) = t ! (j - 1))"

definition like_matches :: "string \<Rightarrow> string \<Rightarrow> bool" where
  "like_matches pattern txt =
     (let p = chars_of (to_ascii_lowercase pattern);
          t = chars_of (to_ascii_lowercase txt);
          np = length p;
          nt = length t;
          dp = replicate (np + 1) (replicate (nt + 1) False);
          dp = dp_set dp 0 0 True;
          dp = fold (\<lambda>i dp. if p ! (i - 1) = ''%'' then dp_set dp i 0 (dp ! (i - 1) ! 0) else dp) [1..<np + 1] dp;
          dp = fold (\<lambda>i dp. fold (\<lambda>j dp. dp_set dp i j (dp_cell p t dp i j)) [1..<nt + 1] dp) [1..<np + 1] dp
      in dp ! np ! nt)"

section \<open>What a pattern means\<close>

text \<open>
  A text matches when it splits into one segment for every pattern character: any segment for
  \<^verbatim>\<open>%\<close>, one character for \<^verbatim>\<open>_\<close>, and the character itself otherwise.
\<close>

definition segment_ok :: "rchar \<Rightarrow> rchar list \<Rightarrow> bool" where
  "segment_ok c seg \<longleftrightarrow> (if c = ''%'' then True else if c = ''_'' then length seg = 1 else seg = [c])"

definition wildcard :: "rchar list \<Rightarrow> rchar list \<Rightarrow> bool" where
  "wildcard p t \<longleftrightarrow> (\<exists>segs. list_all2 segment_ok p segs \<and> concat segs = t)"

lemma wildcard_Nil [simp]: "wildcard [] t \<longleftrightarrow> t = []"
  by (auto simp: wildcard_def)

lemma wildcard_snoc: "wildcard (p @ [c]) t \<longleftrightarrow> (\<exists>u v. t = u @ v \<and> wildcard p u \<and> segment_ok c v)"
proof -
  have 1: "list_all2 segment_ok (p @ [c]) (us @ [v]) \<longleftrightarrow> segment_ok c v \<and> list_all2 segment_ok p us" for us v
    using list_all2_rev [of segment_ok "p @ [c]" "us @ [v]"] by (simp add: list_all2_rev)
  show ?thesis
  proof
    assume "wildcard (p @ [c]) t"
    then obtain segs where segs: "list_all2 segment_ok (p @ [c]) segs" "concat segs = t" by (auto simp: wildcard_def)
    then obtain us v where "segs = us @ [v]" by (cases segs rule: rev_cases) auto
    with segs 1 show "\<exists>u v. t = u @ v \<and> wildcard p u \<and> segment_ok c v"
      by (intro exI [of _ "concat us"] exI [of _ v]) (auto simp: wildcard_def)
  next
    assume "\<exists>u v. t = u @ v \<and> wildcard p u \<and> segment_ok c v"
    then obtain us v where "t = concat us @ v" "list_all2 segment_ok p us" "segment_ok c v" by (auto simp: wildcard_def)
    then show "wildcard (p @ [c]) t" unfolding wildcard_def using 1 by (intro exI [of _ "us @ [v]"]) simp
  qed
qed

lemma wildcard_snoc_Nil: "wildcard (p @ [c]) [] \<longleftrightarrow> c = ''%'' \<and> wildcard p []"
  by (auto simp: wildcard_snoc segment_ok_def)

lemma wildcard_snoc_snoc:
  "wildcard (p @ [c]) (t @ [x]) \<longleftrightarrow>
     (if c = ''%'' then wildcard p (t @ [x]) \<or> wildcard (p @ [c]) t
      else if c = ''_'' then wildcard p t else wildcard p t \<and> c = x)"
proof (cases "c = ''%''")
  case True
  have "(\<exists>u v. t @ [x] = u @ v \<and> wildcard p u) \<longleftrightarrow> wildcard p (t @ [x]) \<or> (\<exists>u v. t = u @ v \<and> wildcard p u)"
    (is "?l \<longleftrightarrow> ?r")
  proof
    assume ?l
    then obtain u v where uv: "t @ [x] = u @ v" "wildcard p u" by blast
    then show ?r by (cases v rule: rev_cases) auto
  next
    assume ?r
    then show ?l by (metis append.assoc append_Nil2)
  qed
  with True show ?thesis by (simp add: wildcard_snoc segment_ok_def)
next
  case False
  then have seg: "segment_ok c v \<longleftrightarrow> (\<exists>y. v = [y] \<and> (c = ''_'' \<or> c = y))" for v
    by (auto simp: segment_ok_def length_Suc_conv)
  have "wildcard (p @ [c]) (t @ [x]) \<longleftrightarrow> wildcard p t \<and> (c = ''_'' \<or> c = x)"
  proof
    assume "wildcard (p @ [c]) (t @ [x])"
    then obtain u y where "t @ [x] = u @ [y]" "wildcard p u" "c = ''_'' \<or> c = y" by (auto simp: wildcard_snoc seg)
    then show "wildcard p t \<and> (c = ''_'' \<or> c = x)" by simp
  next
    assume "wildcard p t \<and> (c = ''_'' \<or> c = x)"
    then show "wildcard (p @ [c]) (t @ [x])"
      unfolding wildcard_snoc seg by (intro exI [of _ t] exI [of _ "[x]"]) simp
  qed
  with False show ?thesis by simp
qed

abbreviation prefixes_match :: "rchar list \<Rightarrow> rchar list \<Rightarrow> nat \<Rightarrow> nat \<Rightarrow> bool" where
  "prefixes_match p t a b \<equiv> wildcard (take a p) (take b t)"

lemma prefixes_match_column:
  "i < length p \<Longrightarrow> prefixes_match p t (Suc i) 0 \<longleftrightarrow> p ! i = ''%'' \<and> prefixes_match p t i 0"
  by (simp add: take_Suc_conv_app_nth wildcard_snoc_Nil)

lemma prefixes_match_cell:
  "i < length p \<Longrightarrow> j < length t \<Longrightarrow> prefixes_match p t (Suc i) (Suc j) \<longleftrightarrow>
     (if p ! i = ''%'' then prefixes_match p t i (Suc j) \<or> prefixes_match p t (Suc i) j
      else if p ! i = ''_'' then prefixes_match p t i j else prefixes_match p t i j \<and> p ! i = t ! j)"
  by (simp add: take_Suc_conv_app_nth wildcard_snoc_snoc)

section \<open>The table of the pattern matcher\<close>

definition dp_shape :: "nat \<Rightarrow> nat \<Rightarrow> bool list list \<Rightarrow> bool" where
  "dp_shape np nt dp \<longleftrightarrow> length dp = np + 1 \<and> (\<forall>a \<le> np. length (dp ! a) = nt + 1)"

lemma dp_shape_set [simp]: "dp_shape np nt dp \<Longrightarrow> dp_shape np nt (dp_set dp i j b)"
  by (cases "i < length dp") (auto simp: dp_shape_def dp_set_def nth_list_update list_update_beyond)

lemma dp_set_get:
  "dp_shape np nt dp \<Longrightarrow> i \<le> np \<Longrightarrow> j \<le> nt \<Longrightarrow> a \<le> np \<Longrightarrow>
     dp_set dp i j b ! a ! c = (if a = i \<and> c = j then b else dp ! a ! c)"
  by (auto simp: dp_shape_def dp_set_def nth_list_update)

lemma fold_range_invariant:
  assumes "Q 0 s" "\<And>k s. k < n \<Longrightarrow> Q k s \<Longrightarrow> Q (Suc k) (f (Suc k) s)"
  shows "Q n (fold f [1..<n + 1] s)"
  using assms(2)
proof (induction n)
  case 0
  then show ?case using assms(1) by simp
next
  case (Suc n)
  then have "Q n (fold f [1..<n + 1] s)" by simp
  with Suc.prems [of n] show ?case by simp
qed

text \<open>The first column: how far the pattern is a run of \<^verbatim>\<open>%\<close>.\<close>

definition column_done :: "rchar list \<Rightarrow> rchar list \<Rightarrow> nat \<Rightarrow> bool list list \<Rightarrow> bool" where
  "column_done p t k dp \<longleftrightarrow> dp_shape (length p) (length t) dp
     \<and> (\<forall>b \<le> length t. dp ! 0 ! b = (b = 0))
     \<and> (\<forall>a \<le> length p. dp ! a ! 0 = (a \<le> k \<and> prefixes_match p t a 0))"

lemma column_done_start:
  "column_done p t 0 (dp_set (replicate (length p + 1) (replicate (length t + 1) False)) 0 0 True)"
proof -
  define dp where "dp = replicate (length p + 1) (replicate (length t + 1) False)"
  have s: "dp_shape (length p) (length t) dp" and f: "\<And>a b. a \<le> length p \<Longrightarrow> b \<le> length t \<Longrightarrow> \<not> dp ! a ! b"
    by (simp_all add: dp_def dp_shape_def del: replicate_Suc)
  show ?thesis unfolding column_done_def dp_def [symmetric] using f by (simp add: s dp_set_get [OF s])
qed

lemma column_done_step:
  assumes "column_done p t k dp" "k < length p"
  shows "column_done p t (Suc k)
    (if p ! (Suc k - 1) = ''%'' then dp_set dp (Suc k) 0 (dp ! (Suc k - 1) ! 0) else dp)"
proof -
  have s: "dp_shape (length p) (length t) dp" using assms(1) by (simp add: column_done_def)
  show ?thesis using assms prefixes_match_column [OF assms(2), of t]
    by (auto simp: column_done_def dp_set_get [OF s] le_Suc_eq)
qed

text \<open>The rest, row by row: the cells of \<open>K\<close> are computed.\<close>

definition cells_done :: "rchar list \<Rightarrow> rchar list \<Rightarrow> (nat \<Rightarrow> nat \<Rightarrow> bool) \<Rightarrow> bool list list \<Rightarrow> bool" where
  "cells_done p t K dp \<longleftrightarrow> dp_shape (length p) (length t) dp
     \<and> (\<forall>a \<le> length p. \<forall>b \<le> length t. K a b \<longrightarrow> dp ! a ! b = prefixes_match p t a b)"

lemma cells_done_step:
  assumes "cells_done p t (\<lambda>a b. a \<le> i \<or> b = 0 \<or> a = Suc i \<and> b \<le> j) dp" "i < length p" "j < length t"
  shows "cells_done p t (\<lambda>a b. a \<le> i \<or> b = 0 \<or> a = Suc i \<and> b \<le> Suc j)
    (dp_set dp (Suc i) (Suc j) (dp_cell p t dp (Suc i) (Suc j)))"
proof -
  have s: "dp_shape (length p) (length t) dp" using assms(1) by (simp add: cells_done_def)
  have k: "dp ! a ! b = prefixes_match p t a b" if "a \<le> i \<or> b = 0 \<or> a = Suc i \<and> b \<le> j" "a \<le> length p" "b \<le> length t" for a b
    using assms(1) that unfolding cells_done_def by blast
  have "dp_cell p t dp (Suc i) (Suc j) = prefixes_match p t (Suc i) (Suc j)"
    using k [of i "Suc j"] k [of "Suc i" j] k [of i j] assms(2,3)
    by (simp add: dp_cell_def prefixes_match_cell)
  then show ?thesis using assms by (auto simp: cells_done_def dp_set_get [OF s] le_Suc_eq)
qed

lemma cells_done_row:
  assumes "cells_done p t (\<lambda>a b. a \<le> i \<or> b = 0) dp" "i < length p"
  shows "cells_done p t (\<lambda>a b. a \<le> Suc i \<or> b = 0)
    (fold (\<lambda>j dp. dp_set dp (Suc i) j (dp_cell p t dp (Suc i) j)) [1..<length t + 1] dp)"
proof -
  have "cells_done p t (\<lambda>a b. a \<le> i \<or> b = 0 \<or> a = Suc i \<and> b \<le> length t)
    (fold (\<lambda>j dp. dp_set dp (Suc i) j (dp_cell p t dp (Suc i) j)) [1..<length t + 1] dp)"
    by (rule fold_range_invariant [where Q = "\<lambda>j. cells_done p t (\<lambda>a b. a \<le> i \<or> b = 0 \<or> a = Suc i \<and> b \<le> j)"])
      (use assms cells_done_step in \<open>auto simp: cells_done_def\<close>)
  then show ?thesis by (auto simp: cells_done_def le_Suc_eq)
qed

text \<open>
  Claim (C29). The pattern matcher of \<^verbatim>\<open>SHOW ... LIKE\<close> fills a table; its answer is the meaning of
  the pattern: the text splits into one segment per pattern character, where \<^verbatim>\<open>%\<close> takes any
  segment, \<^verbatim>\<open>_\<close> one character, and every other character itself, upper and lower case ASCII
  being the same.
\<close>

theorem like_matches_correct:
  "like_matches pattern txt
     \<longleftrightarrow> wildcard (chars_of (to_ascii_lowercase pattern)) (chars_of (to_ascii_lowercase txt))"
proof -
  let ?p = "chars_of (to_ascii_lowercase pattern)" and ?t = "chars_of (to_ascii_lowercase txt)"
  let ?col = "\<lambda>i dp. if ?p ! (i - 1) = ''%'' then dp_set dp i 0 (dp ! (i - 1) ! 0) else dp"
  let ?row = "\<lambda>i dp. fold (\<lambda>j dp. dp_set dp i j (dp_cell ?p ?t dp i j)) [1..<length ?t + 1] dp"
  let ?dp0 = "dp_set (replicate (length ?p + 1) (replicate (length ?t + 1) False)) 0 0 True"
  have "column_done ?p ?t (length ?p) (fold ?col [1..<length ?p + 1] ?dp0)"
    by (rule fold_range_invariant [where Q = "column_done ?p ?t", OF column_done_start column_done_step])
  then have "cells_done ?p ?t (\<lambda>a b. a \<le> 0 \<or> b = 0) (fold ?col [1..<length ?p + 1] ?dp0)"
    by (auto simp: column_done_def cells_done_def)
  then have "cells_done ?p ?t (\<lambda>a b. a \<le> length ?p \<or> b = 0)
      (fold ?row [1..<length ?p + 1] (fold ?col [1..<length ?p + 1] ?dp0))"
    by (rule fold_range_invariant [where Q = "\<lambda>i. cells_done ?p ?t (\<lambda>a b. a \<le> i \<or> b = 0)", OF _ cells_done_row])
  then show ?thesis unfolding like_matches_def Let_def cells_done_def by simp
qed

end
