(* ===== verification/Storage_Handle.thy ===== *)
theory Storage_Handle
  imports Storage_Tx Exec_Order
begin

text \<open>
  The storage a statement runs against (\<^verbatim>\<open>&dyn Storage\<close>, \<^verbatim>\<open>src/src/storage/mod.rs\<close>):
  the shared engine, or a transaction over it.  A handle is the engine together with the
  transaction, if one is open; every method dispatches on it.  Of the methods a transaction does not
  buffer, it passes each on to the engine.
\<close>

section \<open>Dispatch\<close>

type_synonym handle = "engine \<times> tx option"

definition on_engine :: "(engine \<Rightarrow> 'r \<times> engine) \<Rightarrow> handle \<Rightarrow> 'r \<times> handle" where
  "on_engine f h = (let (r, en) = f (fst h) in (r, (en, snd h)))"

definition st_create_table :: "io_outcome \<Rightarrow> handle \<Rightarrow> string \<Rightarrow> column_schema list \<Rightarrow> string option \<Rightarrow> unit result \<times> handle" where
  "st_create_table io h name columns primary_key = on_engine (\<lambda>en. create_table io en name columns primary_key) h"

definition st_alter_table :: "io_outcome \<Rightarrow> handle \<Rightarrow> string \<Rightarrow> schema_change \<Rightarrow> unit result \<times> handle" where
  "st_alter_table io h name change = on_engine (\<lambda>en. alter_table io en name change) h"

definition st_tables :: "(tables \<Rightarrow> string list) \<Rightarrow> handle \<Rightarrow> string list result" where
  "st_tables ord h = tables ord (fst h)"

definition st_table_schema :: "handle \<Rightarrow> string \<Rightarrow> table_schema result" where
  "st_table_schema h name = get_table_schema (fst h) name"

definition st_scan :: "handle \<Rightarrow> string \<Rightarrow> row list result" where
  "st_scan h n = (case snd h of None \<Rightarrow> scan (fst h) n | Some tx \<Rightarrow> tx_scan (fst h) tx n)"

definition st_scan_filtered :: "handle \<Rightarrow> string \<Rightarrow> (row \<Rightarrow> bool) \<Rightarrow> row list result" where
  "st_scan_filtered h n P =
     (case snd h of None \<Rightarrow> scan_filtered (fst h) n P | Some tx \<Rightarrow> tx_scan_filtered (fst h) tx n P)"

definition st_lookup :: "handle \<Rightarrow> string \<Rightarrow> value \<Rightarrow> row option result" where
  "st_lookup h n key =
     (case snd h of
        None \<Rightarrow> lookup_by_primary_key (fst h) n key
      | Some tx \<Rightarrow> tx_lookup_by_primary_key (fst h) tx n key)"

definition st_insert_rows :: "io_outcome \<Rightarrow> handle \<Rightarrow> (string \<times> row) list \<Rightarrow> unit result \<times> handle" where
  "st_insert_rows io h rows =
     (case snd h of
        None \<Rightarrow> on_engine (\<lambda>en. insert_rows io en rows) h
      | Some tx \<Rightarrow> (let (r, tx') = tx_insert_rows (fst h) tx rows in (r, (fst h, Some tx'))))"

definition st_next_auto_increment :: "handle \<Rightarrow> string \<Rightarrow> i64 result \<times> handle" where
  "st_next_auto_increment h n = on_engine (\<lambda>en. next_auto_increment en n) h"

definition st_create_database :: "io_outcome \<Rightarrow> handle \<Rightarrow> string \<Rightarrow> bool \<Rightarrow> unit result \<times> handle" where
  "st_create_database io h name if_not_exists = on_engine (\<lambda>en. create_database io en name if_not_exists) h"

definition st_drop_database :: "io_outcome \<Rightarrow> handle \<Rightarrow> string \<Rightarrow> bool \<Rightarrow> unit result \<times> handle" where
  "st_drop_database io h name if_exists = on_engine (\<lambda>en. drop_database io en name if_exists) h"

definition st_databases :: "(string set \<Rightarrow> string list) \<Rightarrow> handle \<Rightarrow> string list result" where
  "st_databases ord h = databases ord (fst h)"

section \<open>What a statement sees\<close>

definition handle_db :: "handle \<Rightarrow> adb" where
  "handle_db h =
     (case snd h of
        None \<Rightarrow> abs_store (fst h)
      | Some tx \<Rightarrow> add_pending (abs_store (fst h)) (pending_rows tx))"

definition handle_inv :: "handle \<Rightarrow> bool" where
  "handle_inv h \<longleftrightarrow> (case snd h of None \<Rightarrow> store_inv (fst h) | Some tx \<Rightarrow> tx_inv (fst h, tx))"

definition db_typed :: "adb \<Rightarrow> bool" where
  "db_typed db \<longleftrightarrow> (\<forall>n sch rows. db n = Some (sch, rows) \<longrightarrow> (\<forall>row \<in> set rows. row_typed (ts_columns sch) row))"

lemma handle_db_eq:
  "handle_db h n = Some (sch, rows) \<longleftrightarrow> st_table_schema h n = Ok sch \<and> st_scan h n = Ok rows"
proof (cases h)
  case (Pair en t)
  have "abs_store en n = Some (s, rs) \<longleftrightarrow> get_table_schema en n = Ok s \<and> scan en n = Ok rs" for s rs
    by (rule abs_store_Some)
  with Pair show ?thesis
    by (cases t; cases "scan en n"; cases "abs_store en n")
      (auto simp: handle_db_def st_table_schema_def st_scan_def add_pending_def tx_scan_def result_simps)
qed

text \<open>The contract the executor relies on: the read methods agree, and rows have their columns' types.\<close>

locale typed_view = storage_view +
  assumes rows_typed: "inv s \<Longrightarrow> schema_of s n = Ok sch \<Longrightarrow> rows_of s n = Ok rows \<Longrightarrow>
    \<forall>r \<in> set rows. row_typed (ts_columns sch) r"
begin

lemma cell_typed:
  "inv s \<Longrightarrow> schema_of s n = Ok sch \<Longrightarrow> rows_of s n = Ok rows \<Longrightarrow> r \<in> set rows \<Longrightarrow> i < length (ts_columns sch) \<Longrightarrow>
     has_type (r ! i) (cs_type (ts_columns sch ! i))"
  using rows_typed by (auto simp: row_typed_nth)

text \<open>A lookup by key returns the rows that compare equal to the key.\<close>

lemma key_lookup_compare:
  assumes s: "inv s" "schema_of s n = Ok sch" "schema_pk sch = Some i"
    and k: "has_type k (cs_type (ts_columns sch ! i))" "k \<noteq> VNull" and i: "i < length (ts_columns sch)"
  shows "map_result (\<lambda>m. case m of None \<Rightarrow> [] | Some r \<Rightarrow> [r]) (by_key s n k)
    = filtered s n (\<lambda>r. compare_values (r ! i) CEq k)"
proof -
  obtain rows where r: "rows_of s n = Ok rows" using rows_total [OF s(1,2)] by blast
  have "compare_values (x ! i) CEq k \<longleftrightarrow> x ! i = k" if "x \<in> set rows" for x
    using value_ordering_Equal_iff [OF cell_typed [OF s(1,2) r that i] k(1)] k(2) by (auto simp: compare_values_def)
  then have "filter (\<lambda>x. compare_values (x ! i) CEq k) rows = filter (\<lambda>x. x ! i = k) rows" by (intro filter_cong) auto
  with key_lookup_filter [OF s, of k] r show ?thesis by (simp add: filtered_rows [OF s(1)])
qed

end

interpretation handle_view: typed_view "\<lambda>h. handle_inv h \<and> db_typed (handle_db h)" st_table_schema st_scan st_scan_filtered st_lookup
proof (unfold_locales, goal_cases)
  case (1 h n P)
  then show ?case using store_view.filtered_rows [of "fst h" n P] tx_view.filtered_rows [of "(fst h, the (snd h))" n P]
    by (auto simp: handle_inv_def st_scan_def st_scan_filtered_def split: option.splits)
next
  case (2 h n sch i k)
  then show ?case using store_view.by_key_find [of "fst h" n sch i k] tx_view.by_key_find [of "(fst h, the (snd h))" n sch i k]
    by (auto simp: handle_inv_def st_scan_def st_lookup_def st_table_schema_def split: option.splits)
next
  case (3 h n sch i rows)
  then show ?case using store_view.keys_distinct [of "fst h" n sch i rows] tx_view.keys_distinct [of "(fst h, the (snd h))" n sch i rows]
    by (auto simp: handle_inv_def st_scan_def st_table_schema_def split: option.splits)
next
  case (4 h n sch rows)
  then show ?case using store_view.widths [of "fst h" n sch rows] tx_view.widths [of "(fst h, the (snd h))" n sch rows]
    by (auto simp: handle_inv_def st_scan_def st_table_schema_def split: option.splits)
next
  case (5 h n sch)
  then show ?case using store_view.rows_total [of "fst h" n sch] tx_view.rows_total [of "(fst h, the (snd h))" n sch]
    by (auto simp: handle_inv_def st_scan_def st_table_schema_def split: option.splits)
next
  case (6 h n sch rows)
  then have "handle_db h n = Some (sch, rows)" by (simp add: handle_db_eq)
  then show ?case using 6(1) unfolding db_typed_def by blast
qed

section \<open>A sample handle\<close>

definition demo_handle :: handle where
  "demo_handle = (demo_store, Some demo_tx)"

definition demo_schema :: table_schema where
  "demo_schema = \<lparr>ts_columns = demo_columns, ts_primary_key = Some ''id''\<rparr>"

lemma demo_handle_reads:
  "st_table_schema demo_handle ''t'' = Ok demo_schema"
  "st_scan demo_handle ''t'' = Ok [[VInt 7, VVarchar ''x''], [VInt 9, VNull]]"
  by (simp_all add: demo_handle_def demo_schema_def st_table_schema_def st_scan_def tx_scan_def tx_defs)

lemma demo_handle_db: "handle_db demo_handle = [''t'' \<mapsto> (demo_schema, [[VInt 7, VVarchar ''x''], [VInt 9, VNull]])]"
  by (auto simp: fun_eq_iff handle_db_def demo_handle_def add_pending_def abs_store_def abs_tables_def pending_rows_def
      demo_tx_def demo_store_tables new_table_def demo_schema_def)

lemma demo_handle_inv: "handle_inv demo_handle" "db_typed (handle_db demo_handle)"
proof -
  have "tx_inv (demo_store, demo_tx)" using world_tx_inv [OF demo_world_inv, of 1 demo_tx] by (simp add: demo_world_def)
  then show "handle_inv demo_handle" by (simp add: handle_inv_def demo_handle_def)
  show "db_typed (handle_db demo_handle)"
    by (auto simp: db_typed_def demo_handle_db demo_schema_def demo_columns_def row_typed_def split: if_splits)
qed

end
