(* ===== verification/Exec_Select.thy ===== *)
theory Exec_Select
  imports Exec_Values Storage_Handle
begin

text \<open>
  Reading rows for a \<^verbatim>\<open>SELECT\<close> (\<^verbatim>\<open>src/src/query/executor.rs\<close>, lines 408 to 883 and 1237 to
  1259): names are resolved in a scope of qualified columns, \<^verbatim>\<open>WHERE\<close> is a key lookup or a
  filtered scan, joins are hash joins, and the projection is sorted and paged.  Rows are indexed at
  positions that resolution returned, which are within the row (\<open>try_resolve_less\<close>).
\<close>

section \<open>Scopes\<close>

record scope =
  sc_qualifiers :: "string list"
  sc_columns :: "column_schema list"

definition scope_single :: "string \<Rightarrow> column_schema list \<Rightarrow> scope" where
  "scope_single q columns = \<lparr>sc_qualifiers = replicate (length columns) q, sc_columns = columns\<rparr>"

definition push_table :: "scope \<Rightarrow> string \<Rightarrow> column_schema list \<Rightarrow> scope" where
  "push_table sc q columns =
     \<lparr>sc_qualifiers = sc_qualifiers sc @ replicate (length columns) q, sc_columns = sc_columns sc @ columns\<rparr>"

definition named_positions :: "column_schema list \<Rightarrow> string \<Rightarrow> nat list" where
  "named_positions columns c = filter (\<lambda>i. cs_name (columns ! i) = c) [0..<length columns]"

definition try_resolve :: "scope \<Rightarrow> column_ref \<Rightarrow> nat option" where
  "try_resolve sc col_ref =
     (case cr_table col_ref of
        Some q \<Rightarrow>
          position (\<lambda>(cq, c). cq = q \<and> cs_name c = cr_column col_ref) (zip (sc_qualifiers sc) (sc_columns sc))
      | None \<Rightarrow>
          (case named_positions (sc_columns sc) (cr_column col_ref) of
             [] \<Rightarrow> None
           | [i] \<Rightarrow> Some i
           | _ \<Rightarrow> None))"

definition err_unknown_qualified :: "string \<Rightarrow> string \<Rightarrow> exn" where
  "err_unknown_qualified q c = Err (Execution (''Unknown column '' @ quoted (q @ ''.'' @ c)))"

definition err_ambiguous :: "string \<Rightarrow> exn" where
  "err_ambiguous c = Err (Execution (''Column '' @ quoted c @ '' in field list is ambiguous''))"

definition resolve :: "scope \<Rightarrow> column_ref \<Rightarrow> nat result" where
  "resolve sc col_ref =
     ok_or (case cr_table col_ref of
              Some q \<Rightarrow> err_unknown_qualified q (cr_column col_ref)
            | None \<Rightarrow>
                if 1 < length (filter (\<lambda>c. cs_name c = cr_column col_ref) (sc_columns sc))
                then err_ambiguous (cr_column col_ref)
                else err_unknown_column (cr_column col_ref))
       (try_resolve sc col_ref)"

definition resolve_single_table_column :: "column_schema list \<Rightarrow> string \<Rightarrow> column_ref \<Rightarrow> nat result" where
  "resolve_single_table_column columns q col_ref =
     (case cr_table col_ref of
        Some q' \<Rightarrow>
          if q' \<noteq> q then Inl (err_unknown_qualified q' (cr_column col_ref))
          else column_index columns (cr_column col_ref)
      | None \<Rightarrow> column_index columns (cr_column col_ref))"

section \<open>Filtering\<close>

definition scan_and_filter ::
    "handle \<Rightarrow> string \<Rightarrow> string \<Rightarrow> table_schema \<Rightarrow> condition option \<Rightarrow> row list result" where
  "scan_and_filter h table q schema selection =
     (case selection of
        None \<Rightarrow> st_scan h table
      | Some cond \<Rightarrow>
          bindR (resolve_single_table_column (ts_columns schema) q (cn_column cond)) (\<lambda>col_idx.
          bindR (index_at (ts_columns schema) col_idx) (\<lambda>column.
          bindR (coerce (cn_value cond) (cs_type column) (cr_column (cn_column cond))) (\<lambda>expected.
          if cn_op cond = CEq \<and> ts_primary_key schema = Some (cs_name column)
          then map_result (\<lambda>m. case m of None \<Rightarrow> [] | Some row \<Rightarrow> [row]) (st_lookup h table expected)
          else st_scan_filtered h table (\<lambda>row. compare_values (row ! col_idx) (cn_op cond) expected)))))"

definition apply_where :: "row list \<Rightarrow> scope \<Rightarrow> condition option \<Rightarrow> row list result" where
  "apply_where rows sc selection =
     (case selection of
        None \<Rightarrow> Ok rows
      | Some cond \<Rightarrow>
          bindR (resolve sc (cn_column cond)) (\<lambda>idx.
          bindR (index_at (sc_columns sc) idx) (\<lambda>column.
          bindR (coerce (cn_value cond) (cs_type column) (cr_column (cn_column cond))) (\<lambda>expected.
          Ok (filter (\<lambda>row. compare_values (row ! idx) (cn_op cond) expected) rows)))))"

section \<open>Joins\<close>

definition join_index :: "nat \<Rightarrow> row list \<Rightarrow> (value \<rightharpoonup> nat list)" where
  "join_index right_idx right_rows =
     fold (\<lambda>(i, row) index.
         if row ! right_idx = VNull then index
         else index(row ! right_idx \<mapsto>
           (case index (row ! right_idx) of None \<Rightarrow> [] | Some is \<Rightarrow> is) @ [i]))
       (enumerate 0 right_rows) Map.empty"

definition hash_join :: "row list \<Rightarrow> nat \<Rightarrow> row list \<Rightarrow> nat \<Rightarrow> nat \<Rightarrow> join_type \<Rightarrow> row list" where
  "hash_join left_rows left_idx right_rows right_idx right_width join_type =
     (let index = join_index right_idx right_rows in
      concat (map (\<lambda>left_row.
        let key = left_row ! left_idx;
            match_indices = (if key = VNull then None else index key)
        in case match_indices of
             Some is \<Rightarrow> map (\<lambda>i. left_row @ right_rows ! i) is
           | None \<Rightarrow>
               if join_type = Left then [left_row @ replicate right_width VNull] else []) left_rows))"

definition err_join_on :: "string \<Rightarrow> exn" where
  "err_join_on q = Err (Execution
     (''JOIN ... ON must compare a column already in scope with a column of '' @ quoted q))"

definition join_columns :: "scope \<Rightarrow> scope \<Rightarrow> join_clause \<Rightarrow> (nat \<times> nat) result" where
  "join_columns sc new_table_scope join =
     (case (try_resolve sc (jc_left join), try_resolve new_table_scope (jc_right join)) of
        (Some l, Some r) \<Rightarrow> Ok (l, r)
      | _ \<Rightarrow>
          (case (try_resolve sc (jc_right join), try_resolve new_table_scope (jc_left join)) of
             (Some l, Some r) \<Rightarrow> Ok (l, r)
           | _ \<Rightarrow> Inl (err_join_on (qualifier (jc_table join)))))"

definition join_step :: "handle \<Rightarrow> scope \<times> row list \<Rightarrow> join_clause \<Rightarrow> (scope \<times> row list) result" where
  "join_step h st join =
     (let (sc, rows) = st in
      bindR (st_table_schema h (tr_name (jc_table join))) (\<lambda>join_schema.
      bindR (join_columns sc (scope_single (qualifier (jc_table join)) (ts_columns join_schema)) join)
        (\<lambda>(accumulated_idx, new_idx).
      bindR (st_scan h (tr_name (jc_table join))) (\<lambda>new_rows.
      Ok (push_table sc (qualifier (jc_table join)) (ts_columns join_schema),
          hash_join rows accumulated_idx new_rows new_idx (length (ts_columns join_schema)) (jc_type join))))))"

definition resolve_joins :: "handle \<Rightarrow> from_clause \<Rightarrow> (scope \<times> row list) result" where
  "resolve_joins h frm =
     bindR (st_table_schema h (tr_name (fc_table frm))) (\<lambda>base_schema.
     bindR (st_scan h (tr_name (fc_table frm))) (\<lambda>rows.
     foldR (join_step h) (scope_single (qualifier (fc_table frm)) (ts_columns base_schema), rows) (fc_joins frm)))"

definition resolve_from :: "handle \<Rightarrow> from_clause \<Rightarrow> condition option \<Rightarrow> (scope \<times> row list) result" where
  "resolve_from h frm selection =
     (if fc_joins frm = [] then
        bindR (st_table_schema h (tr_name (fc_table frm))) (\<lambda>schema.
        bindR (scan_and_filter h (tr_name (fc_table frm)) (qualifier (fc_table frm)) schema selection) (\<lambda>rows.
        Ok (scope_single (qualifier (fc_table frm)) (ts_columns schema), rows)))
      else
        bindR (resolve_joins h frm) (\<lambda>(sc, rows).
        bindR (apply_where rows sc selection) (\<lambda>rows'. Ok (sc, rows'))))"

section \<open>Projection\<close>

record query_result =
  qr_columns :: "column_schema list"
  qr_rows :: "row list"
  qr_rows_affected :: u64

definition default_result :: query_result where
  "default_result = \<lparr>qr_columns = [], qr_rows = [], qr_rows_affected = 0\<rparr>"

definition err_star_combined :: exn where
  "err_star_combined = Err (Execution (quoted ''*'' @ '' cannot be combined with other selected columns''))"

definition err_literal_with_from :: exn where
  "err_literal_with_from = Err (Unsupported ''literal expressions in a SELECT list alongside a FROM clause'')"

definition resolve_item :: "scope \<Rightarrow> select_item \<Rightarrow> nat result" where
  "resolve_item sc item =
     (case item of
        Wildcard \<Rightarrow> Inl err_star_combined
      | ItemExpr (EColumn col_ref) _ \<Rightarrow> resolve sc col_ref
      | ItemExpr _ _ \<Rightarrow> Inl err_literal_with_from)"

definition resolve_projection :: "scope \<Rightarrow> select_item list \<Rightarrow> nat list result" where
  "resolve_projection sc projection =
     (if projection = [Wildcard] then Ok [0..<length (sc_columns sc)]
      else mapR (resolve_item sc) projection)"

definition execute_projected ::
    "selector \<Rightarrow> scope \<Rightarrow> row list \<Rightarrow> select_item list \<Rightarrow> order_by_item list \<Rightarrow> u64 option \<Rightarrow> u64 option \<Rightarrow> query_result result" where
  "execute_projected sel sc rows projection order_by limit offset =
     bindR (resolve_projection sc projection) (\<lambda>selected_indices.
     bindR (mapR (\<lambda>item. map_result (\<lambda>i. (i, ob_descending item)) (resolve sc (ob_column item))) order_by) (\<lambda>sort_keys.
     let paged_rows = sort_and_paginate sel rows sort_keys limit offset in
     Ok \<lparr>qr_columns = map (\<lambda>i. sc_columns sc ! i) selected_indices,
          qr_rows = map (\<lambda>row. map (\<lambda>i. row ! i) selected_indices) paged_rows,
          qr_rows_affected = 0\<rparr>))"

section \<open>Resolution returns positions of the row\<close>

definition scope_ok :: "scope \<Rightarrow> bool" where
  "scope_ok sc \<longleftrightarrow> length (sc_qualifiers sc) = length (sc_columns sc)"

lemma scope_ok_simps [simp]:
  "scope_ok (scope_single q cols)" "scope_ok sc \<Longrightarrow> scope_ok (push_table sc q cols)"
  by (simp_all add: scope_ok_def scope_single_def push_table_def)

lemma named_positions_less: "i \<in> set (named_positions cols c) \<Longrightarrow> i < length cols \<and> cs_name (cols ! i) = c"
  by (simp add: named_positions_def)

lemma try_resolve_less:
  "try_resolve sc r = Some i \<Longrightarrow> i < length (sc_columns sc) \<and> cs_name (sc_columns sc ! i) = cr_column r"
  using named_positions_less [of i "sc_columns sc" "cr_column r"]
  by (auto simp: try_resolve_def dest!: position_SomeD split: option.splits list.splits)

lemma resolve_less: "resolve sc r = Ok i \<Longrightarrow> i < length (sc_columns sc)"
  by (auto simp: resolve_def result_simps dest: try_resolve_less)

lemma column_index_Ok: "column_index cols c = Ok i \<longleftrightarrow> position (\<lambda>x. cs_name x = c) cols = Some i"
  by (simp add: column_index_def result_simps)

lemma resolve_single_Ok:
  "resolve_single_table_column cols q r = Ok i \<Longrightarrow> position (\<lambda>x. cs_name x = cr_column r) cols = Some i"
  by (auto simp: resolve_single_table_column_def column_index_Ok split: option.splits if_splits)

section \<open>WHERE on one table\<close>

definition where_rows :: "table_schema \<Rightarrow> string \<Rightarrow> condition \<Rightarrow> row list \<Rightarrow> row list result" where
  "where_rows schema q cond rows =
     bindR (resolve_single_table_column (ts_columns schema) q (cn_column cond)) (\<lambda>i.
     bindR (coerce (cn_value cond) (cs_type (ts_columns schema ! i)) (cr_column (cn_column cond))) (\<lambda>expected.
     Ok (filter (\<lambda>row. compare_values (row ! i) (cn_op cond) expected) rows)))"

lemma scan_and_filter_where:
  assumes inv: "handle_inv h" "db_typed (handle_db h)" and s: "st_table_schema h n = Ok schema" "st_scan h n = Ok rows"
    and nn: "\<And>i r. schema_pk schema = Some i \<Longrightarrow> r \<in> set rows \<Longrightarrow> r ! i \<noteq> VNull"
  shows "scan_and_filter h n q schema (Some cond) = where_rows schema q cond rows"
proof (cases "resolve_single_table_column (ts_columns schema) q (cn_column cond)")
  case (Inr i)
  have p: "position (\<lambda>x. cs_name x = cr_column (cn_column cond)) (ts_columns schema) = Some i"
    using Inr by (rule resolve_single_Ok)
  then have i: "i < length (ts_columns schema)" "cs_name (ts_columns schema ! i) = cr_column (cn_column cond)"
    by (auto dest: position_SomeD)
  have hi: "handle_inv h \<and> db_typed (handle_db h)" using inv by simp
  show ?thesis
  proof (cases "coerce (cn_value cond) (cs_type (ts_columns schema ! i)) (cr_column (cn_column cond))")
    case c: (Inr k)
    have f: "st_scan_filtered h n P = Ok (filter P rows)" for P
      using handle_view.filtered_rows [OF hi, of n P] s(2) by simp
    show ?thesis
    proof (cases "cn_op cond = CEq \<and> ts_primary_key schema = Some (cs_name (ts_columns schema ! i))")
      case True
      then have pk: "schema_pk schema = Some i" using p i(2) by (simp add: schema_pk_def pk_position_def)
      have "map_result (\<lambda>m. case m of None \<Rightarrow> [] | Some row \<Rightarrow> [row]) (st_lookup h n k)
          = Ok (filter (\<lambda>row. compare_values (row ! i) CEq k) rows)"
      proof (cases "k = VNull")
        case True
        have "filter (\<lambda>row. row ! i = VNull) rows = []" using nn [OF pk] by (simp add: filter_empty_conv)
        with handle_view.key_lookup_filter [OF hi s(1) pk, of k] f True show ?thesis by (simp add: compare_values_def)
      next
        case False
        with handle_view.key_lookup_compare [OF hi s(1) pk coerce_has_type [OF c] _ i(1)] f show ?thesis by simp
      qed
      with True Inr c i show ?thesis by (simp add: scan_and_filter_def where_rows_def)
    next
      case False
      with Inr c i f show ?thesis by (auto simp: scan_and_filter_def where_rows_def)
    qed
  qed (use Inr i in \<open>simp add: scan_and_filter_def where_rows_def\<close>)
qed (simp add: scan_and_filter_def where_rows_def)

section \<open>Hash join and nested loop\<close>

definition nested_join :: "(row \<Rightarrow> row \<Rightarrow> bool) \<Rightarrow> row list \<Rightarrow> row list \<Rightarrow> nat \<Rightarrow> join_type \<Rightarrow> row list" where
  "nested_join on left_rows right_rows right_width join_type =
     concat (map (\<lambda>l.
       let ms = filter (on l) right_rows in
       if ms = [] then (if join_type = Left then [l @ replicate right_width VNull] else [])
       else map (\<lambda>r. l @ r) ms) left_rows)"

lemma join_index_eq:
  "join_index ri rows k =
     (let is = filter (\<lambda>i. rows ! i ! ri = k) [0..<length rows] in if k = VNull \<or> is = [] then None else Some is)"
proof (induction rows arbitrary: k rule: rev_induct)
  case (snoc r rows)
  have "filter (\<lambda>i. (rows @ [r]) ! i ! ri = k) [0..<length rows] = filter (\<lambda>i. rows ! i ! ri = k) [0..<length rows]" for k
    by (intro filter_cong) (auto simp: nth_append)
  then show ?case using snoc
    by (auto simp: join_index_def enumerate_append_eq Let_def nth_append)
qed (simp add: join_index_def)

lemma map_filter_upt: "map (\<lambda>i. xs ! i) (filter (\<lambda>i. P (xs ! i)) [0..<length xs]) = filter P xs"
  using filter_map [of P "(!) xs" "[0..<length xs]"] by (simp add: map_nth comp_def)

lemma hash_join_nested:
  "hash_join ls li rs ri w jt = nested_join (\<lambda>l r. l ! li \<noteq> VNull \<and> r ! ri = l ! li) ls rs w jt"
proof -
  have "(case if l ! li = VNull then None else join_index ri rs (l ! li) of
           Some is \<Rightarrow> map (\<lambda>i. l @ rs ! i) is
         | None \<Rightarrow> if jt = Left then [l @ replicate w VNull] else [])
      = (let ms = filter (\<lambda>r. l ! li \<noteq> VNull \<and> r ! ri = l ! li) rs in
         if ms = [] then (if jt = Left then [l @ replicate w VNull] else []) else map (\<lambda>r. l @ r) ms)" for l
  proof -
    let ?is = "filter (\<lambda>i. rs ! i ! ri = l ! li) [0..<length rs]"
    have m: "map (\<lambda>i. rs ! i) ?is = filter (\<lambda>r. r ! ri = l ! li) rs" by (rule map_filter_upt)
    have "map (\<lambda>i. l @ rs ! i) ?is = map (\<lambda>r. l @ r) (filter (\<lambda>r. r ! ri = l ! li) rs)"
      unfolding m [symmetric] by simp
    moreover have "?is = [] \<longleftrightarrow> filter (\<lambda>r. r ! ri = l ! li) rs = []" using m by (metis map_is_Nil_conv)
    ultimately show ?thesis by (cases "l ! li = VNull") (simp_all add: join_index_eq Let_def)
  qed
  then show ?thesis by (simp add: hash_join_def nested_join_def Let_def cong: map_cong)
qed

section \<open>Properties of reading rows\<close>



text \<open>
  Claim (C18). The hash join.  When the two columns of \<^verbatim>\<open>ON\<close> have the same type, the join that
  indexes one side by value returns the same rows in the same order as the nested loop that compares
  every pair with the comparison of \<^verbatim>\<open>WHERE\<close>, so \<^verbatim>\<open>NULL\<close> matches nothing; a
  \<^verbatim>\<open>LEFT JOIN\<close> pads each row without a match.
\<close>

theorem hash_join_correct:
  assumes "\<forall>l \<in> set left_rows. has_type (l ! li) T" "\<forall>r \<in> set right_rows. has_type (r ! ri) T"
  shows "hash_join left_rows li right_rows ri w jt =
    nested_join (\<lambda>l r. compare_values (l ! li) CEq (r ! ri)) left_rows right_rows w jt"
proof -
  have "filter (\<lambda>r. l ! li \<noteq> VNull \<and> r ! ri = l ! li) right_rows = filter (\<lambda>r. compare_values (l ! li) CEq (r ! ri)) right_rows"
    if "l \<in> set left_rows" for l
  proof (rule filter_cong [OF refl])
    fix r assume "r \<in> set right_rows"
    then show "(l ! li \<noteq> VNull \<and> r ! ri = l ! li) = compare_values (l ! li) CEq (r ! ri)"
      using value_ordering_Equal_iff [of "l ! li" T "r ! ri"] assms that by (auto simp: compare_values_def)
  qed
  then show ?thesis unfolding hash_join_nested nested_join_def
    by (intro arg_cong [where f = concat] map_cong) (simp_all add: Let_def)
qed

theorem hash_join_correct_witness:
  "hash_join [[VInt 1], [VNull], [VInt 2]] 0 [[VInt 2, VVarchar ''b''], [VNull, VNull]] 0 2 Left
     = [[VInt 1, VNull, VNull], [VNull, VNull, VNull], [VInt 2, VInt 2, VVarchar ''b'']]"
  using hash_join_correct [of "[[VInt 1], [VNull], [VInt 2]]" 0 TInt "[[VInt 2, VVarchar ''b''], [VNull, VNull]]" 0 2 Left]
  by (simp add: nested_join_def compare_values_def int_cmp_def eval_nat_numeral)

text \<open>
  With columns of different types the two differ: the index compares values structurally, so a
  decimal never joins an equal decimal of another scale.
\<close>

lemma join_misses_equal_decimals:
  "compare_values (VDecimal 15 1) CEq (VDecimal 150 2)
   \<and> hash_join [[VDecimal 15 1]] 0 [[VDecimal 150 2]] 0 1 Inner = []"
  by code_simp

end
