(* ===== verification/Exec_Aggregate.thy ===== *)
theory Exec_Aggregate
  imports Exec_Select
begin

text \<open>
  \<^verbatim>\<open>GROUP BY\<close> and the aggregate functions (\<^verbatim>\<open>src/src/query/executor.rs\<close>, lines 897 to
  1235).  The groups are a map from group keys to rows; the order in which the hash map lists its
  keys is the parameter \<open>gord\<close>, and the sort that follows makes the result independent of it.
\<close>

section \<open>Aggregate functions\<close>

definition is_aggregate_function_name :: "string \<Rightarrow> bool" where
  "is_aggregate_function_name name \<longleftrightarrow>
     to_ascii_uppercase name \<in> {''COUNT'', ''SUM'', ''AVG'', ''MIN'', ''MAX''}"

definition is_aggregate_query :: "select_item list \<Rightarrow> column_ref list \<Rightarrow> bool" where
  "is_aggregate_query projection group_by \<longleftrightarrow>
     group_by \<noteq> [] \<or>
     list_ex (\<lambda>item. case item of ItemExpr (EFunction name _) _ \<Rightarrow> is_aggregate_function_name name | _ \<Rightarrow> False) projection"

definition err_aggregate_arg :: exn where
  "err_aggregate_arg = Err (Unsupported
     ''aggregate functions only support a single column argument (or none, for COUNT(*))'')"

definition resolve_aggregate_arg :: "expr list \<Rightarrow> scope \<Rightarrow> (nat \<times> column_type) option result" where
  "resolve_aggregate_arg args sc =
     (case args of
        [] \<Rightarrow> Ok None
      | [EColumn col_ref] \<Rightarrow>
          bindR (resolve sc col_ref) (\<lambda>idx.
          bindR (index_at (sc_columns sc) idx) (\<lambda>c. Ok (Some (idx, cs_type c))))
      | _ \<Rightarrow> Inl err_aggregate_arg)"

definition err_numeric :: "string \<Rightarrow> exn" where
  "err_numeric f = Err (Execution (f @ ''() requires a numeric column''))"

definition err_argument :: "string \<Rightarrow> exn" where
  "err_argument f = Err (Execution (f @ ''() requires a column argument''))"

definition err_out_of_range :: "string \<Rightarrow> exn" where
  "err_out_of_range f = Err (Execution (f @ '' value out of range''))"

definition saturating_add_u8 :: "u8 \<Rightarrow> u8 \<Rightarrow> u8" where
  "saturating_add_u8 a b = word_of_nat (min 255 (unat a + unat b))"

definition avg_scale_of :: "u8 \<Rightarrow> u8" where
  "avg_scale_of scale = min (saturating_add_u8 scale 4) 30"

definition aggregate_result_type :: "string \<Rightarrow> column_type option \<Rightarrow> column_type result" where
  "aggregate_result_type name arg_type =
     (let f = to_ascii_uppercase name in
      if f = ''COUNT'' then Ok TInt
      else if f = ''SUM'' then
        (case arg_type of
           Some TInt \<Rightarrow> Ok TInt
         | Some (TDecimal scale) \<Rightarrow> Ok (TDecimal scale)
         | _ \<Rightarrow> Inl (err_numeric ''SUM''))
      else if f = ''AVG'' then
        (case arg_type of
           Some TInt \<Rightarrow> Ok (TDecimal 4)
         | Some (TDecimal scale) \<Rightarrow> Ok (TDecimal (avg_scale_of scale))
         | _ \<Rightarrow> Inl (err_numeric ''AVG''))
      else if f = ''MIN'' \<or> f = ''MAX'' then ok_or (err_argument name) arg_type
      else Panics ''unreachable'')"

definition sum_step ::
    "(value \<Rightarrow> i64 option) \<Rightarrow> ('c \<Rightarrow> 'c) \<Rightarrow> string \<Rightarrow> nat \<Rightarrow> i64 \<times> 'c \<Rightarrow> row \<Rightarrow> (i64 \<times> 'c) result" where
  "sum_step num tick f idx = (\<lambda>(sum, c) row.
     case num (row ! idx) of
       Some n \<Rightarrow> map_result (\<lambda>s. (s, tick c)) (ok_or (err_out_of_range f) (checked_add_i64 sum n))
     | None \<Rightarrow> Ok (sum, c))"

fun int_part :: "value \<Rightarrow> i64 option" where
  "int_part (VInt n) = Some n"
| "int_part _ = None"

fun decimal_part :: "value \<Rightarrow> i64 option" where
  "decimal_part (VDecimal u _) = Some u"
| "decimal_part _ = None"

fun number_part :: "value \<Rightarrow> i64 option" where
  "number_part (VInt n) = Some n"
| "number_part (VDecimal u _) = Some u"
| "number_part _ = None"

definition sum_rows :: "(value \<Rightarrow> i64 option) \<Rightarrow> nat \<Rightarrow> (i64 \<Rightarrow> value) \<Rightarrow> row list \<Rightarrow> value result" where
  "sum_rows num idx mk group_rows =
     bindR (foldR (sum_step num (\<lambda>_. True) ''SUM'' idx) (0, False) group_rows) (\<lambda>(sum, any).
     Ok (if any then mk sum else VNull))"

definition avg_rows :: "nat \<Rightarrow> u8 \<Rightarrow> row list \<Rightarrow> value result" where
  "avg_rows idx source_scale group_rows =
     bindR (foldR (sum_step number_part (\<lambda>count :: i64. count + 1) ''AVG'' idx) (0, 0) group_rows) (\<lambda>(sum, count).
     if count = 0 then Ok VNull
     else
       bindR (ok_or (err_out_of_range ''AVG'') (checked_pow10_i64 (unat (avg_scale_of source_scale - source_scale)))) (\<lambda>factor.
       bindR (ok_or (err_out_of_range ''AVG'') (checked_mul_i64 sum factor)) (\<lambda>scaled_sum.
       let magnitude = nat \<bar>sint scaled_sum\<bar>;
           count_u = unat count
       in bindR (ok_or (err_out_of_range ''AVG'') (i64_of (int ((magnitude + count_u div 2) div count_u)))) (\<lambda>rounded.
          Ok (VDecimal (if sint scaled_sum < 0 then - rounded else rounded) (avg_scale_of source_scale))))))"

definition best_step :: "bool \<Rightarrow> nat \<Rightarrow> row \<Rightarrow> value option \<Rightarrow> value option" where
  "best_step want_min idx row best =
     (let v = row ! idx in
      if v = VNull then best
      else Some (case best of
          None \<Rightarrow> v
        | Some current \<Rightarrow>
            let ord = value_ordering v current in
            if (want_min \<and> ord = Less) \<or> (\<not> want_min \<and> ord = Greater) then v else current))"

definition evaluate_aggregate :: "string \<Rightarrow> (nat \<times> column_type) option \<Rightarrow> row list \<Rightarrow> value result" where
  "evaluate_aggregate name arg_col group_rows =
     (let f = to_ascii_uppercase name in
      if f = ''COUNT'' then
        Ok (VInt (word_of_nat (case arg_col of
            None \<Rightarrow> length group_rows
          | Some (idx, _) \<Rightarrow> length (filter (\<lambda>r. r ! idx \<noteq> VNull) group_rows))))
      else if f = ''SUM'' then
        bindR (ok_or (err_argument ''SUM'') arg_col) (\<lambda>(idx, col_type).
        case col_type of
          TInt \<Rightarrow> sum_rows int_part idx VInt group_rows
        | TDecimal scale \<Rightarrow> sum_rows decimal_part idx (\<lambda>u. VDecimal u scale) group_rows
        | _ \<Rightarrow> Inl (err_numeric ''SUM''))
      else if f = ''AVG'' then
        bindR (ok_or (err_argument ''AVG'') arg_col) (\<lambda>(idx, col_type).
        case col_type of
          TInt \<Rightarrow> avg_rows idx 0 group_rows
        | TDecimal s \<Rightarrow> avg_rows idx s group_rows
        | _ \<Rightarrow> Inl (err_numeric ''AVG''))
      else if f = ''MIN'' \<or> f = ''MAX'' then
        bindR (ok_or (err_argument name) arg_col) (\<lambda>(idx, _).
        Ok (case fold (best_step (eq_ignore_ascii_case name ''MIN'') idx) group_rows None of
              Some v \<Rightarrow> v
            | None \<Rightarrow> VNull))
      else Panics ''unreachable'')"

section \<open>Grouping\<close>

datatype resolved_aggregate_item = GroupColumn nat | Aggregate string "(nat \<times> column_type) option"

definition err_group_column :: "string \<Rightarrow> exn" where
  "err_group_column c = Err (Execution
     (''Column '' @ quoted c @ '' must appear in GROUP BY or be used inside an aggregate function''))"

definition err_group_item :: exn where
  "err_group_item = Err (Execution
     ''only columns and aggregate functions are allowed in a GROUP BY / aggregate SELECT list'')"

definition err_group_star :: exn where
  "err_group_star = Err (Unsupported (quoted ''*'' @ '' in a GROUP BY / aggregate query''))"

definition plan_expr :: "scope \<Rightarrow> nat list \<Rightarrow> expr \<Rightarrow> (resolved_aggregate_item \<times> string \<times> column_type) result" where
  "plan_expr sc group_by_indices e =
     (case e of
        EColumn col_ref \<Rightarrow>
          bindR (resolve sc col_ref) (\<lambda>idx.
          bindR (ok_or (err_group_column (cr_column col_ref)) (position (\<lambda>gi. gi = idx) group_by_indices)) (\<lambda>pos.
          bindR (index_at (sc_columns sc) idx) (\<lambda>c. Ok (GroupColumn pos, cs_name c, cs_type c))))
      | EFunction name args \<Rightarrow>
          if is_aggregate_function_name name then
            bindR (resolve_aggregate_arg args sc) (\<lambda>arg_col.
            bindR (aggregate_result_type name (map_option snd arg_col)) (\<lambda>column_type.
            bindR (case arg_col of
                None \<Rightarrow> Ok (name @ ''(*)'')
              | Some (idx, _) \<Rightarrow> map_result (\<lambda>c. name @ ''('' @ cs_name c @ '')'') (index_at (sc_columns sc) idx)) (\<lambda>default_name.
            Ok (Aggregate name arg_col, default_name, column_type))))
          else Inl err_group_item
      | _ \<Rightarrow> Inl err_group_item)"

definition plan_item :: "scope \<Rightarrow> nat list \<Rightarrow> select_item \<Rightarrow> (resolved_aggregate_item \<times> column_schema) result" where
  "plan_item sc group_by_indices item =
     (case item of
        Wildcard \<Rightarrow> Panics ''wildcard already rejected above''
      | ItemExpr e alias \<Rightarrow>
          bindR (plan_expr sc group_by_indices e) (\<lambda>(item_plan, default_name, column_type).
          Ok (item_plan, \<lparr>cs_name = (case alias of Some a \<Rightarrow> a | None \<Rightarrow> default_name), cs_type = column_type,
                cs_nullable = True, cs_auto_increment = False\<rparr>)))"

type_synonym groups = "value list \<rightharpoonup> row list"

definition push_group :: "nat list \<Rightarrow> row \<Rightarrow> groups \<Rightarrow> groups" where
  "push_group group_by_indices row groups =
     (let key = map (\<lambda>i. row ! i) group_by_indices in
      groups(key \<mapsto> (case groups key of None \<Rightarrow> [] | Some rows \<Rightarrow> rows) @ [row]))"

definition group_rows :: "nat list \<Rightarrow> row list \<Rightarrow> groups" where
  "group_rows group_by_indices matching_rows =
     (if group_by_indices = [] then [[] \<mapsto> matching_rows]
      else fold (push_group group_by_indices) matching_rows Map.empty)"

definition key_compare :: "value list \<Rightarrow> value list \<Rightarrow> ordering" where
  "key_compare a b =
     (case find (\<lambda>ord. ord \<noteq> Equal) (map (\<lambda>(av, bv). value_ordering av bv) (zip a b)) of
        Some ord \<Rightarrow> ord
      | None \<Rightarrow> Equal)"

definition group_item :: "value list \<Rightarrow> row list \<Rightarrow> resolved_aggregate_item \<Rightarrow> value result" where
  "group_item key rows item =
     (case item of
        GroupColumn pos \<Rightarrow> index_at key pos
      | Aggregate name arg_col \<Rightarrow> evaluate_aggregate name arg_col rows)"

definition group_row :: "groups \<Rightarrow> resolved_aggregate_item list \<Rightarrow> value list \<Rightarrow> row result" where
  "group_row groups resolved key =
     (case groups key of
        None \<Rightarrow> Panics ''no entry found for key''
      | Some rows \<Rightarrow> mapR (group_item key rows) resolved)"

definition output_sort_key :: "column_schema list \<Rightarrow> order_by_item \<Rightarrow> (nat \<times> bool) result" where
  "output_sort_key output_columns item =
     map_result (\<lambda>idx. (idx, ob_descending item))
       (ok_or (err_unknown_column (cr_column (ob_column item)))
          (position (\<lambda>c. cs_name c = cr_column (ob_column item)) output_columns))"

definition execute_aggregate ::
    "(groups \<Rightarrow> value list list) \<Rightarrow> selector \<Rightarrow> scope \<Rightarrow> row list \<Rightarrow> select_item list \<Rightarrow> column_ref list
     \<Rightarrow> order_by_item list \<Rightarrow> u64 option \<Rightarrow> u64 option \<Rightarrow> query_result result" where
  "execute_aggregate gord sel sc matching_rows projection group_by order_by limit offset =
     bindR (mapR (resolve sc) group_by) (\<lambda>group_by_indices.
     if list_ex (\<lambda>item. item = Wildcard) projection then Inl err_group_star
     else
       bindR (mapR (plan_item sc group_by_indices) projection) (\<lambda>plan.
       let resolved = map fst plan;
           output_columns = map snd plan;
           groups = group_rows group_by_indices matching_rows;
           keys = sort_by key_compare (gord groups)
       in bindR (mapR (group_row groups resolved) keys) (\<lambda>output_rows.
          bindR (mapR (output_sort_key output_columns) order_by) (\<lambda>sort_keys.
          Ok \<lparr>qr_columns = output_columns,
               qr_rows = sort_and_paginate sel output_rows sort_keys limit offset,
               qr_rows_affected = 0\<rparr>))))"

section \<open>Sums\<close>

definition numbers :: "(value \<Rightarrow> i64 option) \<Rightarrow> nat \<Rightarrow> row list \<Rightarrow> int list" where
  "numbers num idx rows = map sint (List.map_filter (\<lambda>row. num (row ! idx)) rows)"

text \<open>Every partial sum is an \<^verbatim>\<open>i64\<close>.\<close>

fun sums_fit :: "int \<Rightarrow> int list \<Rightarrow> bool" where
  "sums_fit z [] = in_i64 z"
| "sums_fit z (n # ns) = (in_i64 z \<and> sums_fit (z + n) ns)"

lemma sums_fit_start: "sums_fit z ns \<Longrightarrow> in_i64 z"
  by (cases ns) simp_all

lemma sums_fit_total: "sums_fit z ns \<Longrightarrow> in_i64 (z + sum_list ns)"
  by (induction ns arbitrary: z) (auto simp: add.assoc [symmetric])

lemma numbers_simps [simp]:
  "numbers num idx [] = []"
  "numbers num idx (row # rows) = (case num (row ! idx) of None \<Rightarrow> [] | Some n \<Rightarrow> [sint n]) @ numbers num idx rows"
  by (simp_all add: numbers_def List.map_filter_simps split: option.split)

lemma sum_fold:
  "foldR (sum_step num tick f idx) (s0, c0) rows =
     (if sums_fit (sint s0) (numbers num idx rows)
      then Ok (word_of_int (sint s0 + sum_list (numbers num idx rows)), (tick ^^ length (numbers num idx rows)) c0)
      else Inl (err_out_of_range f))"
proof (induction rows arbitrary: s0 c0)
  case Nil
  then show ?case by simp
next
  case (Cons row rows)
  show ?case
  proof (cases "num (row ! idx)")
    case None
    then show ?thesis using Cons by (simp add: sum_step_def)
  next
    case (Some n)
    show ?thesis
    proof (cases "in_i64 (sint s0 + sint n)")
      case True
      then have "sint (word_of_int (sint s0 + sint n) :: i64) = sint s0 + sint n" by (rule sint_word_of_int_i64)
      with Some True Cons [of "word_of_int (sint s0 + sint n)" "tick c0"] show ?thesis
        by (simp add: sum_step_def checked_add_i64_def i64_of_def funpow_swap1 add.assoc)
    next
      case False
      moreover have "\<not> sums_fit (sint s0 + sint n) (numbers num idx rows)" using False sums_fit_start by blast
      ultimately show ?thesis using Some
        by (simp add: sum_step_def checked_add_i64_def i64_of_def)
    qed
  qed
qed

lemma tick_any: "((\<lambda>_. True) ^^ k) False \<longleftrightarrow> k \<noteq> 0"
  by (cases k) simp_all

lemma tick_count: "((\<lambda>c :: i64. c + 1) ^^ k) 0 = of_nat k"
  by (induction k) simp_all

lemma sum_rows_eq:
  "sum_rows num idx mk rows =
     (let ns = numbers num idx rows in
      if \<not> sums_fit 0 ns then Inl (err_out_of_range ''SUM'')
      else Ok (if ns = [] then VNull else mk (word_of_int (sum_list ns))))"
  by (simp add: sum_rows_def sum_fold tick_any Let_def)

lemma numbers_cong: "(\<And>r. r \<in> set rows \<Longrightarrow> num (r ! idx) = num' (r ! idx)) \<Longrightarrow> numbers num idx rows = numbers num' idx rows"
  by (induction rows) simp_all

text \<open>Round half away from zero, as a bound on the distance.\<close>

lemma rounded_quotient:
  assumes "0 < (c :: nat)"
  shows "2 * \<bar>int c * int ((m + c div 2) div c) - int m\<bar> \<le> int c"
proof -
  define q r where "q = (m + c div 2) div c" and "r = (m + c div 2) mod c"
  have "c * q + r = m + c div 2" by (simp add: q_def r_def)
  then have "int c * int q + int r = int m + int (c div 2)" by (metis of_nat_add of_nat_mult)
  moreover have "r < c" using assms by (simp add: r_def)
  ultimately have "2 * (int c * int q) \<le> 2 * int m + int c" "2 * int m \<le> 2 * (int c * int q) + int c"
    by (simp_all add: zdiv_int)
  then show ?thesis unfolding q_def [symmetric] by (simp add: abs_if algebra_simps)
qed

lemma avg_rows_eq:
  assumes "length rows < 2 ^ 63"
  shows "avg_rows idx s rows =
    (let ns = numbers number_part idx rows in
     if \<not> sums_fit 0 ns then Inl (err_out_of_range ''AVG'')
     else if ns = [] then Ok VNull
     else
       bindR (ok_or (err_out_of_range ''AVG'') (checked_pow10_i64 (unat (avg_scale_of s - s)))) (\<lambda>factor.
       bindR (ok_or (err_out_of_range ''AVG'') (checked_mul_i64 (word_of_int (sum_list ns)) factor)) (\<lambda>scaled_sum.
       bindR (ok_or (err_out_of_range ''AVG'')
         (i64_of (int ((nat \<bar>sint scaled_sum\<bar> + length ns div 2) div length ns)))) (\<lambda>rounded.
       Ok (VDecimal (if sint scaled_sum < 0 then - rounded else rounded) (avg_scale_of s))))))"
proof -
  let ?ns = "numbers number_part idx rows"
  have "length ?ns \<le> length rows" by (simp add: numbers_def List.map_filter_def)
  with assms have l: "length ?ns < 2 ^ 63" by simp
  then have cu: "unat (of_nat (length ?ns) :: i64) = length ?ns" by (simp add: unat_of_nat)
  then have c0: "(of_nat (length ?ns) :: i64) = 0 \<longleftrightarrow> ?ns = []" by (metis length_0_conv unat_eq_0)
  show ?thesis by (simp add: avg_rows_def sum_fold tick_count cu c0 Let_def)
qed

lemma avg_scale: 
  assumes "s \<le> 26"
  shows "avg_scale_of s = s + 4" "unat (avg_scale_of s - s) = 4"
proof -
  have "unat s \<le> 26" using assms by (simp add: word_le_nat_alt)
  then have "word_of_nat (min 255 (unat s + unat (4 :: u8))) = s + 4" "unat (s + 4) = unat s + 4"
    by (simp_all add: min_def unat_word_ariths)
  with \<open>unat s \<le> 26\<close> show "avg_scale_of s = s + 4"
    by (simp add: avg_scale_of_def saturating_add_u8_def min_def word_le_nat_alt)
  then show "unat (avg_scale_of s - s) = 4" by simp
qed

lemma avg_rows_close:
  assumes ok: "avg_rows idx s rows = Ok v" and len: "length rows < 2 ^ 63" and s: "s \<le> 26"
    and ne: "numbers number_part idx rows \<noteq> []"
  shows "\<exists>u. v = VDecimal u (s + 4) \<and> 2 * \<bar>int (length (numbers number_part idx rows)) * sint u
        - sum_list (numbers number_part idx rows) * 10 ^ 4\<bar> \<le> int (length (numbers number_part idx rows))"
proof -
  let ?ns = "numbers number_part idx rows"
  have fit: "sums_fit 0 ?ns" using ok by (auto simp: avg_rows_eq [OF len] Let_def split: if_splits)
  then have sm: "sint (word_of_int (sum_list ?ns) :: i64) = sum_list ?ns"
    using sums_fit_total [of 0 ?ns] by (intro sint_word_of_int_i64) simp
  have "bindR (ok_or (err_out_of_range ''AVG'') (checked_pow10_i64 4)) (\<lambda>factor.
       bindR (ok_or (err_out_of_range ''AVG'') (checked_mul_i64 (word_of_int (sum_list ?ns)) factor)) (\<lambda>scaled_sum.
       bindR (ok_or (err_out_of_range ''AVG'')
         (i64_of (int ((nat \<bar>sint scaled_sum\<bar> + length ?ns div 2) div length ?ns)))) (\<lambda>rounded.
       Ok (VDecimal (if sint scaled_sum < 0 then - rounded else rounded) (s + 4))))) = Ok v"
    using ok fit ne by (simp add: avg_rows_eq [OF len] Let_def avg_scale [OF s])
  then obtain factor scaled rounded where
    f: "checked_pow10_i64 4 = Some factor" and sf: "checked_mul_i64 (word_of_int (sum_list ?ns)) factor = Some scaled"
    and r': "i64_of (int ((nat \<bar>sint scaled\<bar> + length ?ns div 2) div length ?ns)) = Some rounded"
    and v': "Ok (VDecimal (if sint scaled < 0 then - rounded else rounded) (s + 4)) = Ok v"
    unfolding bindR_Ok_iff ok_or_Ok_iff by blast
  have "sint factor = 10 ^ 4" using f by (simp add: checked_pow10_i64_Some_iff)
  then have sc: "sint scaled = sum_list ?ns * 10 ^ 4" using sf sm by (simp add: checked_mul_i64_Some_iff)
  have r: "sint rounded = int ((nat \<bar>sint scaled\<bar> + length ?ns div 2) div length ?ns)"
    using r' by (simp add: i64_of_Some_iff)
  have v: "v = VDecimal (if sint scaled < 0 then - rounded else rounded) (s + 4)" using v' by simp
  have c: "0 < length ?ns" using ne by simp
  have q: "2 * \<bar>int (length ?ns) * sint rounded - \<bar>sint scaled\<bar>\<bar> \<le> int (length ?ns)"
    using rounded_quotient [OF c, of "nat \<bar>sint scaled\<bar>"] r by simp
  show ?thesis
  proof (cases "sint scaled < 0")
    case True
    have "0 \<le> sint rounded" using r by simp
    then have "sint (- rounded) = - sint rounded" by (intro sint_uminus_i64) simp
    with True v sc q show ?thesis by (intro exI [of _ "- rounded"]) (simp add: abs_if split: if_splits)
  next
    case False
    with v sc q show ?thesis by (intro exI [of _ rounded]) simp
  qed
qed

section \<open>Extremes\<close>

lemma fold_extremum:
  assumes trans: "\<And>a b c. a \<in> S \<Longrightarrow> b \<in> S \<Longrightarrow> c \<in> S \<Longrightarrow> le a b \<Longrightarrow> le b c \<Longrightarrow> le a c"
    and keep: "\<And>a b. a \<in> S \<Longrightarrow> b \<in> S \<Longrightarrow> if keep a b then le a b else le b a" and refl: "\<And>a. a \<in> S \<Longrightarrow> le a a"
    and S: "b \<in> S" "set vs \<subseteq> S"
  shows "fold (\<lambda>v cur. if keep v cur then v else cur) vs b \<in> insert b (set vs)
    \<and> (\<forall>w \<in> insert b (set vs). le (fold (\<lambda>v cur. if keep v cur then v else cur) vs b) w)"
  using S
proof (induction vs arbitrary: b)
  case Nil
  then show ?case by (simp add: refl)
next
  case (Cons v vs)
  define b' where "b' = (if keep v b then v else b)"
  define m where "m = fold (\<lambda>v cur. if keep v cur then v else cur) vs b'"
  have S: "b \<in> S" "v \<in> S" "b' \<in> S" "set vs \<subseteq> S" using Cons.prems by (auto simp: b'_def)
  have IH: "m \<in> insert b' (set vs)" "\<forall>w \<in> insert b' (set vs). le m w" using Cons.IH [OF S(3,4)] by (simp_all add: m_def)
  have "le b' b" "le b' v" using keep [OF S(2,1)] refl S by (auto simp: b'_def split: if_splits)
  moreover have "m \<in> S" using IH(1) S by auto
  ultimately have "le m b" "le m v" using trans IH(2) S by (meson insertI1)+
  moreover have "m \<in> insert b (set (v # vs))" using IH(1) by (auto simp: b'_def)
  ultimately show ?case using IH(2) by (simp add: m_def b'_def)
qed

definition column_values :: "nat \<Rightarrow> row list \<Rightarrow> value list" where
  "column_values idx rows = filter (\<lambda>v. v \<noteq> VNull) (map (\<lambda>r. r ! idx) rows)"

abbreviation keep_new :: "bool \<Rightarrow> value \<Rightarrow> value \<Rightarrow> bool" where
  "keep_new want_min v cur \<equiv> want_min \<and> value_ordering v cur = Less \<or> \<not> want_min \<and> value_ordering v cur = Greater"

lemma best_fold_Some:
  "fold (best_step want_min idx) rows (Some b) =
     Some (fold (\<lambda>v cur. if keep_new want_min v cur then v else cur) (column_values idx rows) b)"
  by (induction rows arbitrary: b) (simp_all add: column_values_def best_step_def Let_def)

lemma best_fold_None:
  "fold (best_step want_min idx) rows None =
     (case column_values idx rows of
        [] \<Rightarrow> None
      | v # vs \<Rightarrow> Some (fold (\<lambda>v cur. if keep_new want_min v cur then v else cur) vs v))"
proof (induction rows)
  case (Cons row rows)
  have "best_step want_min idx row None = (if row ! idx = VNull then None else Some (row ! idx))"
    by (simp add: best_step_def)
  with Cons show ?case
    by (cases "row ! idx = VNull") (simp_all add: best_fold_Some, simp_all add: column_values_def)
qed (simp add: column_values_def)

lemma best_fold:
  assumes "\<forall>r \<in> set rows. has_type (r ! idx) T" "column_values idx rows \<noteq> []"
  shows "\<exists>v. fold (best_step want_min idx) rows None = Some v \<and> v \<in> set (column_values idx rows)
    \<and> (\<forall>w \<in> set (column_values idx rows). value_ordering v w \<noteq> (if want_min then Greater else Less))"
proof -
  obtain v vs where c: "column_values idx rows = v # vs" using assms(2) by (cases "column_values idx rows") auto
  have S: "v \<in> {v. has_type v T}" "set vs \<subseteq> {v. has_type v T}"
  proof -
    have "set (column_values idx rows) \<subseteq> {v. has_type v T}" using assms(1) by (auto simp: column_values_def)
    then show "v \<in> {v. has_type v T}" "set vs \<subseteq> {v. has_type v T}" unfolding c by auto
  qed
  let ?le = "\<lambda>a b. value_ordering a b \<noteq> (if want_min then Greater else Less)"
  have sw: "value_ordering y x = reverse_ordering (value_ordering x y)" if "has_type x T" "has_type y T" for x y
    using that by (rule value_ordering_column_swap)
  have tr: "?le x z" if "has_type x T" "has_type y T" "has_type z T" "?le x y" "?le y z" for x y z
  proof (cases want_min)
    case True
    then show ?thesis using that value_ordering_column_trans [OF that(1-3)] by simp
  next
    case False
    have "value_ordering z y \<noteq> Greater" "value_ordering y x \<noteq> Greater"
      using that(4,5) False sw [OF that(1,2)] sw [OF that(2,3)] by (cases "value_ordering x y"; cases "value_ordering y z"; simp)+
    then have "value_ordering z x \<noteq> Greater" by (rule value_ordering_column_trans [OF that(3,2,1)])
    then show ?thesis using sw [OF that(1,3)] False by (cases "value_ordering x z") simp_all
  qed
  have "fold (\<lambda>v cur. if keep_new want_min v cur then v else cur) vs v \<in> insert v (set vs)
      \<and> (\<forall>w \<in> insert v (set vs). ?le (fold (\<lambda>v cur. if keep_new want_min v cur then v else cur) vs v) w)"
  proof (rule fold_extremum [OF _ _ _ S])
    fix a b :: "value"
    assume ab: "a \<in> {v. has_type v T}" "b \<in> {v. has_type v T}"
    show "if keep_new want_min a b then ?le a b else ?le b a"
      using sw [of a b] ab by (cases want_min; cases "value_ordering a b") simp_all
  next
    fix a :: "value"
    assume "a \<in> {v. has_type v T}"
    then show "?le a a" using column_order.refl [of a T] by simp
  qed (use tr in blast)
  with c show ?thesis by (simp add: best_fold_None)
qed

section \<open>Groups\<close>

abbreviation key_of :: "nat list \<Rightarrow> row \<Rightarrow> value list" where
  "key_of idxs row \<equiv> map (\<lambda>i. row ! i) idxs"

lemma group_fold:
  "fold (push_group idxs) rows g key =
     (let rs = filter (\<lambda>r. key_of idxs r = key) rows in
      case g key of None \<Rightarrow> if rs = [] then None else Some rs | Some old \<Rightarrow> Some (old @ rs))"
proof (induction rows arbitrary: g)
  case Nil
  then show ?case by (simp split: option.split)
next
  case (Cons row rows)
  have p: "push_group idxs row g key =
      (if key_of idxs row = key then Some ((case g key of None \<Rightarrow> [] | Some old \<Rightarrow> old) @ [row]) else g key)"
    by (auto simp: push_group_def Let_def)
  show ?case by (auto simp: Cons.IH p Let_def split: option.split)
qed

lemma group_rows_eq:
  "idxs \<noteq> [] \<Longrightarrow> group_rows idxs rows key =
     (let rs = filter (\<lambda>r. key_of idxs r = key) rows in if rs = [] then None else Some rs)"
  by (simp add: group_rows_def group_fold)

lemma group_rows_dom: "idxs \<noteq> [] \<Longrightarrow> dom (group_rows idxs rows) = set (map (key_of idxs) rows)"
  by (auto simp: group_rows_eq Let_def filter_empty_conv split: if_splits)

abbreviation all_keys :: "nat \<Rightarrow> (nat \<times> bool) list" where
  "all_keys n \<equiv> map (\<lambda>i. (i, False)) [0..<n]"

lemma key_compare_Cons:
  "key_compare (x # xs) (y # ys) = (if value_ordering x y \<noteq> Equal then value_ordering x y else key_compare xs ys)"
  by (simp add: key_compare_def)

lemma row_compare_from:
  "length a = length b \<Longrightarrow> k \<le> length a \<Longrightarrow>
     row_compare (map (\<lambda>i. (i, False)) [k..<length a]) a b = key_compare (drop k a) (drop k b)"
proof (induction "length a - k" arbitrary: k)
  case 0
  then show ?case by (simp add: key_compare_def)
next
  case (Suc m)
  then have k: "k < length a" by simp
  then have u: "[k..<length a] = k # [Suc k..<length a]" by (rule upt_conv_Cons)
  have d: "drop k a = a ! k # drop (Suc k) a" "drop k b = b ! k # drop (Suc k) b"
    using k Suc.prems by (simp_all add: Cons_nth_drop_Suc)
  have "row_compare (map (\<lambda>i. (i, False)) [Suc k..<length a]) a b = key_compare (drop (Suc k) a) (drop (Suc k) b)"
    using Suc.hyps(1) [of "Suc k"] Suc.hyps(2) Suc.prems k by simp
  then show ?case unfolding u d key_compare_Cons list.map row_compare.simps Let_def by simp
qed

lemma key_compare_row: "length a = length b \<Longrightarrow> key_compare a b = row_compare (all_keys (length a)) a b"
  using row_compare_from [of a b 0] by simp

lemma sort_by_cong:
  assumes "\<And>a b. a \<in> set xs \<Longrightarrow> b \<in> set xs \<Longrightarrow> cmp a b = cmp' a b"
  shows "sort_by cmp xs = sort_by cmp' xs"
proof -
  have i: "insert_by cmp x ys = insert_by cmp' x ys" if "\<And>b. b \<in> set ys \<Longrightarrow> cmp x b = cmp' x b" for x ys
    using that by (induction ys) simp_all
  show ?thesis using assms
  proof (induction xs)
    case (Cons x xs)
    then have "sort_by cmp xs = sort_by cmp' xs" by simp
    moreover have "insert_by cmp x (sort_by cmp' xs) = insert_by cmp' x (sort_by cmp' xs)"
      using Cons.prems by (intro i) simp
    ultimately show ?case by (simp add: sort_by_def)
  qed (simp add: sort_by_def)
qed

lemma sort_keys_unique:
  assumes ks: "\<forall>k \<in> set xs. list_all2 has_type k Ts" and m: "mset xs = mset ys"
  shows "sort_by key_compare xs = sort_by key_compare ys"
proof -
  have sty: "set ys = set xs" using m by (metis set_mset_mset)
  have len: "length k = length Ts" if "k \<in> set xs" for k using ks that by (auto dest: list_all2_lengthD)
  have S: "set xs \<subseteq> sortable_rows Ts (all_keys (length Ts))"
    using ks len by (auto simp: sortable_rows_def list_all_iff)
  have e: "sort_by key_compare zs = sort_by (row_compare (all_keys (length Ts))) zs" if "set zs = set xs" for zs
    using that len by (intro sort_by_cong) (simp add: key_compare_row)
  have "sort_by (row_compare (all_keys (length Ts))) xs = sort_by (row_compare (all_keys (length Ts))) ys"
  proof (rule row_order.sort_by_unique [OF m S])
    fix a b
    assume ab: "a \<in> sortable_rows Ts (all_keys (length Ts))" "b \<in> sortable_rows Ts (all_keys (length Ts))"
      and "row_compare (all_keys (length Ts)) a b = Equal"
    then have "map (\<lambda>i. a ! i) [0..<length Ts] = map (\<lambda>i. b ! i) [0..<length Ts]"
      using row_compare_Equal_iff [OF ab] by (simp add: comp_def)
    moreover have "length a = length Ts" "length b = length Ts"
      using ab by (auto simp: sortable_rows_def dest: list_all2_lengthD)
    ultimately show "a = b" by (metis map_nth)
  qed
  then show ?thesis using e [of xs] e [of ys] sty by simp
qed

text \<open>
  What \<^verbatim>\<open>GROUP BY\<close> means, without a hash map: one row for every distinct key, in the order of
  the keys, computed from the rows with that key.
\<close>

definition grouped ::
    "selector \<Rightarrow> scope \<Rightarrow> row list \<Rightarrow> select_item list \<Rightarrow> nat list \<Rightarrow> order_by_item list \<Rightarrow> u64 option
     \<Rightarrow> u64 option \<Rightarrow> query_result result" where
  "grouped sel sc rows projection idxs order_by limit offset =
     (if Wildcard \<in> set projection then Inl err_group_star
      else
        bindR (mapR (plan_item sc idxs) projection) (\<lambda>plan.
        bindR (mapR (\<lambda>key. mapR (group_item key (filter (\<lambda>r. key_of idxs r = key) rows)) (map fst plan))
            (sort_by key_compare (remdups (map (key_of idxs) rows)))) (\<lambda>output_rows.
        bindR (mapR (output_sort_key (map snd plan)) order_by) (\<lambda>sort_keys.
        Ok \<lparr>qr_columns = map snd plan, qr_rows = sort_and_paginate sel output_rows sort_keys limit offset,
             qr_rows_affected = 0\<rparr>))))"

lemma resolve_all_less: "mapR (resolve sc) group_by = Ok idxs \<Longrightarrow> i \<in> set idxs \<Longrightarrow> i < length (sc_columns sc)"
  by (auto simp: mapR_Ok_list_all2 list_all2_conv_all_nth in_set_conv_nth dest: resolve_less)

lemma sorted_group_keys:
  assumes "idxs \<noteq> []" "\<forall>i \<in> set idxs. i < length cols" "\<forall>r \<in> set rows. row_typed cols r"
    and "distinct ks" "set ks = dom (group_rows idxs rows)"
  shows "sort_by key_compare ks = sort_by key_compare (remdups (map (key_of idxs) rows))"
proof (rule sort_keys_unique)
  have st: "set ks = set (remdups (map (key_of idxs) rows))" using assms(1,5) by (simp add: group_rows_dom)
  then show "mset ks = mset (remdups (map (key_of idxs) rows))"
    using assms(4) by (simp add: set_eq_iff_mset_eq_distinct [symmetric])
  show "\<forall>k \<in> set ks. list_all2 has_type k (map (\<lambda>i. cs_type (cols ! i)) idxs)"
    using assms(2,3) by (auto simp: st row_typed_nth list_all2_conv_all_nth)
qed

section \<open>Properties of aggregates\<close>

fun of_number :: "column_type \<Rightarrow> int \<Rightarrow> value" where
  "of_number (TDecimal s) z = VDecimal (word_of_int z) s"
| "of_number _ z = VInt (word_of_int z)"



text \<open>
  \<^verbatim>\<open>MIN\<close> and \<^verbatim>\<open>MAX\<close> over a column of a group return a value of that column
  that no other value of it is below, or above, in the order of \<^verbatim>\<open>ORDER BY\<close>; \<^verbatim>\<open>NULL\<close>
  only when the column holds nothing else.
\<close>

theorem min_max_extremal:
  assumes "\<forall>r \<in> set rows. has_type (r ! idx) T" "f = ''MIN'' \<or> f = ''MAX''"
  shows "\<exists>v. evaluate_aggregate f (Some (idx, T)) rows = Ok v
    \<and> (if column_values idx rows = [] then v = VNull
       else v \<in> set (column_values idx rows)
         \<and> (\<forall>w \<in> set (column_values idx rows). value_ordering v w \<noteq> (if f = ''MIN'' then Greater else Less)))"
proof -
  have up: "to_ascii_uppercase ''MIN'' = ''MIN''" "to_ascii_uppercase ''MAX'' = ''MAX''"
    "eq_ignore_ascii_case ''MIN'' ''MIN''" "\<not> eq_ignore_ascii_case ''MAX'' ''MIN''" by code_simp+
  have e: "evaluate_aggregate f (Some (idx, T)) rows =
      Ok (case fold (best_step (f = ''MIN'') idx) rows None of Some v \<Rightarrow> v | None \<Rightarrow> VNull)"
    using assms(2) by (auto simp: evaluate_aggregate_def up)
  show ?thesis
  proof (cases "column_values idx rows = []")
    case True
    then show ?thesis by (simp add: e best_fold_None)
  next
    case False
    from best_fold [OF assms(1) this, of "f = ''MIN''"] False show ?thesis by (auto simp: e)
  qed
qed

theorem min_max_extremal_witness:
  "evaluate_aggregate ''MAX'' (Some (0, TVarchar)) [[VVarchar ''a''], [VNull], [VVarchar ''b'']] = Ok (VVarchar ''b'')
   \<and> value_ordering (VVarchar ''b'') (VVarchar ''a'') \<noteq> Less"
proof -
  let ?rows = "[[VVarchar ''a''], [VNull], [VVarchar ''b'']]"
  have a: "evaluate_aggregate ''MAX'' (Some (0, TVarchar)) ?rows = Ok (VVarchar ''b'')" by code_simp
  have c: "column_values 0 ?rows = [VVarchar ''a'', VVarchar ''b'']" by code_simp
  from min_max_extremal [of ?rows 0 TVarchar "''MAX''"] a c show ?thesis by auto
qed

text \<open>
  Claim (C20). \<^verbatim>\<open>GROUP BY\<close> on typed rows.  Whatever order the hash map of groups lists its keys in,
  the result is the same: one row for every distinct combination of the grouping columns, in the
  order of the keys before any \<^verbatim>\<open>ORDER BY\<close>, each computed from exactly the rows with that
  combination in their original order; columns and errors included.
\<close>

theorem group_by_deterministic:
  assumes "mapR (resolve sc) group_by = Ok idxs" "group_by \<noteq> []" "\<forall>r \<in> set rows. row_typed (sc_columns sc) r"
    and "distinct (gord (group_rows idxs rows))" "set (gord (group_rows idxs rows)) = dom (group_rows idxs rows)"
  shows "execute_aggregate gord sel sc rows projection group_by order_by limit offset
    = grouped sel sc rows projection idxs order_by limit offset"
proof -
  have ne: "idxs \<noteq> []" using assms(1,2) by (auto simp: mapR_Ok_list_all2)
  have ks: "sort_by key_compare (gord (group_rows idxs rows)) = sort_by key_compare (remdups (map (key_of idxs) rows))"
    using sorted_group_keys [OF ne _ assms(3-5)] resolve_all_less [OF assms(1)] by blast
  have "mapR (group_row (group_rows idxs rows) res) (sort_by key_compare (remdups (map (key_of idxs) rows)))
      = mapR (\<lambda>key. mapR (group_item key (filter (\<lambda>r. key_of idxs r = key) rows)) res)
          (sort_by key_compare (remdups (map (key_of idxs) rows)))" for res
    by (rule mapR_cong) (auto simp: group_row_def group_rows_eq [OF ne] Let_def filter_empty_conv)
  then show ?thesis
    by (simp add: execute_aggregate_def grouped_def assms(1) ks Let_def list_ex_iff)
qed

theorem group_by_deterministic_witness:
  "map_result qr_rows (execute_aggregate (\<lambda>g. [[VInt 2], [VInt 1]]) (\<lambda>cmp k xs. sort_by cmp xs)
      (scope_single ''t'' demo_columns) [[VInt 2, VVarchar ''a''], [VInt 1, VNull], [VInt 2, VNull]]
      [ItemExpr (EColumn \<lparr>cr_table = None, cr_column = ''id''\<rparr>) None, ItemExpr (EFunction ''COUNT'' []) None]
      [\<lparr>cr_table = None, cr_column = ''id''\<rparr>] [] None None)
   = Ok [[VInt 1, VInt 1], [VInt 2, VInt 2]]"
proof -
  let ?id = "\<lparr>cr_table = None, cr_column = ''id''\<rparr>" and ?rows = "[[VInt 2, VVarchar ''a''], [VInt 1, VNull], [VInt 2, VNull]]"
  let ?sc = "scope_single ''t'' demo_columns" and ?sel = "\<lambda>cmp k xs. sort_by cmp xs"
  let ?pr = "[ItemExpr (EColumn ?id) None, ItemExpr (EFunction ''COUNT'' []) None]"
  have r: "mapR (resolve ?sc) [?id] = Ok [0]" by code_simp
  have t: "\<forall>r \<in> set ?rows. row_typed (sc_columns ?sc) r"
    by (simp add: row_typed_def scope_single_def demo_columns_def)
  have d: "dom (group_rows [0] ?rows) = {[VInt 1], [VInt 2]}" by (auto simp: group_rows_dom)
  have "map_result qr_rows (grouped ?sel ?sc ?rows ?pr [0] [] None None) = Ok [[VInt 1, VInt 1], [VInt 2, VInt 2]]"
    by code_simp
  moreover have "execute_aggregate (\<lambda>g. [[VInt 2], [VInt 1]]) ?sel ?sc ?rows ?pr [?id] [] None None
      = grouped ?sel ?sc ?rows ?pr [0] [] None None"
    by (rule group_by_deterministic [where gord = "\<lambda>g. [[VInt 2], [VInt 1]]", OF r _ t]) (simp_all only: d, auto)
  ultimately show ?thesis by (simp only:)
qed

end
