(* ===== verification/Exec_Statement.thy ===== *)
theory Exec_Statement
  imports Exec_Aggregate
begin

text \<open>
  Executing a statement (\<^verbatim>\<open>src/src/query/executor.rs\<close>, lines 39 to 629): the dispatcher,
  \<^verbatim>\<open>SHOW\<close>, \<^verbatim>\<open>CREATE TABLE\<close>, \<^verbatim>\<open>ALTER TABLE\<close>, \<^verbatim>\<open>INSERT\<close>,
  \<^verbatim>\<open>SELECT\<close> and the system variables.  A statement takes the storage handle and returns its result
  with the new handle.  What hash maps and the unstable selection leave open is the record
  \<open>orders\<close>.
\<close>

record orders =
  od_tables :: "tables \<Rightarrow> string list"
  od_databases :: "string set \<Rightarrow> string list"
  od_groups :: "groups \<Rightarrow> value list list"
  od_select :: selector

section \<open>System variables and functions\<close>

record system_variables =
  sv_version :: string
  sv_max_allowed_packet :: u64
  sv_wait_timeout :: u64

definition as_int :: "u64 \<Rightarrow> value" where
  "as_int v = VInt (word_of_nat (min (unat v) (2 ^ 63 - 1)))"

definition known_variables :: "system_variables \<Rightarrow> (string \<times> value) list" where
  "known_variables vars =
     [(''version'', VVarchar (sv_version vars)),
      (''version_comment'', VVarchar ''mysql-rust''),
      (''max_allowed_packet'', as_int (sv_max_allowed_packet vars)),
      (''wait_timeout'', as_int (sv_wait_timeout vars)),
      (''interactive_timeout'', as_int (sv_wait_timeout vars)),
      (''net_write_timeout'', VInt 60),
      (''net_read_timeout'', VInt 30),
      (''autocommit'', VInt 1),
      (''auto_increment_increment'', VInt 1),
      (''character_set_client'', VVarchar ''utf8mb4''),
      (''character_set_connection'', VVarchar ''utf8mb4''),
      (''character_set_results'', VVarchar ''utf8mb4''),
      (''character_set_server'', VVarchar ''utf8mb4''),
      (''collation_server'', VVarchar ''utf8mb4_general_ci''),
      (''collation_connection'', VVarchar ''utf8mb4_general_ci''),
      (''init_connect'', VVarchar []),
      (''license'', VVarchar ''MIT OR Apache-2.0''),
      (''lower_case_table_names'', VInt 0),
      (''performance_schema'', VInt 0),
      (''query_cache_size'', VInt 0),
      (''query_cache_type'', VVarchar ''OFF''),
      (''have_query_cache'', VVarchar ''NO''),
      (''sql_mode'', VVarchar []),
      (''system_time_zone'', VVarchar ''UTC''),
      (''time_zone'', VVarchar ''SYSTEM''),
      (''transaction_isolation'', VVarchar ''READ-COMMITTED''),
      (''tx_isolation'', VVarchar ''READ-COMMITTED''),
      (''transaction_read_only'', VInt 0),
      (''socket'', VNull)]"

definition bare_name :: "string \<Rightarrow> string" where
  "bare_name lower =
     (case strip_prefix ''session.'' lower of
        Some s \<Rightarrow> s
      | None \<Rightarrow>
          (case strip_prefix ''global.'' lower of
             Some s \<Rightarrow> s
           | None \<Rightarrow>
               (case strip_prefix ''local.'' lower of
                  Some s \<Rightarrow> s
                | None \<Rightarrow> lower)))"

definition system_variable :: "system_variables \<Rightarrow> string \<Rightarrow> value" where
  "system_variable vars name =
     (case find (\<lambda>(n, _). n = bare_name (to_ascii_lowercase name)) (known_variables vars) of
        Some (_, v) \<Rightarrow> v
      | None \<Rightarrow> VNull)"

definition evaluate_function :: "system_variables \<Rightarrow> string \<Rightarrow> expr list \<Rightarrow> value" where
  "evaluate_function vars name args =
     (let f = to_ascii_lowercase name in
      if f = ''database'' \<or> f = ''schema'' then VNull
      else if f = ''version'' then VVarchar (sv_version vars)
      else if f = ''connection_id'' then VInt 1
      else if f = ''last_insert_id'' then VInt 0
      else VNull)"

section \<open>SHOW\<close>

definition text_col :: "string \<Rightarrow> column_schema" where
  "text_col name = \<lparr>cs_name = name, cs_type = TVarchar, cs_nullable = True, cs_auto_increment = False\<rparr>"

definition int_col :: "string \<Rightarrow> column_schema" where
  "int_col name = \<lparr>cs_name = name, cs_type = TInt, cs_nullable = True, cs_auto_increment = False\<rparr>"

definition shown :: "column_schema list \<Rightarrow> row list \<Rightarrow> query_result" where
  "shown columns rows = \<lparr>qr_columns = columns, qr_rows = rows, qr_rows_affected = 0\<rparr>"

definition execute_show :: "orders \<Rightarrow> system_variables \<Rightarrow> handle \<Rightarrow> show_statement \<Rightarrow> query_result result" where
  "execute_show od vars h show =
     (case show of
        ShowDatabases \<Rightarrow>
          map_result (\<lambda>names. shown [text_col ''Database''] (map (\<lambda>d. [VVarchar d]) (sort_by str_cmp names)))
            (st_databases (od_databases od) h)
      | ShowCharacterSet \<Rightarrow>
          Ok (shown [text_col ''Charset'', text_col ''Description'', text_col ''Default collation'', int_col ''Maxlen'']
            [[VVarchar ''utf8mb4'', VVarchar ''UTF-8 Unicode'', VVarchar ''utf8mb4_general_ci'', VInt 4]])
      | ShowCollation \<Rightarrow>
          Ok (shown [text_col ''Collation'', text_col ''Charset'', int_col ''Id'', text_col ''Default'',
              text_col ''Compiled'', int_col ''Sortlen'']
            [[VVarchar ''utf8mb4_general_ci'', VVarchar ''utf8mb4'', VInt 45, VVarchar ''Yes'', VVarchar ''Yes'', VInt 1]])
      | ShowTables \<Rightarrow>
          map_result (\<lambda>names. shown [text_col ''Tables_in_mysql_rust''] (map (\<lambda>t. [VVarchar t]) (sort_by str_cmp names)))
            (st_tables (od_tables od) h)
      | ShowWarnings \<Rightarrow> Ok (shown [text_col ''Level'', text_col ''Code'', text_col ''Message''] [])
      | ShowVariables like \<Rightarrow>
          Ok (shown [text_col ''Variable_name'', text_col ''Value'']
            (map (\<lambda>(name, v). [VVarchar name, v])
              (filter (\<lambda>(name, _). case like of Some pattern \<Rightarrow> like_matches pattern name | None \<Rightarrow> True)
                (known_variables vars))))
      | ShowOther \<Rightarrow> Ok default_result)"

section \<open>CREATE TABLE and ALTER TABLE\<close>

definition err_multiple_pk :: exn where
  "err_multiple_pk = Err (Execution ''multiple primary key columns are not supported'')"

definition err_multiple_auto :: exn where
  "err_multiple_auto = Err (Unsupported ''more than one AUTO_INCREMENT column per table'')"

definition err_auto_needs_pk :: exn where
  "err_auto_needs_pk = Err (Unsupported (''AUTO_INCREMENT on a column that isn'' @ [CHR 0x27] @ ''t the PRIMARY KEY''))"

definition create_column ::
    "string option \<times> string option \<times> column_schema list \<Rightarrow> column_def
     \<Rightarrow> (string option \<times> string option \<times> column_schema list) result" where
  "create_column = (\<lambda>(primary_key, auto_increment_column, schema_columns) col.
     bindR (column_def_to_schema col) (\<lambda>(schema, is_primary_key).
     bindR (if is_primary_key
            then (if primary_key \<noteq> None then Inl err_multiple_pk else Ok (Some (cs_name schema)))
            else Ok primary_key) (\<lambda>primary_key.
     bindR (if cs_auto_increment schema
            then (if auto_increment_column \<noteq> None then Inl err_multiple_auto else Ok (Some (cs_name schema)))
            else Ok auto_increment_column) (\<lambda>auto_increment_column.
     Ok (primary_key, auto_increment_column, schema_columns @ [schema])))))"

definition table_definition :: "column_def list \<Rightarrow> (column_schema list \<times> string option) result" where
  "table_definition columns =
     bindR (foldR create_column (None, None, []) columns) (\<lambda>(primary_key, auto_increment_column, schema_columns).
     case auto_increment_column of
       Some name \<Rightarrow>
         if primary_key \<noteq> Some name then Inl err_auto_needs_pk else Ok (schema_columns, primary_key)
     | None \<Rightarrow> Ok (schema_columns, primary_key))"

definition execute_create_table :: "io_outcome \<Rightarrow> handle \<Rightarrow> string \<Rightarrow> column_def list \<Rightarrow> query_result result \<times> handle" where
  "execute_create_table io h table columns =
     (case table_definition columns of
        Inl x \<Rightarrow> (Inl x, h)
      | Inr (schema_columns, primary_key) \<Rightarrow>
          (let (r, h') = st_create_table io h table schema_columns primary_key in
           (map_result (\<lambda>_. default_result) r, h')))"

definition err_modify_pk :: exn where
  "err_modify_pk = Err (Unsupported (''ALTER TABLE MODIFY COLUMN cannot change PRIMARY KEY status; use ''
     @ ''ADD PRIMARY KEY / DROP PRIMARY KEY instead''))"

definition alter_change :: "alter_action \<Rightarrow> schema_change result" where
  "alter_change action =
     (case action of
        ActAddColumn col \<Rightarrow> map_result (\<lambda>(column, is_primary_key). AddColumn column is_primary_key) (column_def_to_schema col)
      | ActDropColumn name \<Rightarrow> Ok (DropColumn name)
      | ActModifyColumn col \<Rightarrow>
          if cd_is_primary_key col then Inl err_modify_pk
          else map_result (\<lambda>(column, _). ModifyColumn column) (column_def_to_schema col)
      | ActAddPrimaryKey name \<Rightarrow> Ok (AddPrimaryKey name)
      | ActDropPrimaryKey \<Rightarrow> Ok DropPrimaryKey)"

definition execute_alter_table :: "io_outcome \<Rightarrow> handle \<Rightarrow> string \<Rightarrow> alter_action \<Rightarrow> query_result result \<times> handle" where
  "execute_alter_table io h table action =
     (case alter_change action of
        Inl x \<Rightarrow> (Inl x, h)
      | Inr change \<Rightarrow>
          (let (r, h') = st_alter_table io h table change in (map_result (\<lambda>_. default_result) r, h')))"

section \<open>INSERT\<close>

text \<open>One row: each value is coerced, numbered if it is a \<^verbatim>\<open>NULL AUTO_INCREMENT\<close>, and checked.\<close>

definition number_null :: "handle \<Rightarrow> string \<Rightarrow> column_schema \<Rightarrow> value \<Rightarrow> value result \<times> handle" where
  "number_null h table col v =
     (if v = VNull \<and> cs_auto_increment col
      then (let (r, h') = st_next_auto_increment h table in (map_result VInt r, h'))
      else (Ok v, h))"

definition err_not_null :: "string \<Rightarrow> exn" where
  "err_not_null c = Err (Execution (''Column '' @ quoted c @ '' cannot be NULL''))"

fun insert_values :: "handle \<Rightarrow> string \<Rightarrow> (expr \<times> column_schema) list \<Rightarrow> row result \<times> handle" where
  "insert_values h table [] = (Ok [], h)"
| "insert_values h table ((e, col) # rest) =
     (case coerce e (cs_type col) (cs_name col) of
        Inl x \<Rightarrow> (Inl x, h)
      | Inr v \<Rightarrow>
          (let (r, h1) = number_null h table col v in
           case r of
             Inl x \<Rightarrow> (Inl x, h1)
           | Inr v' \<Rightarrow>
               if v' = VNull \<and> \<not> cs_nullable col then (Inl (err_not_null (cs_name col)), h1)
               else (let (r', h2) = insert_values h1 table rest in (map_result (Cons v') r', h2))))"

definition ordered_exprs :: "string \<Rightarrow> table_schema \<Rightarrow> string list option \<Rightarrow> expr list \<Rightarrow> expr list result" where
  "ordered_exprs table schema columns row =
     bindR (case columns of Some cols \<Rightarrow> reorder_exprs (ts_columns schema) cols row | None \<Rightarrow> Ok row) (\<lambda>es.
     if length es \<noteq> length (ts_columns schema)
     then Inl (err_column_count table (length (ts_columns schema)) (length es))
     else Ok es)"

fun insert_batch ::
    "handle \<Rightarrow> string \<Rightarrow> table_schema \<Rightarrow> string list option \<Rightarrow> expr list list \<Rightarrow> (string \<times> row) list result \<times> handle" where
  "insert_batch h table schema columns [] = (Ok [], h)"
| "insert_batch h table schema columns (row # rows) =
     (case ordered_exprs table schema columns row of
        Inl x \<Rightarrow> (Inl x, h)
      | Inr es \<Rightarrow>
          (let (r, h1) = insert_values h table (zip es (ts_columns schema)) in
           case r of
             Inl x \<Rightarrow> (Inl x, h1)
           | Inr values \<Rightarrow>
               (let (r', h2) = insert_batch h1 table schema columns rows in
                (map_result (Cons (table, values)) r', h2))))"

definition execute_insert ::
    "io_outcome \<Rightarrow> handle \<Rightarrow> string \<Rightarrow> string list option \<Rightarrow> expr list list \<Rightarrow> query_result result \<times> handle" where
  "execute_insert io h table columns rows =
     (case st_table_schema h table of
        Inl x \<Rightarrow> (Inl x, h)
      | Inr schema \<Rightarrow>
          (let (b, h1) = insert_batch h table schema columns rows in
           case b of
             Inl x \<Rightarrow> (Inl x, h1)
           | Inr batch \<Rightarrow>
               (let (r, h2) = st_insert_rows io h1 batch in
                (map_result (\<lambda>_. default_result\<lparr>qr_rows_affected := word_of_nat (length batch)\<rparr>) r, h2))))"

section \<open>SELECT\<close>

definition err_star_without_from :: exn where
  "err_star_without_from = Err (Execution ''SELECT * requires a FROM clause'')"

definition err_field_list_column :: "column_ref \<Rightarrow> exn" where
  "err_field_list_column c = Err (Execution (''Unknown column ''
     @ quoted (case cr_table c of Some t \<Rightarrow> t @ ''.'' @ cr_column c | None \<Rightarrow> cr_column c)
     @ '' in '' @ quoted ''field list''))"

definition literal_value :: "system_variables \<Rightarrow> expr \<Rightarrow> (string \<times> value) result" where
  "literal_value vars e =
     (case e of
        EInteger n \<Rightarrow> Ok (show_i64 n, VInt n)
      | EDecimal unscaled scale \<Rightarrow> Ok (format_decimal unscaled scale, VDecimal unscaled scale)
      | EString s \<Rightarrow> Ok (s, VVarchar s)
      | ENull \<Rightarrow> Ok (''NULL'', VNull)
      | ESystemVariable name \<Rightarrow> Ok (''@@'' @ name, system_variable vars name)
      | EFunction name args \<Rightarrow> Ok (name @ ''()'', evaluate_function vars name args)
      | EColumn col_ref \<Rightarrow> Inl (err_field_list_column col_ref)
      | EPlaceholder _ \<Rightarrow> Inl err_unbound)"

definition literal_type :: "value \<Rightarrow> column_type" where
  "literal_type v =
     (case v of
        VInt _ \<Rightarrow> TInt
      | VDecimal _ scale \<Rightarrow> TDecimal scale
      | VDate _ \<Rightarrow> TDate
      | VVarchar _ \<Rightarrow> TVarchar
      | VNull \<Rightarrow> TVarchar)"

definition literal_item :: "system_variables \<Rightarrow> select_item \<Rightarrow> (column_schema \<times> value) result" where
  "literal_item vars item =
     (case item of
        Wildcard \<Rightarrow> Inl err_star_without_from
      | ItemExpr e alias \<Rightarrow>
          bindR (literal_value vars e) (\<lambda>(default_name, v).
          Ok (\<lparr>cs_name = (case alias of Some a \<Rightarrow> a | None \<Rightarrow> default_name), cs_type = literal_type v,
                cs_nullable = True, cs_auto_increment = False\<rparr>, v)))"

definition select_without_table ::
    "system_variables \<Rightarrow> select_item list \<Rightarrow> u64 option \<Rightarrow> u64 option \<Rightarrow> query_result result" where
  "select_without_table vars projection limit offset =
     bindR (mapR (literal_item vars) projection) (\<lambda>items.
     let dropped = (case offset of Some o' \<Rightarrow> 1 \<le> o' | None \<Rightarrow> False) \<or> limit = Some 0 in
     Ok \<lparr>qr_columns = map fst items, qr_rows = (if dropped then [] else [map snd items]), qr_rows_affected = 0\<rparr>)"

definition execute_select :: "orders \<Rightarrow> system_variables \<Rightarrow> handle \<Rightarrow> select_stmt \<Rightarrow> query_result result" where
  "execute_select od vars h sel =
     (case sl_from sel of
        None \<Rightarrow> select_without_table vars (sl_projection sel) (sl_limit sel) (sl_offset sel)
      | Some from_clause \<Rightarrow>
          bindR (resolve_from h from_clause (sl_selection sel)) (\<lambda>(sc, rows).
          if is_aggregate_query (sl_projection sel) (sl_group_by sel)
          then execute_aggregate (od_groups od) (od_select od) sc rows (sl_projection sel) (sl_group_by sel)
            (sl_order_by sel) (sl_limit sel) (sl_offset sel)
          else execute_projected (od_select od) sc rows (sl_projection sel) (sl_order_by sel) (sl_limit sel) (sl_offset sel)))"

section \<open>The dispatcher\<close>

definition err_transaction_control :: exn where
  "err_transaction_control = Err (Execution
     ''transaction control statements must be handled by the connection layer'')"

definition execute ::
    "orders \<Rightarrow> system_variables \<Rightarrow> io_outcome \<Rightarrow> handle \<Rightarrow> statement \<Rightarrow> query_result result \<times> handle" where
  "execute od vars io h st =
     (case st of
        StCreateTable table columns \<Rightarrow> execute_create_table io h table columns
      | StInsert table columns rows \<Rightarrow> execute_insert io h table columns rows
      | StSelect sel \<Rightarrow> (execute_select od vars h sel, h)
      | StBegin \<Rightarrow> (Inl err_transaction_control, h)
      | StCommit \<Rightarrow> (Inl err_transaction_control, h)
      | StRollback \<Rightarrow> (Inl err_transaction_control, h)
      | StSet \<Rightarrow> (Ok default_result, h)
      | StUse \<Rightarrow> (Ok default_result, h)
      | StShow show \<Rightarrow> (execute_show od vars h show, h)
      | StCreateDatabase name if_not_exists \<Rightarrow>
          (let (r, h') = st_create_database io h name if_not_exists in (map_result (\<lambda>_. default_result) r, h'))
      | StDropDatabase name if_exists \<Rightarrow>
          (let (r, h') = st_drop_database io h name if_exists in (map_result (\<lambda>_. default_result) r, h'))
      | StAlterTable table action \<Rightarrow> execute_alter_table io h table action)"

end
