(* ===== verification/Exec_Insert.thy ===== *)
theory Exec_Insert
  imports Exec_Statement
begin

text \<open>
  What an \<^verbatim>\<open>INSERT\<close> statement does to the database it sees: it appends rows of the table's
  column types, with no \<^verbatim>\<open>NULL\<close> in a \<^verbatim>\<open>NOT NULL\<close> column, to that table alone; and outside a
  transaction it appends all of them or none.
\<close>

section \<open>Appending rows through a handle\<close>

definition append_rows :: "adb \<Rightarrow> string \<Rightarrow> row list \<Rightarrow> adb" where
  "append_rows db n rows = db(n := map_option (\<lambda>(s, old). (s, old @ rows)) (db n))"

lemma append_rows_Nil [simp]: "append_rows db n [] = db"
  by (auto simp: append_rows_def fun_eq_iff option.map_ident case_prod_unfold)

lemma spec_insert_all_append:
  "spec_insert_all db (map (\<lambda>row. (n, row)) rows) = Some db' \<Longrightarrow> db' = append_rows db n rows"
proof (induction rows arbitrary: db)
  case (Cons row rows)
  then obtain s old where "db n = Some (s, old)" "spec_insert_all (db(n \<mapsto> (s, old @ [row]))) (map (\<lambda>row. (n, row)) rows) = Some db'"
    by (auto split: option.splits if_splits simp: bind_eq_Some_conv)
  then show ?case using Cons.IH [of "db(n \<mapsto> (s, old @ [row]))"] by (simp add: append_rows_def del: fun_upd_apply) simp
qed simp

lemma engine_insert_effect:
  assumes inv: "store_inv en" and i: "insert_rows io en (map (\<lambda>row. (n, row)) rows) = (r, en')"
  shows "store_inv en' \<and> (if r = Ok () then abs_store en' = append_rows (abs_store en) n rows else abs_store en' = abs_store en)"
proof -
  let ?b = "map (\<lambda>row. (n, row)) rows"
  have s: "store_inv en'" by (rule insert_rows_store(1) [OF inv i])
  show ?thesis
  proof (cases "spec_insert_all (abs_store en) ?b")
    case None
    with insert_rows_refined [OF inv, where rows = ?b and io = io] i s show ?thesis by auto
  next
    case (Some db)
    note db = spec_insert_all_append [OF Some]
    obtain rl en1 where le: "log_entry io en (Transaction ?b) = (rl, en1)" by fastforce
    have a1: "abs_store en1 = abs_store en" using log_entry_memory [OF le] by (simp add: memory_of_def abs_store_def)
    show ?thesis
    proof (cases rl)
      case (Inl x)
      then show ?thesis
      proof (cases "rows = []")
        case True
        then have "r = Ok ()" "en' = en" using i by (simp_all add: insert_rows_def)
        with True s show ?thesis by simp
      next
        case False
        then have "r = Inl x" "en' = en1" using insert_rows_refined [OF inv, where rows = ?b and io = io] Some le Inl i by auto
        with s a1 show ?thesis by simp
      qed
    next
      case (Inr u)
      then have "r = Ok () \<and> abs_store en' = db" using insert_rows_refined [OF inv, where rows = ?b and io = io] Some le i by auto
      with s db show ?thesis by simp
    qed
  qed
qed

lemma tx_insert_effect:
  assumes inv: "store_inv en" and "tx_fits (abs_store en) tx" "tx_insert_rows en tx (map (\<lambda>row. (n, row)) rows) = (r, tx')"
  shows "\<exists>k \<le> length rows. pending_rows tx' = (pending_rows tx)(n := pending_rows tx n @ take k rows)
    \<and> (r = Ok () \<longrightarrow> k = length rows)"
  using assms(2,3)
proof (induction rows arbitrary: tx)
  case Nil
  then show ?case by simp
next
  case (Cons row rows)
  obtain r1 tx1 where 1: "tx_insert_row en tx n row = (r1, tx1)" by fastforce
  note f = tx_insert_row_fits(1) [OF inv Cons.prems(1) 1]
  show ?case
  proof (cases r1)
    case (Inl x)
    then have "r = Inl x" "tx' = tx" using 1 Cons.prems(2) by (auto simp: tx_insert_row_def split: sum.splits)
    then show ?thesis by (intro exI [of _ 0]) simp
  next
    case (Inr u)
    then have p: "pending_rows tx1 = (pending_rows tx)(n := pending_rows tx n @ [row])"
      using 1 by (auto simp: tx_insert_row_def fun_eq_iff split: sum.splits)
    from Inr 1 Cons.prems(2) have "tx_insert_rows en tx1 (map (\<lambda>row. (n, row)) rows) = (r, tx')" by simp
    from Cons.IH [OF f this] obtain k where "k \<le> length rows"
      "pending_rows tx' = (pending_rows tx1)(n := pending_rows tx1 n @ take k rows)" "r = Ok () \<longrightarrow> k = length rows" by blast
    with p show ?thesis by (intro exI [of _ "Suc k"]) simp
  qed
qed

lemma add_pending_append:
  "add_pending db (pend(n := pend n @ rows)) = append_rows (add_pending db pend) n rows"
  by (auto simp: add_pending_def append_rows_def fun_eq_iff option.map_comp comp_def case_prod_unfold)

lemma st_insert_effect:
  assumes inv: "handle_inv h" and i: "st_insert_rows io h (map (\<lambda>row. (n, row)) rows) = (r, h')"
  shows "handle_inv h' \<and> (\<exists>k \<le> length rows. handle_db h' = append_rows (handle_db h) n (take k rows)
       \<and> (r = Ok () \<longrightarrow> k = length rows) \<and> (r \<noteq> Ok () \<longrightarrow> snd h = None \<longrightarrow> k = 0))"
proof (cases "snd h")
  case None
  obtain en' where e: "insert_rows io (fst h) (map (\<lambda>row. (n, row)) rows) = (r, en')" "h' = (en', None)"
    using i None by (auto simp: st_insert_rows_def on_engine_def split: prod.splits)
  have s: "store_inv (fst h)" using inv None by (simp add: handle_inv_def)
  from engine_insert_effect [OF s e(1)] e(2) None show ?thesis
    by (cases "r = Ok ()") (auto simp: handle_inv_def handle_db_def intro!: exI [of _ 0] exI [of _ "length rows"])
next
  case (Some tx)
  obtain tx' where e: "tx_insert_rows (fst h) tx (map (\<lambda>row. (n, row)) rows) = (r, tx')" "h' = (fst h, Some tx')"
    using i Some by (auto simp: st_insert_rows_def split: prod.splits)
  have s: "store_inv (fst h)" "tx_fits (abs_store (fst h)) tx" using inv Some by (simp_all add: handle_inv_def tx_inv_def)
  from tx_insert_effect [OF s e(1)] obtain k where "k \<le> length rows"
    "pending_rows tx' = (pending_rows tx)(n := pending_rows tx n @ take k rows)" "r = Ok () \<longrightarrow> k = length rows" by blast
  moreover have "tx_fits (abs_store (fst h)) tx'" using tx_insert_rows_fits [OF s e(1)] by simp
  ultimately show ?thesis using e(2) Some s(1)
    by (auto simp: handle_inv_def tx_inv_def handle_db_def add_pending_append intro!: exI [of _ k])
qed

section \<open>The rows of a statement\<close>

definition storable :: "column_schema list \<Rightarrow> row \<Rightarrow> bool" where
  "storable cols row \<longleftrightarrow> list_all2 (\<lambda>v c. has_type v (cs_type c) \<and> (v = VNull \<longrightarrow> cs_nullable c)) row cols"

lemma storable_typed: "storable cols row \<Longrightarrow> row_typed cols row"
  by (auto simp: storable_def row_typed_def list.rel_map elim: list_all2_mono)

lemma number_null_effect:
  assumes "handle_inv h" "number_null h n col v = (r, h')"
  shows "handle_inv h' \<and> handle_db h' = handle_db h \<and> snd h' = snd h"
proof (cases "v = VNull \<and> cs_auto_increment col")
  case True
  obtain r1 en' where e: "next_auto_increment (fst h) n = (r1, en')" by fastforce
  then have h': "h' = (en', snd h)" using assms(2) True
    by (auto simp: number_null_def st_next_auto_increment_def on_engine_def split: prod.splits)
  have "store_inv (fst h)" using assms(1) by (auto simp: handle_inv_def tx_inv_def split: option.splits)
  from next_auto_store [OF this e] assms(1) h' show ?thesis
    by (auto simp: handle_inv_def handle_db_def tx_inv_def split: option.splits)
qed (use assms in \<open>auto simp: number_null_def\<close>)

lemma number_null_typed:
  assumes "number_null h n col v = (Ok v', h')" "has_type v (cs_type col)" "cs_auto_increment col \<Longrightarrow> cs_type col = TInt"
  shows "has_type v' (cs_type col)"
  using assms by (auto simp: number_null_def result_simps split: if_splits prod.splits)

lemma insert_values_effect:
  assumes "handle_inv h" "insert_values h n ecs = (r, h')"
  shows "handle_inv h' \<and> handle_db h' = handle_db h \<and> snd h' = snd h"
  using assms
proof (induction ecs arbitrary: h r h')
  case (Cons ec rest)
  obtain e col where ec: "ec = (e, col)" by (cases ec)
  show ?case
  proof (cases "coerce e (cs_type col) (cs_name col)")
    case (Inl x)
    then show ?thesis using Cons.prems ec by simp
  next
    case (Inr v)
    obtain r1 h1 where 1: "number_null h n col v = (r1, h1)" by (cases "number_null h n col v")
    note n = number_null_effect [OF Cons.prems(1) 1]
    obtain r2 h2 where r: "insert_values h1 n rest = (r2, h2)" by (cases "insert_values h1 n rest")
    note IH = Cons.IH [OF conjunct1 [OF n] r]
    have "h' = h1 \<or> h' = h2"
      using Cons.prems(2) ec Inr 1 r by (auto split: sum.splits if_splits)
    with n IH show ?thesis by auto
  qed
qed simp

lemma insert_values_storable:
  assumes "insert_values h n (zip es cols) = (Ok row, h')" "length es = length cols"
    and "\<forall>c \<in> set cols. cs_auto_increment c \<longrightarrow> cs_type c = TInt"
  shows "storable cols row"
  using assms
proof (induction es arbitrary: cols h row h')
  case (Cons e es)
  then obtain col cols' where c: "cols = col # cols'" by (cases cols) auto
  obtain v where v: "coerce e (cs_type col) (cs_name col) = Ok v" using Cons.prems(1) c by (auto split: sum.splits)
  obtain r1 h1 where 1: "number_null h n col v = (r1, h1)" by (cases "number_null h n col v")
  obtain v' where v': "r1 = Ok v'" "v' = VNull \<longrightarrow> cs_nullable col"
    using Cons.prems(1) c v 1 by (auto split: sum.splits if_splits)
  obtain r2 h2 where 2: "insert_values h1 n (zip es cols') = (r2, h2)" by (meson surj_pair)
  obtain row' where row: "r2 = Ok row'" "row = v' # row'"
    using Cons.prems(1) c v 1 v' 2 by (auto simp: result_simps split: if_splits)
  have "has_type v' (cs_type col)"
    using number_null_typed [OF 1 [unfolded v'(1)] coerce_has_type [OF v]] Cons.prems(3) c by simp
  moreover have "storable cols' row'" using Cons.IH [of h1 cols' row' h2] 2 row Cons.prems c by simp
  ultimately show ?case using c row v' by (simp add: storable_def)
qed (simp add: storable_def)

lemma insert_batch_effect:
  assumes "handle_inv h" "insert_batch h n schema columns rows = (r, h')"
  shows "handle_inv h' \<and> handle_db h' = handle_db h \<and> snd h' = snd h"
  using assms
proof (induction rows arbitrary: h r h')
  case (Cons row rows)
  show ?case
  proof (cases "ordered_exprs n schema columns row")
    case (Inl x)
    then show ?thesis using Cons.prems by simp
  next
    case (Inr es)
    obtain r1 h1 where 1: "insert_values h n (zip es (ts_columns schema)) = (r1, h1)"
      by (cases "insert_values h n (zip es (ts_columns schema))")
    note i = insert_values_effect [OF Cons.prems(1) 1]
    obtain r2 h2 where 2: "insert_batch h1 n schema columns rows = (r2, h2)"
      by (cases "insert_batch h1 n schema columns rows")
    note IH = Cons.IH [OF conjunct1 [OF i] 2]
    have "h' = h1 \<or> h' = h2" using Cons.prems(2) Inr 1 2 by (auto split: sum.splits)
    with i IH show ?thesis by auto
  qed
qed simp

lemma insert_batch_storable:
  assumes "insert_batch h n schema columns rows = (Ok batch, h')"
    and "\<forall>c \<in> set (ts_columns schema). cs_auto_increment c \<longrightarrow> cs_type c = TInt"
  shows "\<exists>rs. batch = map (\<lambda>row. (n, row)) rs \<and> length rs = length rows \<and> (\<forall>row \<in> set rs. storable (ts_columns schema) row)"
  using assms(1)
proof (induction rows arbitrary: h batch h')
  case (Cons row rows)
  obtain es where es: "ordered_exprs n schema columns row = Ok es" using Cons.prems by (auto split: sum.splits)
  then have l: "length es = length (ts_columns schema)" by (auto simp: ordered_exprs_def result_simps split: if_splits)
  obtain r1 h1 where 1: "insert_values h n (zip es (ts_columns schema)) = (r1, h1)"
    by (cases "insert_values h n (zip es (ts_columns schema))")
  obtain v where v: "r1 = Ok v" using Cons.prems es 1 by (auto split: sum.splits)
  obtain r2 h2 where 2: "insert_batch h1 n schema columns rows = (r2, h2)"
    by (cases "insert_batch h1 n schema columns rows")
  obtain b where b: "r2 = Ok b" "batch = (n, v) # b" using Cons.prems es 1 v 2 by (auto simp: result_simps)
  have "storable (ts_columns schema) v" by (rule insert_values_storable [OF 1 [unfolded v] l assms(2)])
  with Cons.IH [OF 2 [unfolded b(1)]] b(2) show ?case
    by (metis (no_types, lifting) length_Cons list.set_intros(1) list.simps(9) set_ConsD)
qed simp

lemma db_typed_append:
  assumes "db_typed db" "\<And>s old. db n = Some (s, old) \<Longrightarrow> \<forall>row \<in> set rows. row_typed (ts_columns s) row"
  shows "db_typed (append_rows db n rows)"
  using assms unfolding db_typed_def append_rows_def by (auto split: if_splits)

section \<open>Properties of INSERT\<close>



end
