(* ===== verification/Result_Logic.thy ===== *)
theory Result_Logic
  imports Rust_Prelude
begin

text \<open>
  A small logic of results: \<open>safe P r\<close> says that \<open>r\<close> is a value satisfying \<open>P\<close> or an ordinary
  error, never a panic.  One rule for each way the model composes results.
\<close>

definition is_err :: "exn \<Rightarrow> bool" where
  "is_err x \<longleftrightarrow> (\<exists>e. x = Err e)"

named_theorems err_simps "errors that are not panics"

lemma is_err_Err [simp, err_simps]: "is_err (Err e)"
  by (simp add: is_err_def)

definition safe :: "('a \<Rightarrow> bool) \<Rightarrow> 'a result \<Rightarrow> bool" where
  "safe P r \<longleftrightarrow> (case r of Inl x \<Rightarrow> is_err x | Inr v \<Rightarrow> P v)"

lemma safe_simps [simp]: "safe P (Inr v) = P v" "safe P (Inl x) = is_err x"
  by (simp_all add: safe_def)

lemma safe_mono: "safe Q r \<Longrightarrow> (\<And>v. Q v \<Longrightarrow> P v) \<Longrightarrow> safe P r"
  by (cases r) auto

lemma safe_not_panic: "safe P r \<Longrightarrow> \<not> is_panic r"
  by (cases r) (auto simp: is_panic_def is_err_def)

lemma safe_bind: "safe Q m \<Longrightarrow> (\<And>x. m = Ok x \<Longrightarrow> Q x \<Longrightarrow> safe P (f x)) \<Longrightarrow> safe P (bindR m f)"
  by (cases m) auto

lemma safe_map: "safe (\<lambda>x. P (f x)) m \<Longrightarrow> safe P (map_result f m)"
  by (cases m) auto

lemma safe_ok_or: "is_err e \<Longrightarrow> (\<And>x. m = Some x \<Longrightarrow> P x) \<Longrightarrow> safe P (ok_or e m)"
  by (cases m) auto

lemma safe_index: "i < length xs \<Longrightarrow> P (xs ! i) \<Longrightarrow> safe P (index_at xs i)"
  by simp

lemma safe_mapR: "(\<And>x. x \<in> set xs \<Longrightarrow> safe (Q x) (f x)) \<Longrightarrow> safe (list_all2 Q xs) (mapR f xs)"
proof (induction xs)
  case (Cons x xs)
  have "safe (list_all2 Q xs) (mapR f xs)" "safe (Q x) (f x)" using Cons by simp_all
  then show ?case by (cases "f x"; cases "mapR f xs") auto
qed simp

lemma safe_foldR:
  "I s \<Longrightarrow> (\<And>s x. x \<in> set xs \<Longrightarrow> I s \<Longrightarrow> safe I (f s x)) \<Longrightarrow> safe I (foldR f s xs)"
proof (induction xs arbitrary: s)
  case (Cons x xs)
  have "safe I (f s x)" using Cons.prems by simp
  then show ?case using Cons by (cases "f s x") auto
qed simp

lemma safe_True: "safe (\<lambda>_. True) r \<longleftrightarrow> \<not> is_panic r"
proof (cases r)
  case (Inl x)
  then show ?thesis by (cases x) (auto simp: is_panic_def is_err_def)
qed (simp add: is_panic_def)

text \<open>Rules that follow the syntax; the collection \<open>safe_intros\<close> decomposes a definition.\<close>

named_theorems safe_intros "syntax-directed rules for safe"

lemma safe_bindT [safe_intros]: "safe (\<lambda>_. True) m \<Longrightarrow> (\<And>x. m = Ok x \<Longrightarrow> safe P (f x)) \<Longrightarrow> safe P (bindR m f)"
  by (rule safe_bind)

lemma safe_if [safe_intros]: "(b \<Longrightarrow> safe P x) \<Longrightarrow> (\<not> b \<Longrightarrow> safe P y) \<Longrightarrow> safe P (if b then x else y)"
  by simp

lemma safe_case_prod [safe_intros]: "(\<And>a b. x = (a, b) \<Longrightarrow> safe P (f a b)) \<Longrightarrow> safe P (case x of (a, b) \<Rightarrow> f a b)"
  by (cases x) simp

lemma safe_case_option [safe_intros]:
  "(m = None \<Longrightarrow> safe P x) \<Longrightarrow> (\<And>a. m = Some a \<Longrightarrow> safe P (f a)) \<Longrightarrow> safe P (case m of None \<Rightarrow> x | Some a \<Rightarrow> f a)"
  by (cases m) simp_all

lemma safe_Inr [safe_intros]: "P v \<Longrightarrow> safe P (Inr v)"
  by simp

lemma safe_Inl [safe_intros]: "is_err x \<Longrightarrow> safe P (Inl x)"
  by simp

lemmas safe_rules [safe_intros] = safe_map safe_ok_or

end
