(* ===== verification/Exec_Types.thy ===== *)
theory Exec_Types
  imports Exec_Insert Result_Logic
begin

text \<open>
  Types of query results.  On a store whose rows have the types of their columns, a \<^verbatim>\<open>SELECT\<close>
  never panics, and the rows it returns have the types of the columns it reports.
\<close>

lemmas exec_errors [err_simps] =
  err_decimal_range_def err_decimal_value_def err_date_value_def err_integer_value_def err_date_literal_def
  err_literal_required_def err_unbound_def err_unknown_column_def err_unknown_qualified_def err_ambiguous_def
  err_join_on_def err_star_combined_def err_literal_with_from_def err_aggregate_arg_def err_numeric_def
  err_argument_def err_out_of_range_def err_group_column_def err_group_item_def err_group_star_def
  err_star_without_from_def err_field_list_column_def err_no_table_def err_pk_undefined_def

section \<open>Literals\<close>

lemma rescale_safe: "safe (\<lambda>_. True) (rescale_decimal u a b c)"
  unfolding rescale_decimal_def Let_def by (intro safe_intros) (simp_all add: err_simps)

lemma parse_decimal_safe: "safe (\<lambda>_. True) (parse_decimal_literal s c)"
  unfolding parse_decimal_literal_def Let_def by (intro safe_intros) (simp_all add: err_simps)

lemma parse_date_safe: "safe (\<lambda>_. True) (parse_date_literal s c)"
  unfolding parse_date_literal_def Let_def by (intro safe_intros) (simp_all add: err_simps)

lemma coerce_safe: "safe (\<lambda>v. has_type v T) (coerce e T c)"
proof -
  have "safe (\<lambda>_. True) (coerce e T c)"
    by (cases e; cases T; simp only: coerce.simps; intro safe_intros rescale_safe parse_decimal_safe parse_date_safe)
      (simp_all add: err_simps)
  then show ?thesis using coerce_has_type [of e T c] by (cases "coerce e T c") simp_all
qed

section \<open>FROM and WHERE\<close>

lemma resolve_safe: "safe (\<lambda>i. i < length (sc_columns sc)) (resolve sc r)"
proof -
  have "safe (\<lambda>_. True) (resolve sc r)"
    unfolding resolve_def by (intro safe_intros) (auto simp: err_simps split: option.split)
  then show ?thesis using resolve_less [of sc r] by (cases "resolve sc r") simp_all
qed

definition typed_rows :: "column_schema list \<Rightarrow> row list \<Rightarrow> bool" where
  "typed_rows cols rows \<longleftrightarrow> (\<forall>row \<in> set rows. row_typed cols row)"

lemma typed_rows_subset: "typed_rows cols rows \<Longrightarrow> set rs \<subseteq> set rows \<Longrightarrow> typed_rows cols rs"
  by (auto simp: typed_rows_def)

abbreviation view_ok :: "handle \<Rightarrow> bool" where
  "view_ok h \<equiv> handle_inv h \<and> db_typed (handle_db h)"

lemma schema_safe: "safe (\<lambda>_. True) (st_table_schema h n)"
  unfolding st_table_schema_def get_table_schema_def by (intro safe_intros) (simp_all add: err_simps)

lemma scan_ok:
  assumes "view_ok h" "st_table_schema h n = Ok s"
  obtains rows where "st_scan h n = Ok rows" "typed_rows (ts_columns s) rows"
  using handle_view.rows_total [OF assms] handle_view.rows_typed [OF assms] unfolding typed_rows_def by blast

lemma scan_and_filter_safe:
  assumes ok: "view_ok h" and s: "st_table_schema h n = Ok schema"
  shows "safe (typed_rows (ts_columns schema)) (scan_and_filter h n q schema selection)"
proof (cases selection)
  case None
  obtain rows where "st_scan h n = Ok rows" "typed_rows (ts_columns schema) rows" by (rule scan_ok [OF assms])
  with None show ?thesis by (simp add: scan_and_filter_def)
next
  case (Some cond)
  obtain rows where rows: "st_scan h n = Ok rows" "typed_rows (ts_columns schema) rows" by (rule scan_ok [OF assms])
  have "safe (\<lambda>_. True) (resolve_single_table_column (ts_columns schema) q (cn_column cond))"
    unfolding resolve_single_table_column_def column_index_def by (intro safe_intros) (simp_all add: err_simps)
  moreover have "safe (typed_rows (ts_columns schema)) (bindR (index_at (ts_columns schema) i) (\<lambda>column.
      bindR (coerce (cn_value cond) (cs_type column) (cr_column (cn_column cond))) (\<lambda>expected.
        if cn_op cond = CEq \<and> ts_primary_key schema = Some (cs_name column)
        then map_result (\<lambda>m. case m of None \<Rightarrow> [] | Some row \<Rightarrow> [row]) (st_lookup h n expected)
        else st_scan_filtered h n (\<lambda>row. compare_values (row ! i) (cn_op cond) expected))))"
    if i: "resolve_single_table_column (ts_columns schema) q (cn_column cond) = Ok i" for i
  proof -
    have p: "position (\<lambda>x. cs_name x = cr_column (cn_column cond)) (ts_columns schema) = Some i"
      using i by (rule resolve_single_Ok)
    then have il: "i < length (ts_columns schema)" "cs_name (ts_columns schema ! i) = cr_column (cn_column cond)"
      by (auto dest: position_SomeD)
    have "safe (typed_rows (ts_columns schema)) (map_result (\<lambda>m. case m of None \<Rightarrow> [] | Some row \<Rightarrow> [row]) (st_lookup h n k))"
      if "ts_primary_key schema = Some (cs_name (ts_columns schema ! i))" for k
    proof -
      have "schema_pk schema = Some i" using p il(2) that by (simp add: schema_pk_def pk_position_def)
      from handle_view.key_lookup_filter [OF ok s this, of k] handle_view.filtered_rows [OF ok] rows show ?thesis
        by (simp add: typed_rows_def)
    qed
    moreover have "safe (typed_rows (ts_columns schema)) (st_scan_filtered h n P)" for P
      using handle_view.filtered_rows [OF ok, of n P] rows by (simp add: typed_rows_def)
    ultimately show ?thesis using il(1)
      by (auto intro!: safe_bind [OF coerce_safe])
  qed
  ultimately show ?thesis unfolding scan_and_filter_def Some option.case by (rule safe_bindT)
qed

lemma row_typed_append: "row_typed xs a \<Longrightarrow> row_typed ys b \<Longrightarrow> row_typed (xs @ ys) (a @ b)"
  by (simp add: row_typed_def list_all2_appendI)

lemma row_typed_nulls: "row_typed cols (replicate (length cols) VNull)"
  by (simp add: row_typed_nth)

lemma hash_join_typed:
  assumes "typed_rows lc ls" "typed_rows rc rs"
  shows "typed_rows (lc @ rc) (hash_join ls li rs ri (length rc) jt)"
  using assms row_typed_append row_typed_nulls
  by (auto simp: typed_rows_def hash_join_nested nested_join_def Let_def split: if_splits)

lemma join_step_safe:
  assumes "view_ok h" "typed_rows (sc_columns sc) rows"
  shows "safe (\<lambda>(sc', rows'). typed_rows (sc_columns sc') rows') (join_step h (sc, rows) join)"
proof -
  have "safe (\<lambda>(sc', rows'). typed_rows (sc_columns sc') rows') (bindR (st_scan h (tr_name (jc_table join))) (\<lambda>new_rows.
      Ok (push_table sc (qualifier (jc_table join)) (ts_columns s),
          hash_join rows a new_rows b (length (ts_columns s)) (jc_type join))))"
    if s: "st_table_schema h (tr_name (jc_table join)) = Ok s" for s a b
  proof -
    obtain new where "st_scan h (tr_name (jc_table join)) = Ok new" "typed_rows (ts_columns s) new"
      by (rule scan_ok [OF assms(1) s])
    with hash_join_typed [OF assms(2), of "ts_columns s" new] show ?thesis by (simp add: push_table_def)
  qed
  moreover have "safe (\<lambda>_. True) (join_columns sc t join)" for t
    unfolding join_columns_def by (auto simp: err_simps split: option.split)
  ultimately show ?thesis unfolding join_step_def Let_def prod.case
    by (intro safe_bindT [OF schema_safe]; intro safe_bindT) (auto split: prod.split)
qed

lemma resolve_from_safe:
  assumes ok: "view_ok h"
  shows "safe (\<lambda>(sc, rows). typed_rows (sc_columns sc) rows) (resolve_from h frm selection)"
proof (cases "fc_joins frm = []")
  case True
  have "safe (\<lambda>(sc, rows). typed_rows (sc_columns sc) rows)
      (bindR (scan_and_filter h (tr_name (fc_table frm)) (qualifier (fc_table frm)) s selection)
        (\<lambda>rows. Ok (scope_single (qualifier (fc_table frm)) (ts_columns s), rows)))"
    if "st_table_schema h (tr_name (fc_table frm)) = Ok s" for s
    by (rule safe_bind [OF scan_and_filter_safe [OF ok that]]) (simp add: scope_single_def)
  with True show ?thesis unfolding resolve_from_def by (simp add: safe_bindT [OF schema_safe])
next
  case False
  have j: "safe (\<lambda>(sc, rows). typed_rows (sc_columns sc) rows) (resolve_joins h frm)"
  proof -
    have "safe (\<lambda>(sc, rows). typed_rows (sc_columns sc) rows) (bindR (st_scan h (tr_name (fc_table frm))) (\<lambda>rows.
        foldR (join_step h) (scope_single (qualifier (fc_table frm)) (ts_columns s), rows) (fc_joins frm)))"
      if s: "st_table_schema h (tr_name (fc_table frm)) = Ok s" for s
    proof -
      obtain rows where "st_scan h (tr_name (fc_table frm)) = Ok rows" "typed_rows (ts_columns s) rows"
        by (rule scan_ok [OF ok s])
      then show ?thesis using join_step_safe [OF ok]
        by (auto intro!: safe_foldR simp: scope_single_def)
    qed
    then show ?thesis unfolding resolve_joins_def by (simp add: safe_bindT [OF schema_safe])
  qed
  have w: "safe (typed_rows (sc_columns sc)) (apply_where rows sc selection)" if t: "typed_rows (sc_columns sc) rows" for sc rows
  proof (cases selection)
    case (Some cond)
    show ?thesis unfolding apply_where_def Some option.case
    proof (rule safe_bind [OF resolve_safe])
      fix idx assume "idx < length (sc_columns sc)"
      then show "safe (typed_rows (sc_columns sc)) (bindR (index_at (sc_columns sc) idx) (\<lambda>column.
          bindR (coerce (cn_value cond) (cs_type column) (cr_column (cn_column cond))) (\<lambda>expected.
          Ok (filter (\<lambda>row. compare_values (row ! idx) (cn_op cond) expected) rows))))"
        using t by (auto intro!: safe_bind [OF coerce_safe] simp: typed_rows_def)
    qed
  qed (use t in \<open>simp add: apply_where_def\<close>)
  show ?thesis using False unfolding resolve_from_def
    by (auto intro!: safe_bind [OF j] safe_bind [OF w])
qed

section \<open>Projection\<close>

definition selector_ok :: "selector \<Rightarrow> bool" where
  "selector_ok sel \<longleftrightarrow> (\<forall>cmp k rows. set (sel cmp k rows) \<subseteq> set rows)"

lemma sort_and_paginate_subset:
  assumes "selector_ok sel"
  shows "set (sort_and_paginate sel rows keys limit offset) \<subseteq> set rows"
proof -
  have "x \<in> set rows" if "x \<in> set (sel cmp j rows)" for x cmp j
    using assms that by (auto simp: selector_ok_def)
  then show ?thesis
    by (auto simp: sort_and_paginate_def Let_def dest!: in_set_takeD in_set_dropD split: if_splits)
qed

definition result_typed :: "query_result \<Rightarrow> bool" where
  "result_typed res \<longleftrightarrow> typed_rows (qr_columns res) (qr_rows res)"

lemma resolve_projection_safe: "safe (\<lambda>is. \<forall>i \<in> set is. i < length (sc_columns sc)) (resolve_projection sc projection)"
proof -
  have "safe (\<lambda>i. i < length (sc_columns sc)) (resolve_item sc item)" for item
    unfolding resolve_item_def using resolve_safe [of sc] by (auto simp: err_simps split: select_item.split expr.split)
  then have "safe (list_all2 (\<lambda>_ i. i < length (sc_columns sc)) projection) (mapR (resolve_item sc) projection)"
    by (rule safe_mapR)
  then have "safe (\<lambda>is. \<forall>i \<in> set is. i < length (sc_columns sc)) (mapR (resolve_item sc) projection)"
    by (rule safe_mono) (auto simp: list_all2_conv_all_nth in_set_conv_nth)
  then show ?thesis by (auto simp: resolve_projection_def)
qed

lemma row_typed_project:
  "row_typed cols row \<Longrightarrow> \<forall>i \<in> set is. i < length cols \<Longrightarrow> row_typed (map (\<lambda>i. cols ! i) is) (map (\<lambda>i. row ! i) is)"
  by (auto simp: row_typed_nth)

lemma execute_projected_safe:
  assumes "selector_ok sel" "typed_rows (sc_columns sc) rows"
  shows "safe result_typed (execute_projected sel sc rows projection order_by limit offset)"
proof -
  have "safe (\<lambda>_. True) (mapR (\<lambda>item. map_result (\<lambda>i. (i, ob_descending item)) (resolve sc (ob_column item))) order_by)"
    by (rule safe_mono [OF safe_mapR [where Q = "\<lambda>_ _. True"]]) (auto intro!: safe_map safe_mono [OF resolve_safe])
  moreover have "typed_rows (map (\<lambda>i. sc_columns sc ! i) is) (map (\<lambda>row. map (\<lambda>i. row ! i) is) (sort_and_paginate sel rows keys limit offset))"
    if "\<forall>i \<in> set is. i < length (sc_columns sc)" for "is" keys
    using sort_and_paginate_subset [OF assms(1), of rows keys limit offset] assms(2) row_typed_project [OF _ that]
    by (auto simp: typed_rows_def)
  ultimately show ?thesis unfolding execute_projected_def Let_def
    by (auto intro!: safe_bind [OF resolve_projection_safe] safe_bindT simp: result_typed_def)
qed

section \<open>Aggregates\<close>

definition groups_ok :: "(groups \<Rightarrow> value list list) \<Rightarrow> bool" where
  "groups_ok gord \<longleftrightarrow> (\<forall>g. set (gord g) \<subseteq> dom g)"

definition arg_ok :: "column_schema list \<Rightarrow> (nat \<times> column_type) option \<Rightarrow> bool" where
  "arg_ok cols arg \<longleftrightarrow> (case arg of None \<Rightarrow> True | Some (idx, t) \<Rightarrow> idx < length cols \<and> t = cs_type (cols ! idx))"

definition plan_ok :: "column_schema list \<Rightarrow> nat list \<Rightarrow> resolved_aggregate_item \<Rightarrow> column_type \<Rightarrow> bool" where
  "plan_ok cols idxs item t \<longleftrightarrow>
     (case item of
        GroupColumn pos \<Rightarrow> pos < length idxs \<and> idxs ! pos < length cols \<and> t = cs_type (cols ! (idxs ! pos))
      | Aggregate name arg \<Rightarrow>
          is_aggregate_function_name name \<and> arg_ok cols arg \<and> aggregate_result_type name (map_option snd arg) = Ok t)"

lemma sum_rows_safe: "(\<And>z. has_type (mk z) t) \<Longrightarrow> safe (\<lambda>v. has_type v t) (sum_rows num idx mk rows)"
  by (simp add: sum_rows_eq Let_def err_simps)

lemma avg_rows_safe: "safe (\<lambda>v. has_type v (TDecimal (avg_scale_of s))) (avg_rows idx s rows)"
  unfolding avg_rows_def Let_def sum_fold
  by (intro safe_intros) (simp_all add: err_simps)

lemma best_safe:
  assumes "\<forall>r \<in> set rows. has_type (r ! idx) T"
  shows "has_type (case fold (best_step wm idx) rows None of Some v \<Rightarrow> v | None \<Rightarrow> VNull) T"
proof (cases "column_values idx rows = []")
  case False
  from best_fold [OF assms this, of wm] assms show ?thesis by (auto simp: column_values_def)
qed (simp add: best_fold_None)

lemma evaluate_aggregate_safe:
  assumes rows: "typed_rows cols rows" and "is_aggregate_function_name name" "arg_ok cols arg"
    and ty: "aggregate_result_type name (map_option snd arg) = Ok t"
  shows "safe (\<lambda>v. has_type v t) (evaluate_aggregate name arg rows)"
proof -
  have c: "\<forall>r \<in> set rows. has_type (r ! idx) (cs_type (cols ! idx))" if "idx < length cols" for idx
    using rows that by (auto simp: typed_rows_def row_typed_nth)
  have a0: "avg_scale_of 0 = 4" by code_simp
  consider "to_ascii_uppercase name = ''COUNT''" | "to_ascii_uppercase name = ''SUM''" | "to_ascii_uppercase name = ''AVG''"
    | "to_ascii_uppercase name = ''MIN'' \<or> to_ascii_uppercase name = ''MAX''"
    using assms(2) by (auto simp: is_aggregate_function_name_def)
  then show ?thesis
  proof cases
    case 1
    then show ?thesis using ty by (auto simp: evaluate_aggregate_def aggregate_result_type_def)
  next
    case 2
    then show ?thesis using ty
      by (cases arg) (auto simp: evaluate_aggregate_def aggregate_result_type_def err_simps intro!: sum_rows_safe
        split: column_type.splits)
  next
    case 3
    then show ?thesis using ty avg_rows_safe [of 0, unfolded a0] avg_rows_safe
      by (cases arg) (auto simp: evaluate_aggregate_def aggregate_result_type_def err_simps split: column_type.splits)
  next
    case 4
    then show ?thesis using ty assms(3) best_safe [OF c]
      by (cases arg) (auto simp: evaluate_aggregate_def aggregate_result_type_def arg_ok_def err_simps)
  qed
qed

lemma aggregate_result_type_safe:
  "is_aggregate_function_name name \<Longrightarrow> safe (\<lambda>t. True) (aggregate_result_type name arg)"
  by (auto simp: aggregate_result_type_def is_aggregate_function_name_def Let_def err_simps ok_or_def
      split: option.splits column_type.splits)

lemma resolve_aggregate_arg_safe: "safe (arg_ok (sc_columns sc)) (resolve_aggregate_arg args sc)"
proof -
  have c: "safe (arg_ok (sc_columns sc)) (bindR (resolve sc r) (\<lambda>idx.
      bindR (index_at (sc_columns sc) idx) (\<lambda>c. Ok (Some (idx, cs_type c)))))" for r
    by (rule safe_bind [OF resolve_safe]) (simp add: arg_ok_def)
  show ?thesis unfolding resolve_aggregate_arg_def
    using c by (auto simp: arg_ok_def err_simps split: list.split expr.split)
qed

lemma plan_expr_safe: "safe (\<lambda>(item, _, t). plan_ok (sc_columns sc) idxs item t) (plan_expr sc idxs e)"
proof (cases "\<exists>r. e = EColumn r")
  case True
  then obtain r where e: "e = EColumn r" by blast
  show ?thesis unfolding e plan_expr_def expr.case
    by (rule safe_bind [OF resolve_safe])
      (auto intro!: safe_bindT safe_ok_or simp: err_simps plan_ok_def dest!: position_SomeD ok_or_Ok_iff [THEN iffD1])
next
  case False
  show ?thesis
  proof (cases "\<exists>name args. e = EFunction name args \<and> is_aggregate_function_name name")
    case True
    then obtain name args where e: "e = EFunction name args" and a: "is_aggregate_function_name name" by blast
    have n: "safe (\<lambda>_. True) (case arg of None \<Rightarrow> Ok (name @ ''(*)'')
        | Some (idx, _) \<Rightarrow> map_result (\<lambda>c. name @ ''('' @ cs_name c @ '')'') (index_at (sc_columns sc) idx))"
      if "arg_ok (sc_columns sc) arg" for arg
      using that by (auto simp: arg_ok_def split: option.splits)
    show ?thesis unfolding e plan_expr_def expr.case using a
      by (simp, intro safe_bind [OF resolve_aggregate_arg_safe] safe_bindT [OF aggregate_result_type_safe [OF a]])
        (auto intro!: safe_bindT n simp: plan_ok_def)
  next
    case f: False
    then show ?thesis using False by (cases e) (auto simp: plan_expr_def err_simps)
  qed
qed

lemma plan_item_safe:
  "item \<noteq> Wildcard \<Longrightarrow> safe (\<lambda>(p, c). plan_ok (sc_columns sc) idxs p (cs_type c)) (plan_item sc idxs item)"
  unfolding plan_item_def
  by (cases item) (auto intro!: safe_bind [OF plan_expr_safe])

lemma group_row_safe:
  assumes rows: "typed_rows cols matching" and idxs: "\<forall>i \<in> set idxs. i < length cols"
    and key: "key \<in> dom (group_rows idxs matching)"
    and plan: "list_all2 (\<lambda>p t. plan_ok cols idxs p t) resolved ts"
  shows "safe (\<lambda>row. list_all2 has_type row ts) (group_row (group_rows idxs matching) resolved key)"
proof -
  obtain rs where rs: "group_rows idxs matching key = Some rs" using key by blast
  have sub: "set rs \<subseteq> set matching" and k: "\<forall>pos < length idxs. has_type (key ! pos) (cs_type (cols ! (idxs ! pos))) \<and> pos < length key"
  proof -
    show "set rs \<subseteq> set matching" using rs
      by (cases "idxs = []") (simp_all add: group_rows_eq Let_def split: if_splits, auto simp: group_rows_def split: if_splits)
    show "\<forall>pos < length idxs. has_type (key ! pos) (cs_type (cols ! (idxs ! pos))) \<and> pos < length key"
    proof (cases "idxs = []")
      case False
      then obtain r where "r \<in> set matching" "key = key_of idxs r"
        using rs by (auto simp: group_rows_eq Let_def filter_empty_conv split: if_splits)
      then show ?thesis using rows idxs by (auto simp: typed_rows_def row_typed_nth)
    qed simp
  qed
  have item: "safe (\<lambda>v. has_type v t) (group_item key rs p)" if "plan_ok cols idxs p t" for p t
    using that k evaluate_aggregate_safe [OF typed_rows_subset [OF rows sub]]
    by (auto simp: group_item_def plan_ok_def split: resolved_aggregate_item.splits)
  have "safe (list_all2 (\<lambda>p v. \<forall>t. plan_ok cols idxs p t \<longrightarrow> has_type v t) resolved) (mapR (group_item key rs) resolved)"
  proof (rule safe_mapR)
    fix p assume "p \<in> set resolved"
    then obtain t where t: "plan_ok cols idxs p t" using plan by (auto simp: list_all2_conv_all_nth in_set_conv_nth)
    have "t' = t" if "plan_ok cols idxs p t'" for t'
      using that t by (auto simp: plan_ok_def split: resolved_aggregate_item.splits)
    with item [OF t] show "safe (\<lambda>v. \<forall>t. plan_ok cols idxs p t \<longrightarrow> has_type v t) (group_item key rs p)"
      by (auto elim: safe_mono)
  qed
  then show ?thesis unfolding group_row_def rs option.case
    by (rule safe_mono) (use plan in \<open>auto simp: list_all2_conv_all_nth\<close>)
qed

lemma execute_aggregate_safe:
  assumes sel: "selector_ok sel" and gord: "groups_ok gord" and rows: "typed_rows (sc_columns sc) rows"
  shows "safe result_typed (execute_aggregate gord sel sc rows projection group_by order_by limit offset)"
proof -
  have "safe (\<lambda>idxs. \<forall>i \<in> set idxs. i < length (sc_columns sc)) (mapR (resolve sc) group_by)"
    by (rule safe_mono [OF safe_mapR [OF resolve_safe]]) (auto simp: list_all2_conv_all_nth in_set_conv_nth)
  moreover have "safe result_typed (bindR (mapR (plan_item sc idxs) projection) (\<lambda>plan.
      bindR (mapR (group_row (group_rows idxs rows) (map fst plan)) (sort_by key_compare (gord (group_rows idxs rows)))) (\<lambda>out.
      bindR (mapR (output_sort_key (map snd plan)) order_by) (\<lambda>keys.
      Ok \<lparr>qr_columns = map snd plan, qr_rows = sort_and_paginate sel out keys limit offset, qr_rows_affected = 0\<rparr>))))"
    if idxs: "\<forall>i \<in> set idxs. i < length (sc_columns sc)" and w: "Wildcard \<notin> set projection" for idxs
  proof (rule safe_bind [OF safe_mapR [OF plan_item_safe]])
    fix item assume "item \<in> set projection"
    then show "item \<noteq> Wildcard" using w by blast
  next
    fix plan :: "(resolved_aggregate_item \<times> column_schema) list"
    assume "list_all2 (\<lambda>_ (p, c). plan_ok (sc_columns sc) idxs p (cs_type c)) projection plan"
    then have plan: "list_all2 (\<lambda>p t. plan_ok (sc_columns sc) idxs p t) (map fst plan) (map (\<lambda>x. cs_type (snd x)) plan)"
      by (auto simp: list_all2_conv_all_nth case_prod_unfold)
    have "set (gord (group_rows idxs rows)) \<subseteq> dom (group_rows idxs rows)" using gord unfolding groups_ok_def by blast
    then have "safe (list_all2 (\<lambda>_ row. list_all2 has_type row (map (\<lambda>x. cs_type (snd x)) plan)) (sort_by key_compare (gord (group_rows idxs rows))))
        (mapR (group_row (group_rows idxs rows) (map fst plan)) (sort_by key_compare (gord (group_rows idxs rows))))"
      by (intro safe_mapR group_row_safe [OF rows idxs _ plan]) auto
    then have "safe (typed_rows (map snd plan))
        (mapR (group_row (group_rows idxs rows) (map fst plan)) (sort_by key_compare (gord (group_rows idxs rows))))"
      by (rule safe_mono) (auto simp: typed_rows_def row_typed_def comp_def list_all2_conv_all_nth [of _ "sort_by _ _"] in_set_conv_nth)
    moreover have "safe (\<lambda>_. True) (mapR (output_sort_key (map snd plan)) order_by)"
      by (rule safe_mono [OF safe_mapR [where Q = "\<lambda>_ _. True"]]) (auto intro!: safe_map safe_ok_or simp: output_sort_key_def err_simps)
    ultimately show "safe result_typed (bindR
        (mapR (group_row (group_rows idxs rows) (map fst plan)) (sort_by key_compare (gord (group_rows idxs rows)))) (\<lambda>out.
        bindR (mapR (output_sort_key (map snd plan)) order_by) (\<lambda>keys.
        Ok \<lparr>qr_columns = map snd plan, qr_rows = sort_and_paginate sel out keys limit offset, qr_rows_affected = 0\<rparr>)))"
      using typed_rows_subset [OF _ sort_and_paginate_subset [OF sel]]
      by (auto elim!: safe_bind intro: safe_bindT simp: result_typed_def)
  qed
  ultimately show ?thesis unfolding execute_aggregate_def Let_def
    by (auto elim!: safe_bind intro!: safe_if simp: list_ex_iff err_simps)
qed

section \<open>Properties of query results\<close>

lemma select_without_table_safe: "safe result_typed (select_without_table vars projection limit offset)"
proof -
  have t: "has_type v (literal_type v)" for v by (cases v) (simp_all add: literal_type_def)
  have l: "safe (\<lambda>(c, v). has_type v (cs_type c)) (literal_item vars item)" for item
    unfolding literal_item_def literal_value_def
    by (auto simp: t err_simps split: select_item.split expr.split)
  show ?thesis unfolding select_without_table_def Let_def
    by (rule safe_bind [OF safe_mapR [OF l]])
      (auto simp: result_typed_def typed_rows_def row_typed_def list_all2_conv_all_nth case_prod_unfold)
qed

lemma execute_select_safe:
  assumes "view_ok h" "selector_ok (od_select od)" "groups_ok (od_groups od)"
  shows "safe result_typed (execute_select od vars h sel)"
proof (cases "sl_from sel")
  case None
  then show ?thesis by (simp add: execute_select_def select_without_table_safe)
next
  case (Some frm)
  show ?thesis unfolding execute_select_def Some option.case
    by (rule safe_bind [OF resolve_from_safe [OF assms(1)]])
      (auto intro: execute_aggregate_safe [OF assms(2,3)] execute_projected_safe [OF assms(2)])
qed

definition demo_orders :: orders where
  "demo_orders = \<lparr>od_tables = sorted_keys, od_databases = sorted_names,
     od_groups = (\<lambda>g. if g [] = None then [] else [[]]), od_select = (\<lambda>cmp k xs. sort_by cmp xs)\<rparr>"

definition demo_vars :: system_variables where
  "demo_vars = \<lparr>sv_version = ''8.0'', sv_max_allowed_packet = 1024, sv_wait_timeout = 60\<rparr>"

definition demo_select :: select_stmt where
  "demo_select = \<lparr>sl_projection = [ItemExpr (EFunction ''max'' [EColumn \<lparr>cr_table = None, cr_column = ''id''\<rparr>]) None],
     sl_from = Some \<lparr>fc_table = \<lparr>tr_name = ''t'', tr_alias = None\<rparr>, fc_joins = []\<rparr>, sl_selection = None,
     sl_group_by = [], sl_order_by = [], sl_limit = None, sl_offset = None\<rparr>"

lemma demo_orders_ok: "selector_ok (od_select demo_orders)" "groups_ok (od_groups demo_orders)"
  by (auto simp: demo_orders_def selector_ok_def groups_ok_def)

lemma demo_select_result:
  "\<exists>res. execute_select demo_orders vars demo_handle demo_select = Ok res \<and> qr_rows res = [[VInt 9]]
     \<and> map cs_name (qr_columns res) = [''max(id)'']"
proof -
  let ?sc = "scope_single ''t'' demo_columns" and ?rows = "[[VInt 7, VVarchar ''x''], [VInt 9, VNull]]"
  have f: "resolve_from demo_handle \<lparr>fc_table = \<lparr>tr_name = ''t'', tr_alias = None\<rparr>, fc_joins = []\<rparr> None = Ok (?sc, ?rows)"
    by (simp add: resolve_from_def demo_handle_reads scan_and_filter_def qualifier_def) (simp add: demo_schema_def)
  have od: "od_groups demo_orders = (\<lambda>g. if g [] = None then [] else [[]])" "od_select demo_orders = (\<lambda>cmp k xs. sort_by cmp xs)"
    by (simp_all add: demo_orders_def)
  have "map_result (\<lambda>r. (qr_rows r, map cs_name (qr_columns r)))
      (execute_aggregate (\<lambda>g. if g [] = None then [] else [[]]) (\<lambda>cmp k xs. sort_by cmp xs) ?sc ?rows
        (sl_projection demo_select) [] [] None None) = Ok ([[VInt 9]], [''max(id)''])"
    by code_simp
  then obtain res where "execute_aggregate (od_groups demo_orders) (od_select demo_orders) ?sc ?rows
      (sl_projection demo_select) [] [] None None = Ok res" "qr_rows res = [[VInt 9]]" "map cs_name (qr_columns res) = [''max(id)'']"
    unfolding od by (auto simp: result_simps)
  moreover have "is_aggregate_query (sl_projection demo_select) []" by code_simp
  ultimately show ?thesis using f by (simp add: execute_select_def demo_select_def)
qed



section \<open>An AUTO INCREMENT column that is not an integer\<close>

text \<open>
  Nothing checks the type of an \<^verbatim>\<open>AUTO_INCREMENT\<close> column: the number is stored in it as an
  integer, whatever its type.
\<close>

definition text_counter :: "column_def list" where
  "text_counter = [\<lparr>cd_name = ''id'', cd_type_name = ''TEXT'', cd_is_primary_key = True, cd_nullable = True, cd_auto_increment = True\<rparr>]"

lemma auto_increment_mistyped:
  "\<exists>h1 h2 sch. execute_create_table IoOk (new_storage, None) ''t'' text_counter = (Ok default_result, h1)
     \<and> execute_insert IoOk h1 ''t'' None [[ENull]] = (Ok (default_result\<lparr>qr_rows_affected := 1\<rparr>), h2)
     \<and> st_table_schema h2 ''t'' = Ok sch \<and> map cs_type (ts_columns sch) = [TVarchar]
     \<and> st_scan h2 ''t'' = Ok [[VInt 1]]"
proof -
  let ?c = "\<lparr>cs_name = ''id'', cs_type = TVarchar, cs_nullable = False, cs_auto_increment = True\<rparr>"
  have d: "table_definition text_counter = Ok ([?c], Some ''id'')" by code_simp
  show ?thesis
    by (simp add: execute_create_table_def d st_create_table_def on_engine_def new_storage_def op_defs new_table_def
        execute_insert_def st_table_schema_def get_table_schema_def ordered_exprs_def number_null_def
        st_next_auto_increment_def next_auto_increment_def st_insert_rows_def batch_step_def row_check_def
        check_insertable_def primary_key_value_def push_named_def push_trusted_def push_index_def push_auto_def st_scan_def scan_def Let_def max_i64_def)
qed

end
