(* ===== verification/Wire_Codec.thy ===== *)
theory Wire_Codec
  imports Rust_Bytes Result_Logic
begin

text \<open>
  The framing of the wire protocol: length-encoded integers and strings
  (\<^verbatim>\<open>src/src/protocol/lenenc.rs\<close>) and packets (\<^verbatim>\<open>src/src/protocol/packet.rs\<close>).  Writing followed by
  reading gives the value back with the rest of the buffer untouched, for every integer and for
  every packet that fits a frame.
\<close>

section \<open>Length-encoded integers\<close>

abbreviation proto_err :: "string \<Rightarrow> exn" where
  "proto_err m \<equiv> Err (Protocol m)"

definition read_lenenc_int :: "u8 list \<Rightarrow> (u64 \<times> nat) result" where
  "read_lenenc_int buf =
     bindR (ok_or (proto_err ''lenenc-int: empty buffer'') (get_at buf 0)) (\<lambda>first.
     if first \<le> 0xfa then Ok (ucast first, 1)
     else if first = 0xfb then Inl (proto_err ''lenenc-int: unexpected NULL marker (0xfb)'')
     else if first = 0xfc then
       bindR (ok_or (proto_err ''lenenc-int: truncated 2-byte value'') (get_range buf 1 3)) (\<lambda>b.
       Ok (ucast (u16_from_le b), 3))
     else if first = 0xfd then
       bindR (ok_or (proto_err ''lenenc-int: truncated 3-byte value'') (get_range buf 1 4)) (\<lambda>b.
       Ok (ucast (u32_from_le (b @ [0])), 4))
     else if first = 0xfe then
       bindR (ok_or (proto_err ''lenenc-int: truncated 8-byte value'') (get_range buf 1 9)) (\<lambda>b.
       Ok (u64_from_le b, 9))
     else Inl (proto_err ''lenenc-int: unexpected error marker (0xff)''))"

definition write_lenenc_int :: "u64 \<Rightarrow> u8 list" where
  "write_lenenc_int v =
     (if v < 0xfb then [ucast v]
      else if v \<le> 0xFFFF then 0xfc # u16_le (ucast v)
      else if v \<le> 0xFFFFFF then 0xfd # take 3 (u32_le (ucast v))
      else 0xfe # u64_le v)"

definition write_lenenc_bytes :: "u8 list \<Rightarrow> u8 list" where
  "write_lenenc_bytes bs = write_lenenc_int (word_of_nat (length bs)) @ bs"

definition write_lenenc_str :: "string \<Rightarrow> u8 list" where
  "write_lenenc_str s = write_lenenc_bytes (as_bytes s)"

lemma length_write_lenenc_int [codec_simps]:
  "length (write_lenenc_int v) =
     (if v < 0xfb then 1 else if v \<le> 0xFFFF then 3 else if v \<le> 0xFFFFFF then 4 else 9)"
  by (simp add: write_lenenc_int_def)

lemma get_range_Cons1: "0 < b \<Longrightarrow> get_range (x # xs) (Suc 0) b = get_range xs 0 (b - 1)"
  by (cases b) (simp_all add: get_range_def)

lemma get_range_prefix: "length xs = n \<Longrightarrow> get_range (xs @ ys) 0 n = Some xs"
  by (simp add: get_range_def)

lemma unat_ucast_small:
  "unat (v :: u64) < 2 ^ LENGTH('a) \<Longrightarrow> unat (ucast v :: 'a::len word) = unat v"
  by (simp add: unsigned_ucast_eq take_bit_nat_eq_self)

lemma ucast_ucast_small:
  "unat (v :: u64) < 2 ^ LENGTH('a) \<Longrightarrow> LENGTH('a) \<le> 64 \<Longrightarrow> ucast (ucast v :: 'a::len word) = v"
  using unat_bound [of v]
  by (intro unsigned_word_eqI [where 'a = nat]) (simp add: unsigned_ucast_eq take_bit_nat_eq_self unsigned_take_bit_eq)

lemma take_le_bytes: "k \<le> m \<Longrightarrow> take k (le_bytes m n) = le_bytes k n"
proof (induction k arbitrary: m n)
  case (Suc k)
  then show ?case by (cases m) auto
qed simp

lemma from_le_snoc_0: "from_le (bs @ [0]) = from_le bs"
  by (induction bs) auto

lemma u32_from_le_take3:
  assumes "unat (w :: u32) < 2 ^ 24"
  shows "u32_from_le (take 3 (u32_le w) @ [0]) = w"
  using assms by (simp add: u32_le_def take_le_bytes u32_from_le_def from_le_snoc_0 from_le_le_bytes)

lemma read_write_lenenc_int:
  "read_lenenc_int (write_lenenc_int v @ rest) = Ok (v, length (write_lenenc_int v))"
proof -
  consider (a) "v < 0xfb" | (b) "\<not> v < 0xfb" "v \<le> 0xFFFF"
    | (c) "\<not> v < 0xfb" "\<not> v \<le> 0xFFFF" "v \<le> 0xFFFFFF" | (d) "\<not> v < 0xfb" "\<not> v \<le> 0xFFFF" "\<not> v \<le> 0xFFFFFF"
    by blast
  then show ?thesis
  proof cases
    case a
    then have s: "unat v < 251" by (simp add: word_less_nat_alt)
    then have "unat (ucast v :: u8) = unat v" by (intro unat_ucast_small) simp
    then have "(ucast v :: u8) \<le> 0xfa" using s by (simp add: word_le_nat_alt)
    moreover have "ucast (ucast v :: u8) = v" using s by (intro ucast_ucast_small) simp_all
    ultimately show ?thesis using a by (simp add: write_lenenc_int_def read_lenenc_int_def)
  next
    case b
    then have "unat v < 2 ^ 16" by (simp add: word_le_nat_alt)
    then have "ucast (ucast v :: u16) = v" by (intro ucast_ucast_small) simp_all
    with b show ?thesis
      by (simp add: write_lenenc_int_def read_lenenc_int_def get_range_Cons1 get_range_prefix)
  next
    case c
    then have s: "unat v < 2 ^ 24" by (simp add: word_le_nat_alt)
    then have "unat (ucast v :: u32) = unat v" by (intro unat_ucast_small) simp
    with s have "u32_from_le (take 3 (u32_le (ucast v)) @ [0]) = ucast v"
      by (intro u32_from_le_take3) simp
    moreover have "ucast (ucast v :: u32) = v" using s by (intro ucast_ucast_small) simp_all
    ultimately show ?thesis using c
      by (simp add: write_lenenc_int_def read_lenenc_int_def get_range_Cons1 get_range_prefix)
  next
    case d
    then show ?thesis
      by (simp add: write_lenenc_int_def read_lenenc_int_def get_range_Cons1 get_range_prefix)
  qed
qed

lemma read_lenenc_int_safe: "safe (\<lambda>(v, n). 1 \<le> n \<and> n \<le> length buf) (read_lenenc_int buf)"
  unfolding read_lenenc_int_def
  by (intro safe_intros) (auto simp: get_at_def ok_or_Ok_iff Suc_le_eq split: if_splits dest: get_range_SomeD)

text \<open>The first byte of an encoded length below the frame limit is never a terminator or an error marker.\<close>

lemma hd_write_lenenc_int:
  assumes "unat v \<le> 0xFFFFFF"
  shows "hd (write_lenenc_int v @ rest) \<noteq> 0xfe" "hd (write_lenenc_int v @ rest) \<noteq> 0xff"
    "hd (write_lenenc_int v @ rest) \<noteq> 0xfb" "write_lenenc_int v \<noteq> []"
proof -
  have le: "v \<le> 0xFFFFFF" using assms by (simp add: word_le_nat_alt)
  have small: "unat (ucast v :: u8) < 251" if "v < 0xfb"
  proof -
    have s: "unat v < 251" using that by (simp add: word_less_nat_alt)
    then have "unat (ucast v :: u8) = unat v" by (intro unat_ucast_small) simp
    with s show ?thesis by simp
  qed
  have ne: "(ucast v :: u8) \<noteq> 0xfe" "(ucast v :: u8) \<noteq> 0xff" "(ucast v :: u8) \<noteq> 0xfb" if "v < 0xfb"
    using small [OF that] by auto
  show "hd (write_lenenc_int v @ rest) \<noteq> 0xfe" using ne le by (simp add: write_lenenc_int_def)
  show "hd (write_lenenc_int v @ rest) \<noteq> 0xff" using ne le by (simp add: write_lenenc_int_def)
  show "hd (write_lenenc_int v @ rest) \<noteq> 0xfb" using ne le by (simp add: write_lenenc_int_def)
  show "write_lenenc_int v \<noteq> []" by (simp add: write_lenenc_int_def)
qed

section \<open>Packets\<close>

definition HEADER_LEN :: nat where "HEADER_LEN = 4"

definition MAX_PAYLOAD :: nat where "MAX_PAYLOAD = 0xFFFFFF"

record packet =
  pk_sequence_id :: u8
  pk_payload :: "u8 list"

text \<open>The assertion on the payload size is a \<^verbatim>\<open>debug_assert!\<close>, absent from a release build.\<close>

definition encode_into :: "packet \<Rightarrow> u8 list \<Rightarrow> u8 list" where
  "encode_into p out =
     (let len_bytes = u32_le (word_of_nat (length (pk_payload p)))
      in ((out @ take 3 len_bytes) @ [pk_sequence_id p]) @ pk_payload p)"

definition encode_packet :: "packet \<Rightarrow> u8 list" where
  "encode_packet p = encode_into p []"

definition parse_packet :: "u8 list \<Rightarrow> (packet \<times> nat) option result" where
  "parse_packet buf =
     (if length buf < HEADER_LEN then Ok None
      else
        bindR (index_at buf 0) (\<lambda>b0. bindR (index_at buf 1) (\<lambda>b1. bindR (index_at buf 2) (\<lambda>b2.
        bindR (index_at buf 3) (\<lambda>sequence_id.
        let len = unat (u32_from_le [b0, b1, b2, 0]);
            total = HEADER_LEN + len
        in if length buf < total then Ok None
           else Ok (Some (\<lparr>pk_sequence_id = sequence_id, pk_payload = take (total - HEADER_LEN) (drop HEADER_LEN buf)\<rparr>,
                          total)))))))"

definition decode_packet :: "u8 list \<Rightarrow> packet result" where
  "decode_packet bytes =
     bindR (parse_packet bytes) (\<lambda>m.
     case m of
       Some (packet, _) \<Rightarrow> Ok packet
     | None \<Rightarrow> Inl (proto_err (''incomplete packet: have '' @ show_nat (length bytes)
                              @ '' byte(s), need a full header plus payload'')))"

definition fits_frame :: "packet \<Rightarrow> bool" where
  "fits_frame p \<longleftrightarrow> length (pk_payload p) \<le> MAX_PAYLOAD"

lemma encode_into_eq: "encode_into p out = out @ encode_packet p"
  by (simp add: encode_into_def encode_packet_def Let_def)

lemma length_encode_packet [codec_simps]: "length (encode_packet p) = HEADER_LEN + length (pk_payload p)"
  by (simp add: encode_packet_def encode_into_def HEADER_LEN_def)

lemma encode_packet_unfold:
  assumes "fits_frame p"
  shows "encode_packet p = le_bytes 3 (length (pk_payload p)) @ [pk_sequence_id p] @ pk_payload p"
proof -
  have "unat (word_of_nat (length (pk_payload p)) :: u32) = length (pk_payload p)"
    using assms by (simp add: fits_frame_def MAX_PAYLOAD_def unat_of_nat)
  then show ?thesis by (simp add: encode_packet_def encode_into_def u32_le_def take_le_bytes)
qed

text \<open>The declared length, once the header is there (\<^verbatim>\<open>declared_payload_len\<close> of the connection).\<close>

definition header_len :: "u8 list \<Rightarrow> nat" where
  "header_len buf = from_le (take 3 buf)"

lemma header_len_encode:
  assumes "fits_frame p"
  shows "header_len (encode_packet p @ rest) = length (pk_payload p)"
proof -
  let ?n = "length (pk_payload p)"
  have n: "?n < 256 ^ 3" using assms by (simp add: fits_frame_def MAX_PAYLOAD_def)
  have "take 3 (encode_packet p @ rest) = le_bytes 3 ?n"
    using encode_packet_unfold [OF assms] by simp
  then show ?thesis using n by (simp add: header_len_def from_le_le_bytes)
qed

lemma parse_packet_header:
  assumes "4 \<le> length buf"
  shows "parse_packet buf =
    (if length buf < 4 + header_len buf then Ok None
     else Ok (Some (\<lparr>pk_sequence_id = buf ! 3, pk_payload = take (header_len buf) (drop 4 buf)\<rparr>, 4 + header_len buf)))"
proof -
  obtain a b c d rest where buf: "buf = a # b # c # d # rest"
    using assms by (cases buf; cases "tl buf"; cases "tl (tl buf)"; cases "tl (tl (tl buf))") auto
  have "header_len buf = from_le [a, b, c]" by (simp add: header_len_def buf numeral_3_eq_3)
  moreover have "unat (u32_from_le [a, b, c, 0]) = from_le [a, b, c, 0]" by (rule unat_u32_from_le) simp
  ultimately show ?thesis by (simp add: parse_packet_def HEADER_LEN_def buf Let_def)
qed

theorem parse_encode_packet:
  assumes "fits_frame p"
  shows "parse_packet (encode_packet p @ rest) = Ok (Some (p, length (encode_packet p)))"
proof -
  have l: "length (encode_packet p) = 4 + length (pk_payload p)" by (simp add: codec_simps HEADER_LEN_def)
  have "drop 4 (encode_packet p @ rest) = pk_payload p @ rest" "(encode_packet p @ rest) ! 3 = pk_sequence_id p"
    by (simp_all add: encode_packet_unfold [OF assms] nth_append)
  then show ?thesis using l header_len_encode [OF assms, of rest] by (subst parse_packet_header) simp_all
qed

text \<open>A proper prefix of a packet is recognised as incomplete.\<close>

theorem parse_partial_packet:
  assumes "fits_frame p" "n < length (encode_packet p)"
  shows "parse_packet (take n (encode_packet p)) = Ok None"
proof (cases "n < 4")
  case True
  then have "length (take n (encode_packet p)) < HEADER_LEN" by (simp add: HEADER_LEN_def)
  then show ?thesis by (simp only: parse_packet_def if_True)
next
  case False
  have l: "length (encode_packet p) = 4 + length (pk_payload p)" by (simp add: codec_simps HEADER_LEN_def)
  have "header_len (take n (encode_packet p)) = header_len (encode_packet p)"
    using False by (simp add: header_len_def min_def)
  also have "\<dots> = length (pk_payload p)" using header_len_encode [OF assms(1), of "[]"] by simp
  finally show ?thesis using False assms(2) l by (subst parse_packet_header) (simp_all add: min_def)
qed

lemma decode_encode_packet: "fits_frame p \<Longrightarrow> decode_packet (encode_packet p @ rest) = Ok p"
  by (simp add: decode_packet_def parse_encode_packet)

lemma parse_packet_safe:
  "safe (\<lambda>m. case m of None \<Rightarrow> True | Some (p, n) \<Rightarrow> n = 4 + length (pk_payload p) \<and> n \<le> length buf \<and> n \<le> 4 + MAX_PAYLOAD)
     (parse_packet buf)"
proof (cases "4 \<le> length buf")
  case True
  have "header_len buf < 256 ^ length (take 3 buf)" unfolding header_len_def by (rule from_le_bound)
  then have "header_len buf \<le> MAX_PAYLOAD" using True by (simp add: min_def MAX_PAYLOAD_def)
  then show ?thesis using True by (simp add: parse_packet_header)
qed (simp add: parse_packet_def HEADER_LEN_def)

end
