(* ===== verification/Wire_Messages.thy ===== *)
theory Wire_Messages
  imports Wire_Codec
begin

text \<open>
  The messages the server sends: OK, ERR and AuthMoreData packets
  (\<^verbatim>\<open>src/src/protocol/response.rs\<close>), text and binary result sets
  (\<^verbatim>\<open>src/src/protocol/resultset.rs\<close>), the answer to COM\_STMT\_PREPARE
  (\<^verbatim>\<open>src/src/protocol/prepared.rs\<close>), the initial handshake and the authentication switch
  (\<^verbatim>\<open>src/src/protocol/handshake.rs\<close>).  Each \<^verbatim>\<open>to_packet\<close> is a function to \<open>packet result\<close>; the
  sequence id is a \<open>8 word\<close> and wraps.
\<close>

definition guard_payload_size :: "u8 list \<Rightarrow> string \<Rightarrow> unit result" where
  "guard_payload_size payload what =
     (if length payload > MAX_PAYLOAD
      then Inl (proto_err (what @ '' payload of '' @ show_nat (length payload) @ '' bytes exceeds single-packet maximum''))
      else Ok ())"

definition packet_of :: "u8 \<Rightarrow> u8 list \<Rightarrow> packet" where
  "packet_of sequence_id payload = \<lparr>pk_sequence_id = sequence_id, pk_payload = payload\<rparr>"

lemma packet_of_simps [simp]:
  "pk_sequence_id (packet_of n p) = n" "pk_payload (packet_of n p) = p"
  by (simp_all add: packet_of_def)

definition guarded_packet :: "string \<Rightarrow> u8 \<Rightarrow> u8 list \<Rightarrow> packet result" where
  "guarded_packet what sequence_id payload =
     bindR (guard_payload_size payload what) (\<lambda>_. Ok (packet_of sequence_id payload))"

lemma guarded_packet_Ok:
  "guarded_packet what n payload = Ok p \<longleftrightarrow> length payload \<le> MAX_PAYLOAD \<and> p = packet_of n payload"
  by (auto simp: guarded_packet_def guard_payload_size_def)

lemma guarded_packet_safe: "safe fits_frame (guarded_packet what n payload)"
  by (simp add: guarded_packet_def guard_payload_size_def fits_frame_def)

section \<open>OK, ERR and AuthMoreData\<close>

definition OK_HEADER :: u8 where "OK_HEADER = 0x00"
definition ERR_HEADER :: u8 where "ERR_HEADER = 0xff"
definition AUTH_MORE_DATA_HEADER :: u8 where "AUTH_MORE_DATA_HEADER = 0x01"
definition DEFAULT_STATUS_FLAGS :: u16 where "DEFAULT_STATUS_FLAGS = 0x0002"
definition CACHING_SHA2_FAST_AUTH_SUCCESS :: u8 where "CACHING_SHA2_FAST_AUTH_SUCCESS = 0x03"

record ok_packet =
  ok_affected_rows :: u64
  ok_last_insert_id :: u64
  ok_status_flags :: u16
  ok_warnings :: u16
  ok_info :: string

definition ok_packet_new :: ok_packet where
  "ok_packet_new = \<lparr>ok_affected_rows = 0, ok_last_insert_id = 0, ok_status_flags = DEFAULT_STATUS_FLAGS,
                    ok_warnings = 0, ok_info = []\<rparr>"

definition ok_to_packet :: "ok_packet \<Rightarrow> u8 \<Rightarrow> packet result" where
  "ok_to_packet ok sequence_id =
     guarded_packet ''OK'' sequence_id
       ([OK_HEADER] @ write_lenenc_int (ok_affected_rows ok) @ write_lenenc_int (ok_last_insert_id ok)
        @ u16_le (ok_status_flags ok) @ u16_le (ok_warnings ok) @ as_bytes (ok_info ok))"

definition auth_more_data_packet :: "u8 list \<Rightarrow> u8 \<Rightarrow> packet result" where
  "auth_more_data_packet data sequence_id =
     guarded_packet ''AuthMoreData'' sequence_id ([AUTH_MORE_DATA_HEADER] @ data)"

definition fast_auth_success :: "u8 list" where
  "fast_auth_success = [CACHING_SHA2_FAST_AUTH_SUCCESS]"

record err_packet =
  ep_error_code :: u16
  ep_sql_state :: string
  ep_message :: string

definition err_packet_new :: "u16 \<Rightarrow> string \<Rightarrow> string \<Rightarrow> err_packet" where
  "err_packet_new code state msg = \<lparr>ep_error_code = code, ep_sql_state = state, ep_message = msg\<rparr>"

definition access_denied :: "string \<Rightarrow> err_packet" where
  "access_denied username =
     err_packet_new 1045 ''28000'' (''Access denied for user '' @ [char_of (39 :: nat)] @ username @ [char_of (39 :: nat)])"

fun from_error :: "error \<Rightarrow> err_packet" where
  "from_error (Parse msg) = err_packet_new 1064 ''42000'' (''You have an error in your SQL syntax: '' @ msg)"
| "from_error (Execution msg) = err_packet_new 1105 ''HY000'' msg"
| "from_error (Unsupported msg) =
     err_packet_new 1235 ''42000''
       (''This version of mysql-rust doesn'' @ [char_of (39 :: nat)] @ ''t yet support '' @ [char_of (39 :: nat)] @ msg
        @ [char_of (39 :: nat)])"
| "from_error (Auth msg) = err_packet_new 1045 ''28000'' msg"
| "from_error (Protocol msg) = err_packet_new 1047 ''08S01'' msg"
| "from_error (Io e) = err_packet_new 1105 ''HY000'' (''I/O error: '' @ e)"
| "from_error (Config msg) = err_packet_new 1105 ''HY000'' msg"

definition err_to_packet :: "err_packet \<Rightarrow> u8 \<Rightarrow> packet result" where
  "err_to_packet e sequence_id =
     guarded_packet ''ERR'' sequence_id
       ([ERR_HEADER] @ u16_le (ep_error_code e) @ as_bytes ''#'' @ as_bytes (ep_sql_state e) @ as_bytes (ep_message e))"

section \<open>Result sets\<close>

datatype wire_type = LongLong | VarString

fun type_code :: "wire_type \<Rightarrow> u8" where
  "type_code LongLong = 0x08"
| "type_code VarString = 0xfd"

datatype cell = CellInt i64 | CellText string | CellNull

fun cell_to_text :: "cell \<Rightarrow> string option" where
  "cell_to_text (CellInt n) = Some (show_i64 n)"
| "cell_to_text (CellText s) = Some s"
| "cell_to_text CellNull = None"

record column_definition =
  cdf_name :: string
  cdf_type :: wire_type

definition column_payload :: "column_definition \<Rightarrow> u8 list" where
  "column_payload c =
     write_lenenc_str ''def'' @ write_lenenc_str '''' @ write_lenenc_str '''' @ write_lenenc_str ''''
     @ write_lenenc_str (cdf_name c) @ write_lenenc_str (cdf_name c)
     @ [0x0c] @ u16_le 45 @ u32_le 255 @ [type_code (cdf_type c)] @ u16_le 0 @ [0] @ [0, 0]"

definition column_to_packet :: "column_definition \<Rightarrow> u8 \<Rightarrow> packet result" where
  "column_to_packet c sequence_id = guarded_packet ''column definition'' sequence_id (column_payload c)"

definition eof_packet :: "u16 \<Rightarrow> u8 \<Rightarrow> packet" where
  "eof_packet status_flags sequence_id = packet_of sequence_id ([0xfe] @ u16_le 0 @ u16_le status_flags)"

definition deprecate_eof_terminator :: "u16 \<Rightarrow> u8 \<Rightarrow> packet" where
  "deprecate_eof_terminator status_flags sequence_id =
     packet_of sequence_id
       ([0xfe] @ write_lenenc_int 0 @ write_lenenc_int 0 @ u16_le status_flags @ u16_le 0)"

definition NULL_MARKER :: u8 where "NULL_MARKER = 0xfb"

definition text_cell_bytes :: "cell \<Rightarrow> u8 list" where
  "text_cell_bytes c = (case cell_to_text c of Some v \<Rightarrow> write_lenenc_str v | None \<Rightarrow> [NULL_MARKER])"

definition encode_text_row :: "cell list \<Rightarrow> u8 \<Rightarrow> packet result" where
  "encode_text_row cells sequence_id = guarded_packet ''row'' sequence_id (concat (map text_cell_bytes cells))"

definition set_null_bit :: "u8 list \<Rightarrow> nat \<times> cell \<Rightarrow> u8 list result" where
  "set_null_bit null_bitmap = (\<lambda>(i, cell).
     if cell = CellNull then
       let b = i + 2 in
       bindR (index_at null_bitmap (b div 8)) (\<lambda>byte.
       Ok (null_bitmap[b div 8 := byte OR push_bit (b mod 8) 1]))
     else Ok null_bitmap)"

definition null_bitmap :: "cell list \<Rightarrow> u8 list result" where
  "null_bitmap cells = foldR set_null_bit (replicate ((length cells + 2 + 7) div 8) 0) (enumerate 0 cells)"

fun binary_cell_bytes :: "cell \<Rightarrow> u8 list" where
  "binary_cell_bytes CellNull = []"
| "binary_cell_bytes (CellInt n) = u64_le n"
| "binary_cell_bytes (CellText s) = write_lenenc_str s"

definition encode_binary_row :: "cell list \<Rightarrow> u8 \<Rightarrow> packet result" where
  "encode_binary_row cells sequence_id =
     bindR (null_bitmap cells) (\<lambda>bm.
     guarded_packet ''binary row'' sequence_id ([0x00] @ bm @ concat (map binary_cell_bytes cells)))"

record result_set =
  rs_columns :: "column_definition list"
  rs_rows :: "cell list list"

text \<open>The packets of a result set and the next sequence id.\<close>

definition push_packet :: "('a \<Rightarrow> u8 \<Rightarrow> packet result) \<Rightarrow> packet list \<times> u8 \<Rightarrow> 'a \<Rightarrow> (packet list \<times> u8) result" where
  "push_packet enc = (\<lambda>(packets, sq) x. map_result (\<lambda>p. (packets @ [p], sq + 1)) (enc x sq))"

definition to_packets ::
    "(cell list \<Rightarrow> u8 \<Rightarrow> packet result) \<Rightarrow> result_set \<Rightarrow> bool \<Rightarrow> u16 \<Rightarrow> u8 \<Rightarrow> (packet list \<times> u8) result" where
  "to_packets encode_row rs deprecate_eof status_flags start =
     (let st0 = ([packet_of start (write_lenenc_int (word_of_nat (length (rs_columns rs))))], start + 1) in
      bindR (foldR (push_packet column_to_packet) st0 (rs_columns rs)) (\<lambda>(ps1, sq1).
      let (ps2, sq2) = (if \<not> deprecate_eof then (ps1 @ [eof_packet status_flags sq1], sq1 + 1) else (ps1, sq1)) in
      bindR (foldR (push_packet encode_row) (ps2, sq2) (rs_rows rs)) (\<lambda>(ps3, sq3).
      Ok (ps3 @ [if deprecate_eof then deprecate_eof_terminator status_flags sq3 else eof_packet status_flags sq3],
          sq3 + 1))))"

definition to_text_packets :: "result_set \<Rightarrow> bool \<Rightarrow> u16 \<Rightarrow> u8 \<Rightarrow> (packet list \<times> u8) result" where
  "to_text_packets = to_packets encode_text_row"

definition to_binary_packets :: "result_set \<Rightarrow> bool \<Rightarrow> u16 \<Rightarrow> u8 \<Rightarrow> (packet list \<times> u8) result" where
  "to_binary_packets = to_packets encode_binary_row"

text \<open>The same straight into a byte buffer.  On an error the buffer keeps what was encoded before it.\<close>

definition push_bytes :: "('a \<Rightarrow> u8 \<Rightarrow> packet result) \<Rightarrow> u8 list \<times> u8 \<Rightarrow> 'a \<Rightarrow> (u8 list \<times> u8) result" where
  "push_bytes enc = (\<lambda>(out, sq) x. map_result (\<lambda>p. (encode_into p out, sq + 1)) (enc x sq))"

definition encode_result_set ::
    "(cell list \<Rightarrow> u8 \<Rightarrow> packet result) \<Rightarrow> result_set \<Rightarrow> u8 list \<Rightarrow> bool \<Rightarrow> u16 \<Rightarrow> u8 \<Rightarrow> (u8 list \<times> u8) result" where
  "encode_result_set encode_row rs out deprecate_eof status_flags start =
     (let st0 = (encode_into (packet_of start (write_lenenc_int (word_of_nat (length (rs_columns rs))))) out, start + 1) in
      bindR (foldR (push_bytes column_to_packet) st0 (rs_columns rs)) (\<lambda>(out1, sq1).
      let (out2, sq2) = (if \<not> deprecate_eof then (encode_into (eof_packet status_flags sq1) out1, sq1 + 1) else (out1, sq1)) in
      bindR (foldR (push_bytes encode_row) (out2, sq2) (rs_rows rs)) (\<lambda>(out3, sq3).
      Ok (encode_into (if deprecate_eof then deprecate_eof_terminator status_flags sq3 else eof_packet status_flags sq3) out3,
          sq3 + 1))))"

definition encode_text_into :: "result_set \<Rightarrow> u8 list \<Rightarrow> bool \<Rightarrow> u16 \<Rightarrow> u8 \<Rightarrow> (u8 list \<times> u8) result" where
  "encode_text_into = encode_result_set encode_text_row"

definition encode_binary_into :: "result_set \<Rightarrow> u8 list \<Rightarrow> bool \<Rightarrow> u16 \<Rightarrow> u8 \<Rightarrow> (u8 list \<times> u8) result" where
  "encode_binary_into = encode_result_set encode_binary_row"

section \<open>Prepared statements, handshake and authentication switch\<close>

record stmt_prepare_ok =
  spo_statement_id :: u32
  spo_num_columns :: u16
  spo_num_params :: u16

definition stmt_prepare_ok_packet :: "stmt_prepare_ok \<Rightarrow> u8 \<Rightarrow> packet result" where
  "stmt_prepare_ok_packet s sequence_id =
     Ok (packet_of sequence_id
       ([0x00] @ u32_le (spo_statement_id s) @ u16_le (spo_num_columns s) @ u16_le (spo_num_params s) @ [0x00] @ u16_le 0))"

definition CLIENT_LONG_PASSWORD :: u32 where "CLIENT_LONG_PASSWORD = 0x00000001"
definition CLIENT_MULTI_STATEMENTS :: u32 where "CLIENT_MULTI_STATEMENTS = 0x00010000"
definition CLIENT_CONNECT_WITH_DB :: u32 where "CLIENT_CONNECT_WITH_DB = 0x00000008"
definition CLIENT_PROTOCOL_41 :: u32 where "CLIENT_PROTOCOL_41 = 0x00000200"
definition CLIENT_SSL :: u32 where "CLIENT_SSL = 0x00000800"
definition CLIENT_SECURE_CONNECTION :: u32 where "CLIENT_SECURE_CONNECTION = 0x00008000"
definition CLIENT_PLUGIN_AUTH :: u32 where "CLIENT_PLUGIN_AUTH = 0x00080000"
definition CLIENT_PLUGIN_AUTH_LENENC_CLIENT_DATA :: u32 where "CLIENT_PLUGIN_AUTH_LENENC_CLIENT_DATA = 0x00200000"
definition CLIENT_DEPRECATE_EOF :: u32 where "CLIENT_DEPRECATE_EOF = 0x01000000"

lemmas client_flag_defs =
  CLIENT_LONG_PASSWORD_def CLIENT_MULTI_STATEMENTS_def CLIENT_CONNECT_WITH_DB_def CLIENT_PROTOCOL_41_def
  CLIENT_SSL_def CLIENT_SECURE_CONNECTION_def CLIENT_PLUGIN_AUTH_def CLIENT_PLUGIN_AUTH_LENENC_CLIENT_DATA_def
  CLIENT_DEPRECATE_EOF_def

definition has_flag :: "u32 \<Rightarrow> u32 \<Rightarrow> bool" where
  "has_flag flags f \<longleftrightarrow> flags AND f \<noteq> 0"

definition SCRAMBLE_LEN :: nat where "SCRAMBLE_LEN = 20"

record handshake =
  hs_protocol_version :: u8
  hs_server_version :: string
  hs_connection_id :: u32
  hs_auth_plugin_data :: "u8 list"
  hs_capability_flags :: u32
  hs_character_set :: u8
  hs_status_flags :: u16
  hs_auth_plugin_name :: string

text \<open>
  The challenge: random bytes (the argument) mapped into the printable range.  The product and the
  quotient are computed in \<^verbatim>\<open>u16\<close>.
\<close>

definition scramble_byte :: "u8 \<Rightarrow> u8" where
  "scramble_byte b = 33 + ucast ((ucast b * 94 :: u16) div 256)"

definition generate_scramble :: "u8 list \<Rightarrow> u8 list" where
  "generate_scramble raw = map scramble_byte raw"

definition handshake_new :: "u8 list \<Rightarrow> u32 \<Rightarrow> string \<Rightarrow> bool \<Rightarrow> string \<Rightarrow> handshake" where
  "handshake_new raw connection_id server_version tls_available auth_plugin_name =
     (let flags = CLIENT_LONG_PASSWORD OR CLIENT_CONNECT_WITH_DB OR CLIENT_PROTOCOL_41 OR CLIENT_SECURE_CONNECTION
                  OR CLIENT_PLUGIN_AUTH OR CLIENT_PLUGIN_AUTH_LENENC_CLIENT_DATA OR CLIENT_DEPRECATE_EOF
                  OR CLIENT_MULTI_STATEMENTS;
          flags = (if tls_available then flags OR CLIENT_SSL else flags)
      in \<lparr>hs_protocol_version = 10, hs_server_version = server_version, hs_connection_id = connection_id,
          hs_auth_plugin_data = generate_scramble raw, hs_capability_flags = flags, hs_character_set = 45,
          hs_status_flags = 0x0002, hs_auth_plugin_name = auth_plugin_name\<rparr>)"

definition handshake_payload :: "handshake \<Rightarrow> u8 list" where
  "handshake_payload h =
     [hs_protocol_version h] @ as_bytes (hs_server_version h) @ [0]
     @ u32_le (hs_connection_id h)
     @ take 8 (hs_auth_plugin_data h) @ [0]
     @ u16_le (ucast (hs_capability_flags h AND 0xFFFF))
     @ [hs_character_set h]
     @ u16_le (hs_status_flags h)
     @ u16_le (ucast (drop_bit 16 (hs_capability_flags h) AND 0xFFFF))
     @ (if has_flag (hs_capability_flags h) CLIENT_PLUGIN_AUTH
        then [word_of_nat (length (hs_auth_plugin_data h) + 1)] else [0])
     @ replicate 10 0
     @ (if has_flag (hs_capability_flags h) CLIENT_SECURE_CONNECTION
        then drop 8 (hs_auth_plugin_data h) @ [0] else [])
     @ (if has_flag (hs_capability_flags h) CLIENT_PLUGIN_AUTH
        then as_bytes (hs_auth_plugin_name h) @ [0] else [])"

definition handshake_to_packet :: "handshake \<Rightarrow> u8 \<Rightarrow> packet result" where
  "handshake_to_packet h sequence_id = guarded_packet ''handshake'' sequence_id (handshake_payload h)"

record auth_switch_request =
  as_plugin_name :: string
  as_auth_plugin_data :: "u8 list"

definition auth_switch_to_packet :: "auth_switch_request \<Rightarrow> u8 \<Rightarrow> packet result" where
  "auth_switch_to_packet a sequence_id =
     guarded_packet ''auth switch'' sequence_id
       ([0xfe] @ as_bytes (as_plugin_name a) @ [0] @ as_auth_plugin_data a)"

lemma scramble_byte_range: "33 \<le> unat (scramble_byte b)" "unat (scramble_byte b) \<le> 126"
proof -
  have b: "unat b < 256" using unat_bound [of b] by simp
  have "unat (ucast b :: u16) = unat b" using b by (simp add: unsigned_ucast_eq take_bit_nat_eq_self)
  then have "unat (ucast b * 94 :: u16) = unat b * 94" using b by (simp add: unat_word_ariths)
  then have q: "unat ((ucast b * 94 :: u16) div 256) = unat b * 94 div 256" by (simp add: unat_div)
  then have "unat (ucast ((ucast b * 94 :: u16) div 256) :: u8) = unat b * 94 div 256"
    using b by (simp add: unsigned_ucast_eq take_bit_nat_eq_self)
  then have "unat (scramble_byte b) = 33 + unat b * 94 div 256"
    using b by (simp add: scramble_byte_def unat_word_ariths)
  then show "33 \<le> unat (scramble_byte b)" "unat (scramble_byte b) \<le> 126" using b by simp_all
qed

text \<open>So the challenge is free of NUL bytes and of the length it was asked for.\<close>

lemma generate_scramble_ok: "length (generate_scramble raw) = length raw" "0 \<notin> set (generate_scramble raw)"
proof -
  show "0 \<notin> set (generate_scramble raw)"
  proof
    assume "0 \<in> set (generate_scramble raw)"
    then obtain b where "scramble_byte b = 0" by (auto simp: generate_scramble_def)
    with scramble_byte_range(1) [of b] show False by simp
  qed
qed (simp add: generate_scramble_def)

end
