(* ===== verification/Wire_Client.thy ===== *)
theory Wire_Client
  imports Wire_Messages
begin

text \<open>
  What a client reads of a result set.  The functions \<open>split_frames\<close> and \<open>client_result_set\<close> are a
  reader written from the protocol: split the bytes into frames, read the column count, the column
  definitions and rows up to the terminator.  The locale \<open>row_encoding\<close> is the contract between a
  row encoder and the framing; it is interpreted for text and for binary rows.
\<close>

section \<open>The reader\<close>

function split_frames :: "u8 list \<Rightarrow> packet list option" where
  "split_frames bytes =
     (if bytes = [] then Some []
      else case parse_packet bytes of
        Inr (Some (p, n)) \<Rightarrow> map_option (Cons p) (split_frames (drop n bytes))
      | _ \<Rightarrow> None)"
  by auto
termination
proof (relation "measure length", goal_cases)
  case (2 bytes m pn p n)
  then show ?case using parse_packet_safe [of bytes] by (cases bytes) auto
qed simp

declare split_frames.simps [simp del]

definition is_terminator :: "u8 list \<Rightarrow> bool" where
  "is_terminator payload \<longleftrightarrow> payload \<noteq> [] \<and> hd payload = 0xfe \<and> length payload < 9"

definition take_lenenc :: "u8 list \<Rightarrow> (u8 list \<times> u8 list) option" where
  "take_lenenc buf =
     (case read_lenenc_int buf of
        Inl _ \<Rightarrow> None
      | Inr (v, n) \<Rightarrow>
          if n + unat v \<le> length buf then Some (take (unat v) (drop n buf), drop (n + unat v) buf) else None)"

definition type_of_code :: "u8 \<Rightarrow> wire_type option" where
  "type_of_code b = (if b = 0x08 then Some LongLong else if b = 0xfd then Some VarString else None)"

definition read_column_definition :: "u8 list \<Rightarrow> column_definition option" where
  "read_column_definition payload =
     Option.bind (take_lenenc payload) (\<lambda>(_, r1).
     Option.bind (take_lenenc r1) (\<lambda>(_, r2).
     Option.bind (take_lenenc r2) (\<lambda>(_, r3).
     Option.bind (take_lenenc r3) (\<lambda>(_, r4).
     Option.bind (take_lenenc r4) (\<lambda>(name, r5).
     Option.bind (take_lenenc r5) (\<lambda>(_, r6).
     if length r6 = 13 \<and> hd r6 = 0x0c
     then map_option (\<lambda>t. \<lparr>cdf_name = string_of_bytes name, cdf_type = t\<rparr>) (type_of_code (r6 ! 7))
     else None))))))"

fun read_text_cells :: "nat \<Rightarrow> u8 list \<Rightarrow> string option list option" where
  "read_text_cells 0 buf = (if buf = [] then Some [] else None)"
| "read_text_cells (Suc n) buf =
     (if buf \<noteq> [] \<and> hd buf = 0xfb then map_option (Cons None) (read_text_cells n (tl buf))
      else Option.bind (take_lenenc buf) (\<lambda>(s, rest). map_option (Cons (Some (string_of_bytes s))) (read_text_cells n rest)))"

definition read_text_row :: "wire_type list \<Rightarrow> u8 list \<Rightarrow> string option list option" where
  "read_text_row ts payload = read_text_cells (length ts) payload"

definition null_bit :: "u8 list \<Rightarrow> nat \<Rightarrow> bool" where
  "null_bit bm i \<longleftrightarrow> bit (bm ! ((i + 2) div 8)) ((i + 2) mod 8)"

fun read_binary_cells :: "u8 list \<Rightarrow> nat \<Rightarrow> wire_type list \<Rightarrow> u8 list \<Rightarrow> cell list option" where
  "read_binary_cells bm i [] buf = (if buf = [] then Some [] else None)"
| "read_binary_cells bm i (t # ts) buf =
     (if null_bit bm i then map_option (Cons CellNull) (read_binary_cells bm (Suc i) ts buf)
      else case t of
        LongLong \<Rightarrow>
          if 8 \<le> length buf
          then map_option (Cons (CellInt (u64_from_le (take 8 buf)))) (read_binary_cells bm (Suc i) ts (drop 8 buf))
          else None
      | VarString \<Rightarrow>
          Option.bind (take_lenenc buf) (\<lambda>(s, rest).
          map_option (Cons (CellText (string_of_bytes s))) (read_binary_cells bm (Suc i) ts rest)))"

definition read_binary_row :: "wire_type list \<Rightarrow> u8 list \<Rightarrow> cell list option" where
  "read_binary_row ts payload =
     (let k = (length ts + 9) div 8 in
      if payload \<noteq> [] \<and> hd payload = 0 \<and> k + 1 \<le> length payload
      then read_binary_cells (take k (tl payload)) 0 ts (drop k (tl payload))
      else None)"

fun client_rows :: "(u8 list \<Rightarrow> 'r option) \<Rightarrow> packet list \<Rightarrow> 'r list option" where
  "client_rows dec [] = None"
| "client_rows dec (p # ps) =
     (if is_terminator (pk_payload p) then (if ps = [] then Some [] else None)
      else Option.bind (dec (pk_payload p)) (\<lambda>r. map_option (Cons r) (client_rows dec ps)))"

definition client_result_set ::
    "(wire_type list \<Rightarrow> u8 list \<Rightarrow> 'r option) \<Rightarrow> bool \<Rightarrow> packet list \<Rightarrow> (column_definition list \<times> 'r list) option" where
  "client_result_set dec deprecate_eof ps =
     (case ps of
        [] \<Rightarrow> None
      | p # rest \<Rightarrow>
          (case read_lenenc_int (pk_payload p) of
             Inl _ \<Rightarrow> None
           | Inr (n, _) \<Rightarrow>
               Option.bind (those (map (read_column_definition \<circ> pk_payload) (take (unat n) rest))) (\<lambda>columns.
               let rest' = drop (unat n) rest;
                   body = (if deprecate_eof then rest' else if rest' \<noteq> [] \<and> is_terminator (pk_payload (hd rest')) then tl rest' else [])
               in map_option (Pair columns) (client_rows (dec (map cdf_type columns)) body))))"

section \<open>Frames\<close>

lemma split_frames_encode:
  "list_all fits_frame ps \<Longrightarrow> split_frames (concat (map encode_packet ps)) = Some ps"
proof (induction ps)
  case Nil
  then show ?case by (simp add: split_frames.simps)
next
  case (Cons p ps)
  have "encode_packet p \<noteq> []" using length_encode_packet [of p] by (auto simp: HEADER_LEN_def)
  then show ?case using Cons by (subst split_frames.simps) (simp add: parse_encode_packet)
qed

text \<open>Packets produced one after the other, and their bytes.\<close>

lemma push_bytes_eq:
  "foldR (push_bytes enc) (out @ concat (map encode_packet ps), sq) xs =
     map_result (\<lambda>(ps', sq'). (out @ concat (map encode_packet ps'), sq')) (foldR (push_packet enc) (ps, sq) xs)"
proof (induction xs arbitrary: ps sq)
  case Nil
  then show ?case by simp
next
  case (Cons x xs)
  show ?case
  proof (cases "enc x sq")
    case (Inl e)
    then show ?thesis by (simp add: push_bytes_def push_packet_def)
  next
    case (Inr p)
    from Cons [of "ps @ [p]" "sq + 1"] Inr show ?thesis
      by (simp add: push_bytes_def push_packet_def encode_into_eq)
  qed
qed

lemma encode_result_set_eq:
  "encode_result_set enc rs out dep flags start =
     map_result (\<lambda>(ps, sq). (out @ concat (map encode_packet ps), sq)) (to_packets enc rs dep flags start)"
proof -
  let ?p0 = "packet_of start (write_lenenc_int (word_of_nat (length (rs_columns rs))))"
  note e = push_bytes_eq [of column_to_packet out "[?p0]" "start + 1" "rs_columns rs", simplified]
  show ?thesis
  proof (cases "foldR (push_packet column_to_packet) ([?p0], start + 1) (rs_columns rs)")
    case (Inl x)
    then show ?thesis using e by (simp add: encode_result_set_def to_packets_def encode_into_eq)
  next
    case (Inr y)
    obtain ps1 sq1 where y: "y = (ps1, sq1)" by (cases y)
    obtain ps2 sq2 where s2: "(if \<not> dep then (ps1 @ [eof_packet flags sq1], sq1 + 1) else (ps1, sq1)) = (ps2, sq2)"
      by (cases dep) auto
    then have s2': "(if \<not> dep then (encode_into (eof_packet flags sq1) (out @ concat (map encode_packet ps1)), sq1 + 1)
        else (out @ concat (map encode_packet ps1), sq1)) = (out @ concat (map encode_packet ps2), sq2)"
      by (cases dep) (auto simp: encode_into_eq)
    show ?thesis
      using e Inr y push_bytes_eq [of enc out ps2 sq2 "rs_rows rs"] s2 s2'
      by (cases "foldR (push_packet enc) (ps2, sq2) (rs_rows rs)")
         (simp_all add: encode_result_set_def to_packets_def encode_into_eq split: prod.splits)
  qed
qed

lemma push_packets_Ok:
  assumes "foldR (push_packet enc) (ps, sq) xs = Ok (ps', sq')"
  shows "\<exists>qs. ps' = ps @ qs \<and> length qs = length xs \<and> sq' = sq + word_of_nat (length xs)
    \<and> (\<forall>i < length xs. enc (xs ! i) (sq + word_of_nat i) = Ok (qs ! i))"
  using assms
proof (induction xs arbitrary: ps sq)
  case Nil
  then show ?case by simp
next
  case (Cons x xs)
  from Cons.prems obtain p where p: "enc x sq = Ok p" "foldR (push_packet enc) (ps @ [p], sq + 1) xs = Ok (ps', sq')"
    by (auto simp: push_packet_def result_simps)
  from Cons.IH [OF p(2)] obtain qs where qs: "ps' = (ps @ [p]) @ qs" "length qs = length xs"
      "sq' = sq + 1 + word_of_nat (length xs)" "\<forall>i < length xs. enc (xs ! i) (sq + 1 + word_of_nat i) = Ok (qs ! i)"
    by auto
  have "\<forall>i < length (x # xs). enc ((x # xs) ! i) (sq + word_of_nat i) = Ok ((p # qs) ! i)"
    using qs(4) p(1) by (auto simp: nth_Cons add.assoc split: nat.split)
  then show ?case using qs(1-3) by (intro exI [of _ "p # qs"]) (simp add: add.assoc)
qed

fun consecutive :: "u8 \<Rightarrow> packet list \<Rightarrow> bool" where
  "consecutive sq [] = True"
| "consecutive sq (p # ps) \<longleftrightarrow> pk_sequence_id p = sq \<and> consecutive (sq + 1) ps"

lemma consecutive_append:
  "consecutive sq (ps @ qs) \<longleftrightarrow> consecutive sq ps \<and> consecutive (sq + word_of_nat (length ps)) qs"
  by (induction ps arbitrary: sq) (auto simp: add.assoc)

lemma consecutive_nth:
  "(\<And>i. i < length ps \<Longrightarrow> pk_sequence_id (ps ! i) = sq + word_of_nat i) \<Longrightarrow> consecutive sq ps"
proof (induction ps arbitrary: sq)
  case (Cons p ps)
  have "pk_sequence_id (ps ! i) = sq + 1 + word_of_nat i" if "i < length ps" for i
    using Cons.prems [of "Suc i"] that by (simp add: add.assoc)
  then show ?case using Cons.IH [of "sq + 1"] Cons.prems [of 0] by simp
qed simp

section \<open>Strings and column definitions\<close>

lemma take_lenenc_write:
  assumes "length bs < 2 ^ 64"
  shows "take_lenenc (write_lenenc_bytes bs @ rest) = Some (bs, rest)"
proof -
  have "unat (word_of_nat (length bs) :: u64) = length bs" using assms by (simp add: unat_of_nat)
  then show ?thesis by (simp add: take_lenenc_def write_lenenc_bytes_def read_write_lenenc_int)
qed

lemma take_lenenc_write_str:
  "length s < 2 ^ 64 \<Longrightarrow> take_lenenc (write_lenenc_str s @ rest) = Some (as_bytes s, rest)"
  by (simp add: write_lenenc_str_def take_lenenc_write)

lemma length_write_lenenc_str: "length s \<le> length (write_lenenc_str s)"
  by (simp add: write_lenenc_str_def write_lenenc_bytes_def)

lemma read_column_packet:
  assumes "column_to_packet c sq = Ok p"
  shows "read_column_definition (pk_payload p) = Some c" "pk_sequence_id p = sq" "fits_frame p"
proof -
  have p: "p = packet_of sq (column_payload c)" "length (column_payload c) \<le> MAX_PAYLOAD"
    using assms by (simp_all add: column_to_packet_def guarded_packet_Ok)
  have "length (cdf_name c) \<le> length (column_payload c)"
    using length_write_lenenc_str [of "cdf_name c"] by (simp add: column_payload_def)
  then have n: "length (cdf_name c) < 2 ^ 64" using p(2) by (simp add: MAX_PAYLOAD_def)
  have t: "type_of_code (type_code (cdf_type c)) = Some (cdf_type c)" by (cases "cdf_type c") (simp_all add: type_of_code_def)
  show "read_column_definition (pk_payload p) = Some c"
    using n t by (simp add: p(1) column_payload_def read_column_definition_def take_lenenc_write_str nth_append)
  show "pk_sequence_id p = sq" "fits_frame p" using p by (simp_all add: fits_frame_def)
qed

lemma terminators: "is_terminator (pk_payload (eof_packet flags sq))"
  "is_terminator (pk_payload (deprecate_eof_terminator flags sq))"
  "fits_frame (eof_packet flags sq)" "fits_frame (deprecate_eof_terminator flags sq)"
  "pk_sequence_id (eof_packet flags sq) = sq" "pk_sequence_id (deprecate_eof_terminator flags sq) = sq"
  by (simp_all add: is_terminator_def eof_packet_def deprecate_eof_terminator_def write_lenenc_int_def
      fits_frame_def MAX_PAYLOAD_def)

section \<open>The contract of a row encoder\<close>

locale row_encoding =
  fixes encode_row :: "cell list \<Rightarrow> u8 \<Rightarrow> packet result"
    and decode_row :: "wire_type list \<Rightarrow> u8 list \<Rightarrow> 'r option"
    and shown :: "cell list \<Rightarrow> 'r"
    and row_fits :: "wire_type list \<Rightarrow> cell list \<Rightarrow> bool"
  assumes row_frame: "encode_row cells sq = Ok p \<Longrightarrow> pk_sequence_id p = sq \<and> fits_frame p"
    and row_decoded: "encode_row cells sq = Ok p \<Longrightarrow> row_fits ts cells \<Longrightarrow> decode_row ts (pk_payload p) = Some (shown cells)"
    and row_no_terminator: "encode_row cells sq = Ok p \<Longrightarrow> cells \<noteq> [] \<Longrightarrow> \<not> is_terminator (pk_payload p)"
    and row_no_panic: "\<not> is_panic (encode_row cells sq)"
begin

lemma client_rows_ok:
  assumes "length qs = length rows" "\<forall>i < length rows. encode_row (rows ! i) (f i) = Ok (qs ! i)"
    and "\<forall>row \<in> set rows. row \<noteq> [] \<and> row_fits ts row" "is_terminator (pk_payload t)"
  shows "client_rows (decode_row ts) (qs @ [t]) = Some (map shown rows)"
  using assms(1-3)
proof (induction rows arbitrary: qs f)
  case Nil
  then show ?case using assms(4) by simp
next
  case (Cons row rows)
  then obtain q qs' where qs: "qs = q # qs'" by (cases qs) auto
  have q: "encode_row row (f 0) = Ok q" using Cons.prems(2) qs by (auto dest: spec [of _ 0])
  have "\<forall>i < length rows. encode_row (rows ! i) (f (Suc i)) = Ok (qs' ! i)"
    using Cons.prems(2) qs by (auto dest: spec [of _ "Suc i" for i])
  from Cons.IH [OF _ this] Cons.prems qs have "client_rows (decode_row ts) (qs' @ [t]) = Some (map shown rows)" by simp
  then show ?case using q qs Cons.prems(3) row_no_terminator [OF q] row_decoded [OF q] by simp
qed

text \<open>The packets of a result set, split by part.\<close>

lemma to_packets_parts:
  assumes "to_packets encode_row rs dep flags start = Ok (ps, next)"
  obtains cs qs where
    "ps = packet_of start (write_lenenc_int (word_of_nat (length (rs_columns rs)))) # cs
          @ (if dep then [] else [eof_packet flags (start + 1 + word_of_nat (length cs))]) @ qs
          @ [if dep then deprecate_eof_terminator flags (next - 1) else eof_packet flags (next - 1)]"
    "length cs = length (rs_columns rs)" "length qs = length (rs_rows rs)"
    "\<forall>i < length cs. column_to_packet (rs_columns rs ! i) (start + 1 + word_of_nat i) = Ok (cs ! i)"
    "\<forall>i < length qs. encode_row (rs_rows rs ! i)
        (start + 1 + word_of_nat (length cs) + (if dep then 0 else 1) + word_of_nat i) = Ok (qs ! i)"
    "next = start + 1 + word_of_nat (length cs) + (if dep then 0 else 1) + word_of_nat (length qs) + 1"
proof -
  let ?p0 = "packet_of start (write_lenenc_int (word_of_nat (length (rs_columns rs))))"
  let ?mid = "\<lambda>ps1 sq1. if \<not> dep then (ps1 @ [eof_packet flags sq1], sq1 + 1) else (ps1, sq1)"
  from assms obtain ps1 sq1 ps3 sq3 where
    f: "foldR (push_packet column_to_packet) ([?p0], start + 1) (rs_columns rs) = Ok (ps1, sq1)"
      "foldR (push_packet encode_row) (?mid ps1 sq1) (rs_rows rs) = Ok (ps3, sq3)"
      "ps = ps3 @ [if dep then deprecate_eof_terminator flags sq3 else eof_packet flags sq3]" "next = sq3 + 1"
    by (cases dep) (auto simp: to_packets_def result_simps)
  obtain ps2 sq2 where m: "?mid ps1 sq1 = (ps2, sq2)" by (cases dep) auto
  from push_packets_Ok [OF f(1)] obtain cs where cs: "ps1 = [?p0] @ cs" "length cs = length (rs_columns rs)"
    "sq1 = start + 1 + word_of_nat (length cs)"
    "\<forall>i < length cs. column_to_packet (rs_columns rs ! i) (start + 1 + word_of_nat i) = Ok (cs ! i)"
    by auto
  from push_packets_Ok [OF f(2) [unfolded m]] obtain qs where qs: "ps3 = ps2 @ qs" "length qs = length (rs_rows rs)"
    "sq3 = sq2 + word_of_nat (length qs)" "\<forall>i < length qs. encode_row (rs_rows rs ! i) (sq2 + word_of_nat i) = Ok (qs ! i)"
    by auto
  have sq2: "sq2 = start + 1 + word_of_nat (length cs) + (if dep then 0 else 1)" using m cs(3) by (cases dep) auto
  have ps2: "ps2 = ?p0 # cs @ (if dep then [] else [eof_packet flags (start + 1 + word_of_nat (length cs))])"
    using m cs by (cases dep) auto
  show thesis
    by (rule that [of cs qs]) (use f(3,4) cs(2,4) qs sq2 ps2 in \<open>simp_all add: add_ac\<close>)
qed

lemma to_packets_frames:
  assumes "to_packets encode_row rs dep flags start = Ok (ps, next)"
  shows "list_all fits_frame ps"
proof -
  obtain cs qs where p:
    "ps = packet_of start (write_lenenc_int (word_of_nat (length (rs_columns rs)))) # cs
          @ (if dep then [] else [eof_packet flags (start + 1 + word_of_nat (length cs))]) @ qs
          @ [if dep then deprecate_eof_terminator flags (next - 1) else eof_packet flags (next - 1)]"
    "length cs = length (rs_columns rs)" "length qs = length (rs_rows rs)"
    "\<forall>i < length cs. column_to_packet (rs_columns rs ! i) (start + 1 + word_of_nat i) = Ok (cs ! i)"
    "\<forall>i < length qs. encode_row (rs_rows rs ! i)
        (start + 1 + word_of_nat (length cs) + (if dep then 0 else 1) + word_of_nat i) = Ok (qs ! i)"
    by (rule to_packets_parts [OF assms(1)]) (rule that; assumption)
  have "list_all fits_frame cs" using p(4) read_column_packet(3) by (auto simp: list_all_length)
  moreover have "list_all fits_frame qs" using p(5) row_frame by (auto simp: list_all_length)
  moreover have "fits_frame (packet_of start (write_lenenc_int v))" for v
    by (simp add: fits_frame_def MAX_PAYLOAD_def length_write_lenenc_int)
  ultimately show ?thesis using p(1) terminators by simp
qed

lemma to_packets_sequence:
  assumes "to_packets encode_row rs dep flags start = Ok (ps, next)"
  shows "consecutive start ps" "next = start + word_of_nat (length ps)"
proof -
  obtain cs qs where p:
    "ps = packet_of start (write_lenenc_int (word_of_nat (length (rs_columns rs)))) # cs
          @ (if dep then [] else [eof_packet flags (start + 1 + word_of_nat (length cs))]) @ qs
          @ [if dep then deprecate_eof_terminator flags (next - 1) else eof_packet flags (next - 1)]"
    "length cs = length (rs_columns rs)" "length qs = length (rs_rows rs)"
    "\<forall>i < length cs. column_to_packet (rs_columns rs ! i) (start + 1 + word_of_nat i) = Ok (cs ! i)"
    "\<forall>i < length qs. encode_row (rs_rows rs ! i)
        (start + 1 + word_of_nat (length cs) + (if dep then 0 else 1) + word_of_nat i) = Ok (qs ! i)"
    "next = start + 1 + word_of_nat (length cs) + (if dep then 0 else 1) + word_of_nat (length qs) + 1"
    by (rule to_packets_parts [OF assms(1)]) (rule that; assumption)
  have "consecutive (start + 1) cs" using p(4) read_column_packet(2) by (intro consecutive_nth) auto
  moreover have "consecutive (start + 1 + word_of_nat (length cs) + (if dep then 0 else 1)) qs"
    using p(5) row_frame by (intro consecutive_nth) auto
  ultimately show "consecutive start ps" using p(6)
    by (cases dep) (simp_all add: p(1) consecutive_append terminators add_ac)
  show "next = start + word_of_nat (length ps)" using p(6) by (cases dep) (simp_all add: p(1) add_ac)
qed

lemma client_reads_result_set:
  assumes "to_packets encode_row rs dep flags start = Ok (ps, next)" "length (rs_columns rs) < 2 ^ 64"
    and "\<forall>row \<in> set (rs_rows rs). row \<noteq> [] \<and> row_fits (map cdf_type (rs_columns rs)) row"
  shows "client_result_set decode_row dep ps = Some (rs_columns rs, map shown (rs_rows rs))"
proof -
  let ?n = "length (rs_columns rs)"
  obtain cs qs t where p:
    "ps = packet_of start (write_lenenc_int (word_of_nat ?n)) # cs
          @ (if dep then [] else [eof_packet flags (start + 1 + word_of_nat (length cs))]) @ qs @ [t]"
    "t = (if dep then deprecate_eof_terminator flags (next - 1) else eof_packet flags (next - 1))"
    "length cs = ?n" "length qs = length (rs_rows rs)"
    "\<forall>i < length cs. column_to_packet (rs_columns rs ! i) (start + 1 + word_of_nat i) = Ok (cs ! i)"
    "\<forall>i < length qs. encode_row (rs_rows rs ! i)
        (start + 1 + word_of_nat (length cs) + (if dep then 0 else 1) + word_of_nat i) = Ok (qs ! i)"
    by (rule to_packets_parts [OF assms(1)]) (rule that [OF _ refl]; assumption)
  have n: "unat (word_of_nat ?n :: u64) = ?n" using assms(2) by (simp add: unat_of_nat)
  have "map (read_column_definition \<circ> pk_payload) cs = map Some (rs_columns rs)"
    using p(3,5) read_column_packet(1) by (intro nth_equalityI) auto
  moreover have "those (map Some xs) = Some xs" for xs :: "'x list" by (induction xs) auto
  ultimately have c: "those (map (read_column_definition \<circ> pk_payload) cs) = Some (rs_columns rs)" by metis
  have t: "is_terminator (pk_payload t)" using p(2) terminators by simp
  have "client_rows (decode_row (map cdf_type (rs_columns rs))) (qs @ [t]) = Some (map shown (rs_rows rs))"
    by (rule client_rows_ok [where f = "\<lambda>i. start + 1 + word_of_nat (length cs) + (if dep then 0 else 1) + word_of_nat i"])
       (use p(4,6) assms(3) t in auto)
  then show ?thesis
    using read_write_lenenc_int [of "word_of_nat ?n" "[]"] n c p(3) terminators(1)
    by (simp add: p(1) client_result_set_def)
qed

end

section \<open>Text rows\<close>

lemma concat_member_le: "x \<in> set xs \<Longrightarrow> length (f x) \<le> length (concat (map f xs))"
  by (induction xs) auto

lemma write_lenenc_str_hd:
  assumes "length (write_lenenc_str s) \<le> MAX_PAYLOAD"
  shows "write_lenenc_str s \<noteq> []" "hd (write_lenenc_str s @ rest) \<noteq> 0xfe" "hd (write_lenenc_str s @ rest) \<noteq> 0xfb"
proof -
  have "length s \<le> MAX_PAYLOAD" using assms length_write_lenenc_str [of s] by simp
  then have "unat (word_of_nat (length s) :: u64) \<le> 0xFFFFFF"
    by (simp add: unat_of_nat MAX_PAYLOAD_def)
  note h = hd_write_lenenc_int(1-3) [OF this, of "as_bytes s @ rest"] hd_write_lenenc_int(4) [OF this]
  show "write_lenenc_str s \<noteq> []" using h(4) by (simp add: write_lenenc_str_def write_lenenc_bytes_def)
  show "hd (write_lenenc_str s @ rest) \<noteq> 0xfe" "hd (write_lenenc_str s @ rest) \<noteq> 0xfb"
    using h by (simp_all add: write_lenenc_str_def write_lenenc_bytes_def)
qed

lemma read_text_cells_ok:
  assumes "length (concat (map text_cell_bytes cells)) \<le> MAX_PAYLOAD"
  shows "read_text_cells (length cells) (concat (map text_cell_bytes cells)) = Some (map cell_to_text cells)"
  using assms
proof (induction cells)
  case Nil
  then show ?case by simp
next
  case (Cons c cells)
  then have IH: "read_text_cells (length cells) (concat (map text_cell_bytes cells)) = Some (map cell_to_text cells)" by simp
  show ?case
  proof (cases "cell_to_text c")
    case None
    then show ?thesis using IH by (simp add: text_cell_bytes_def [of c] NULL_MARKER_def)
  next
    case (Some v)
    then have l: "length (write_lenenc_str v) \<le> MAX_PAYLOAD" using Cons.prems by (simp add: text_cell_bytes_def)
    then have v: "length v < 2 ^ 64" using length_write_lenenc_str [of v] by (simp add: MAX_PAYLOAD_def)
    show ?thesis
      using Some IH write_lenenc_str_hd [OF l] take_lenenc_write_str [OF v] by (simp add: text_cell_bytes_def [of c])
  qed
qed

interpretation text_rows: row_encoding encode_text_row read_text_row "map cell_to_text" "\<lambda>ts cells. length ts = length cells"
proof
  fix cells sq p
  assume e: "encode_text_row cells sq = Ok p"
  then have p: "p = packet_of sq (concat (map text_cell_bytes cells))" "length (concat (map text_cell_bytes cells)) \<le> MAX_PAYLOAD"
    by (simp_all add: encode_text_row_def guarded_packet_Ok)
  show "pk_sequence_id p = sq \<and> fits_frame p" using p by (simp add: fits_frame_def)
  show "read_text_row ts (pk_payload p) = Some (map cell_to_text cells)" if "length ts = length cells" for ts
    using p read_text_cells_ok that by (simp add: read_text_row_def)
  show "\<not> is_terminator (pk_payload p)" if ne: "cells \<noteq> []"
  proof -
    obtain c cs where c: "cells = c # cs" using ne by (cases cells) auto
    show ?thesis
    proof (cases "cell_to_text c")
      case None
      then show ?thesis using p(1) c by (simp add: is_terminator_def text_cell_bytes_def NULL_MARKER_def)
    next
      case (Some v)
      then have "length (write_lenenc_str v) \<le> MAX_PAYLOAD" using p(2) c by (simp add: text_cell_bytes_def)
      from write_lenenc_str_hd [OF this] Some show ?thesis using p(1) c by (simp add: is_terminator_def text_cell_bytes_def)
    qed
  qed
next
  show "\<not> is_panic (encode_text_row cells sq)" for cells sq
    unfolding encode_text_row_def by (rule safe_not_panic [OF guarded_packet_safe])
qed

section \<open>Binary rows\<close>

lemma null_bit_set:
  assumes "(i + 2) div 8 < length bm"
  shows "null_bit (bm[(i + 2) div 8 := bm ! ((i + 2) div 8) OR push_bit ((i + 2) mod 8) 1]) j \<longleftrightarrow> null_bit bm j \<or> j = i"
proof (cases "(j + 2) div 8 = (i + 2) div 8")
  case True
  have "j = i \<longleftrightarrow> (j + 2) mod 8 = (i + 2) mod 8"
    using True by (metis add_right_cancel div_mult_mod_eq)
  then show ?thesis using True assms by (auto simp: null_bit_def bit_or_iff bit_exp_iff)
next
  case False
  then show ?thesis using assms by (auto simp: null_bit_def)
qed

lemma set_null_bits:
  assumes "\<forall>i < length cs. (k + i + 2) div 8 < length bm"
  shows "\<exists>bm'. foldR set_null_bit bm (enumerate k cs) = Ok bm' \<and> length bm' = length bm
    \<and> (\<forall>j. null_bit bm' j \<longleftrightarrow> null_bit bm j \<or> (k \<le> j \<and> j < k + length cs \<and> cs ! (j - k) = CellNull))"
  using assms
proof (induction cs arbitrary: k bm)
  case Nil
  then show ?case by auto
next
  case (Cons c cs)
  have k: "(k + 2) div 8 < length bm" using Cons.prems by (auto dest: spec [of _ 0])
  define bm1 where "bm1 = (if c = CellNull then bm[(k + 2) div 8 := bm ! ((k + 2) div 8) OR push_bit ((k + 2) mod 8) 1] else bm)"
  have step: "set_null_bit bm (k, c) = Ok bm1" using k by (simp add: set_null_bit_def bm1_def)
  have l1: "length bm1 = length bm" by (simp add: bm1_def)
  have n1: "null_bit bm1 j \<longleftrightarrow> null_bit bm j \<or> (j = k \<and> c = CellNull)" for j
    using null_bit_set [OF k, of j] by (auto simp: bm1_def)
  have "\<forall>i < length cs. (Suc k + i + 2) div 8 < length bm1"
    using Cons.prems l1 by (auto dest: spec [of _ "Suc i" for i])
  from Cons.IH [OF this] obtain bm' where bm': "foldR set_null_bit bm1 (enumerate (Suc k) cs) = Ok bm'" "length bm' = length bm1"
    "\<forall>j. null_bit bm' j \<longleftrightarrow> null_bit bm1 j \<or> (Suc k \<le> j \<and> j < Suc k + length cs \<and> cs ! (j - Suc k) = CellNull)" by auto
  have split: "(k \<le> j \<and> j < k + length (c # cs) \<and> (c # cs) ! (j - k) = CellNull) \<longleftrightarrow>
      (j = k \<and> c = CellNull) \<or> (Suc k \<le> j \<and> j < Suc k + length cs \<and> cs ! (j - Suc k) = CellNull)" for j
    by (cases "j = k") (auto simp: nth_Cons' Suc_le_eq)
  show ?case using step bm' l1 by (intro exI [of _ bm']) (simp only: enumerate_simps foldR.simps bindR.simps n1 split simp_thms disj_assoc)
qed

lemma null_bitmap_ok:
  "\<exists>bm. null_bitmap cells = Ok bm \<and> length bm = (length cells + 9) div 8
     \<and> (\<forall>j < length cells. null_bit bm j \<longleftrightarrow> cells ! j = CellNull)"
proof -
  let ?k = "(length cells + 9) div 8"
  have r: "(i + 2) div 8 < ?k" if "i < length cells" for i using that by linarith
  then have "\<forall>i < length cells. (0 + i + 2) div 8 < length (replicate ?k (0 :: u8))" by simp
  from set_null_bits [OF this] obtain bm where bm: "foldR set_null_bit (replicate ?k 0) (enumerate 0 cells) = Ok bm" "length bm = ?k"
    "\<forall>j. null_bit bm j \<longleftrightarrow> null_bit (replicate ?k 0) j \<or> (0 \<le> j \<and> j < 0 + length cells \<and> cells ! (j - 0) = CellNull)" by auto
  have "\<not> null_bit (replicate ?k 0) j" if "j < length cells" for j using r [OF that] by (simp add: null_bit_def)
  moreover have "null_bitmap cells = foldR set_null_bit (replicate ?k 0) (enumerate 0 cells)"
    by (simp add: null_bitmap_def add.commute)
  ultimately show ?thesis using bm by (intro exI [of _ bm]) simp
qed

fun cell_fits :: "wire_type \<Rightarrow> cell \<Rightarrow> bool" where
  "cell_fits t CellNull = True"
| "cell_fits LongLong (CellInt n) = True"
| "cell_fits VarString (CellText s) = True"
| "cell_fits _ _ = False"

lemma read_binary_cells_ok:
  assumes "\<forall>j < length cells. null_bit bm (i + j) \<longleftrightarrow> cells ! j = CellNull" "list_all2 cell_fits ts cells"
    "length (concat (map binary_cell_bytes cells)) < 2 ^ 64"
  shows "read_binary_cells bm i ts (concat (map binary_cell_bytes cells)) = Some cells"
  using assms
proof (induction cells arbitrary: i ts)
  case Nil
  then show ?case by simp
next
  case (Cons c cells)
  then obtain t ts' where ts: "ts = t # ts'" "cell_fits t c" "list_all2 cell_fits ts' cells" by (auto simp: list_all2_Cons2)
  have "\<forall>j < length cells. null_bit bm (Suc i + j) \<longleftrightarrow> cells ! j = CellNull"
    using Cons.prems(1) by (auto dest: spec [of _ "Suc j" for j])
  from Cons.IH [OF this ts(3)] Cons.prems(3)
  have IH: "read_binary_cells bm (Suc i) ts' (concat (map binary_cell_bytes cells)) = Some cells" by simp
  have b: "null_bit bm i \<longleftrightarrow> c = CellNull" using Cons.prems(1) by (auto dest: spec [of _ 0])
  show ?case
  proof (cases c)
    case (CellInt n)
    then show ?thesis using ts IH b by (cases t) simp_all
  next
    case (CellText v)
    then have "length v < 2 ^ 64" using Cons.prems(3) length_write_lenenc_str [of v] by simp
    with CellText show ?thesis using ts IH b by (cases t) (simp_all add: take_lenenc_write_str)
  next
    case CellNull
    then show ?thesis using ts IH b by simp
  qed
qed

interpretation binary_rows: row_encoding encode_binary_row read_binary_row "\<lambda>cells. cells" "list_all2 cell_fits"
proof
  fix cells sq
  obtain bm where bm: "null_bitmap cells = Ok bm" "length bm = (length cells + 9) div 8"
    "\<forall>j < length cells. null_bit bm j \<longleftrightarrow> cells ! j = CellNull"
    using null_bitmap_ok [of cells] by auto
  let ?vs = "concat (map binary_cell_bytes cells)"
  show "\<not> is_panic (encode_binary_row cells sq)"
    by (simp add: encode_binary_row_def bm(1) safe_not_panic [OF guarded_packet_safe])
  fix p
  assume "encode_binary_row cells sq = Ok p"
  then have p: "p = packet_of sq (0 # bm @ ?vs)" "length (0 # bm @ ?vs) \<le> MAX_PAYLOAD"
    using bm(1) by (simp_all add: encode_binary_row_def guarded_packet_Ok)
  show "pk_sequence_id p = sq \<and> fits_frame p" using p by (simp add: fits_frame_def)
  show "\<not> is_terminator (pk_payload p)" using p(1) by (simp add: is_terminator_def)
  show "read_binary_row ts (pk_payload p) = Some cells" if t: "list_all2 cell_fits ts cells" for ts
  proof -
    have "read_binary_cells bm 0 ts ?vs = Some cells"
      by (rule read_binary_cells_ok) (use bm(3) t p(2) in \<open>simp_all add: MAX_PAYLOAD_def\<close>)
    then show ?thesis using p(1) bm(2) list_all2_lengthD [OF t] by (simp add: read_binary_row_def)
  qed
qed

section \<open>Result sets reach the client\<close>

text \<open>
  Claim (C37). Result sets on the wire.  Whenever encoding a result set into the output buffer
  succeeds, the bytes appended are well-formed frames with consecutive sequence ids that wrap at
  256, ending at the id returned, the same frames that the packet-level encoder produces, and a
  client that reads them gets back the column names and types and exactly the cells of every row:
  in the text protocol as text or NULL, in the binary protocol as the cells themselves when each
  cell has the type of its column.  No row is mistaken for the terminator.
\<close>

theorem result_set_reaches_client:
  assumes "length (rs_columns rs) < 2 ^ 64" "\<forall>row \<in> set (rs_rows rs). row \<noteq> []"
  shows "(encode_text_into rs out dep flags start = Ok (out', next)
        \<and> (\<forall>row \<in> set (rs_rows rs). length row = length (rs_columns rs)) \<longrightarrow>
      (\<exists>ps. to_text_packets rs dep flags start = Ok (ps, next)
        \<and> take (length out) out' = out \<and> split_frames (drop (length out) out') = Some ps
        \<and> consecutive start ps \<and> next = start + word_of_nat (length ps)
        \<and> client_result_set read_text_row dep ps = Some (rs_columns rs, map (map cell_to_text) (rs_rows rs))))
    \<and> (encode_binary_into rs out dep flags start = Ok (out', next)
        \<and> (\<forall>row \<in> set (rs_rows rs). list_all2 cell_fits (map cdf_type (rs_columns rs)) row) \<longrightarrow>
      (\<exists>ps. to_binary_packets rs dep flags start = Ok (ps, next)
        \<and> take (length out) out' = out \<and> split_frames (drop (length out) out') = Some ps
        \<and> consecutive start ps \<and> next = start + word_of_nat (length ps)
        \<and> client_result_set read_binary_row dep ps = Some (rs_columns rs, rs_rows rs)))"
proof (intro conjI impI)
  assume t: "encode_text_into rs out dep flags start = Ok (out', next)
      \<and> (\<forall>row \<in> set (rs_rows rs). length row = length (rs_columns rs))"
  then obtain ps where ps: "to_packets encode_text_row rs dep flags start = Ok (ps, next)"
      "out' = out @ concat (map encode_packet ps)"
    by (auto simp: encode_text_into_def encode_result_set_eq result_simps)
  then show "\<exists>ps. to_text_packets rs dep flags start = Ok (ps, next)
        \<and> take (length out) out' = out \<and> split_frames (drop (length out) out') = Some ps
        \<and> consecutive start ps \<and> next = start + word_of_nat (length ps)
        \<and> client_result_set read_text_row dep ps = Some (rs_columns rs, map (map cell_to_text) (rs_rows rs))"
    using assms t text_rows.to_packets_frames [OF ps(1)] text_rows.to_packets_sequence [OF ps(1)]
    by (intro exI [of _ ps]) (simp add: to_text_packets_def split_frames_encode text_rows.client_reads_result_set)
next
  assume t: "encode_binary_into rs out dep flags start = Ok (out', next)
      \<and> (\<forall>row \<in> set (rs_rows rs). list_all2 cell_fits (map cdf_type (rs_columns rs)) row)"
  then obtain ps where ps: "to_packets encode_binary_row rs dep flags start = Ok (ps, next)"
      "out' = out @ concat (map encode_packet ps)"
    by (auto simp: encode_binary_into_def encode_result_set_eq result_simps)
  then show "\<exists>ps. to_binary_packets rs dep flags start = Ok (ps, next)
        \<and> take (length out) out' = out \<and> split_frames (drop (length out) out') = Some ps
        \<and> consecutive start ps \<and> next = start + word_of_nat (length ps)
        \<and> client_result_set read_binary_row dep ps = Some (rs_columns rs, rs_rows rs)"
    using assms t binary_rows.to_packets_frames [OF ps(1)] binary_rows.to_packets_sequence [OF ps(1)]
    by (intro exI [of _ ps]) (simp add: to_binary_packets_def split_frames_encode binary_rows.client_reads_result_set)
qed

theorem result_set_reaches_client_witness:
  "\<exists>out next ps. encode_binary_into \<lparr>rs_columns = [\<lparr>cdf_name = ''a'', cdf_type = LongLong\<rparr>], rs_rows = [[CellInt 5], [CellNull]]\<rparr>
       [] True 2 1 = Ok (out, next)
     \<and> split_frames out = Some ps
     \<and> client_result_set read_binary_row True ps =
         Some ([\<lparr>cdf_name = ''a'', cdf_type = LongLong\<rparr>], [[CellInt 5], [CellNull]])"
proof -
  let ?rs = "\<lparr>rs_columns = [\<lparr>cdf_name = ''a'', cdf_type = LongLong\<rparr>], rs_rows = [[CellInt 5], [CellNull]]\<rparr>"
  have "\<exists>out next. encode_binary_into ?rs [] True 2 1 = Ok (out, next)"
    by (simp add: encode_binary_into_def encode_result_set_def push_bytes_def column_to_packet_def column_payload_def
        encode_binary_row_def null_bitmap_def set_null_bit_def guarded_packet_def guard_payload_size_def MAX_PAYLOAD_def
        write_lenenc_str_def write_lenenc_bytes_def write_lenenc_int_def)
  then obtain out nx where e: "encode_binary_into ?rs [] True 2 1 = Ok (out, nx)" by blast
  then show ?thesis
    using result_set_reaches_client [of ?rs "[]" True 2 1 out nx] by auto
qed

end
