(* ===== verification/Wire_Requests.thy ===== *)
theory Wire_Requests
  imports Wire_Messages
begin

text \<open>
  What the server reads from a client: the parameters of COM\_STMT\_EXECUTE
  (\<^verbatim>\<open>src/src/protocol/prepared.rs\<close>) and the HandshakeResponse41
  (\<^verbatim>\<open>src/src/protocol/handshake.rs\<close>).  Both are total on hostile input: a value or an error of the
  protocol, never a panic.
\<close>

section \<open>Parameters of a prepared statement\<close>

definition hex_digit :: "nat \<Rightarrow> char" where
  "hex_digit d = (if d < 10 then char_of (48 + d) else char_of (87 + d))"

text \<open>\<^verbatim>\<open>{:#x}\<close> of a \<^verbatim>\<open>u8\<close>.\<close>

definition show_hex_u8 :: "u8 \<Rightarrow> string" where
  "show_hex_u8 b =
     ''0x'' @ (if unat b < 16 then [hex_digit (unat b)] else [hex_digit (unat b div 16), hex_digit (unat b mod 16)])"

definition is_null :: "u8 list \<Rightarrow> nat \<Rightarrow> bool" where
  "is_null bitmap i = (case get_at bitmap (i div 8) of Some byte \<Rightarrow> byte AND push_bit (i mod 8) 1 \<noteq> 0 | None \<Rightarrow> False)"

definition truncated :: exn where
  "truncated = proto_err ''COM_STMT_EXECUTE: truncated parameter value''"

definition string_types :: "u8 set" where
  "string_types = {0xfe, 0xfd, 0x0f, 0xfc}"

definition decode_binary_value :: "u8 list \<Rightarrow> u8 \<Rightarrow> (cell \<times> nat) result" where
  "decode_binary_value buf ty =
     (if ty = 0x06 then Ok (CellNull, 0)
      else if ty = 0x01 then
        bindR (ok_or truncated (get_at buf 0)) (\<lambda>b. Ok (CellInt (scast b), 1))
      else if ty = 0x02 then
        bindR (ok_or truncated (get_range buf 0 2)) (\<lambda>b. Ok (CellInt (scast (u16_from_le b)), 2))
      else if ty = 0x03 then
        bindR (ok_or truncated (get_range buf 0 4)) (\<lambda>b. Ok (CellInt (scast (u32_from_le b)), 4))
      else if ty = 0x08 then
        bindR (ok_or truncated (get_range buf 0 8)) (\<lambda>b. Ok (CellInt (u64_from_le b), 8))
      else if ty \<in> string_types then
        bindR (read_lenenc_int buf) (\<lambda>(len, len_size).
        let start = len_size in
        bindR (ok_or (proto_err ''COM_STMT_EXECUTE: string length overflow'') (checked_add_usize start (unat len))) (\<lambda>fin.
        bindR (ok_or (proto_err ''COM_STMT_EXECUTE: truncated string value'') (get_range buf start fin)) (\<lambda>bytes.
        bindR (ok_or (proto_err ''COM_STMT_EXECUTE: non-UTF-8 string parameter'') (from_utf8 bytes)) (\<lambda>s.
        Ok (CellText s, fin)))))
      else Inl (proto_err (''COM_STMT_EXECUTE: unsupported parameter type '' @ show_hex_u8 ty)))"

fun read_param_types :: "u8 list \<Rightarrow> nat \<Rightarrow> nat \<Rightarrow> (u8 list \<times> nat) result" where
  "read_param_types payload pos 0 = Ok ([], pos)"
| "read_param_types payload pos (Suc n) =
     bindR (ok_or (proto_err ''COM_STMT_EXECUTE: truncated parameter type'') (get_range payload pos (pos + 2))) (\<lambda>pair.
     bindR (index_at pair 0) (\<lambda>t.
     bindR (read_param_types payload (pos + 2) n) (\<lambda>(types, pos'). Ok (t # types, pos'))))"

text \<open>\<^verbatim>\<open>bytes.get(a..)\<close>.\<close>

definition get_from :: "'a list \<Rightarrow> nat \<Rightarrow> 'a list option" where
  "get_from bs a = (if a \<le> length bs then Some (drop a bs) else None)"

fun read_params :: "u8 list \<Rightarrow> u8 list \<Rightarrow> nat \<Rightarrow> nat \<Rightarrow> u8 list \<Rightarrow> cell list result" where
  "read_params payload bitmap pos i [] = Ok []"
| "read_params payload bitmap pos i (ty # types) =
     (if is_null bitmap i then map_result (Cons CellNull) (read_params payload bitmap pos (Suc i) types)
      else
        bindR (ok_or truncated (get_from payload pos)) (\<lambda>rest.
        bindR (decode_binary_value rest ty) (\<lambda>(cell, consumed).
        map_result (Cons cell) (read_params payload bitmap (pos + consumed) (Suc i) types))))"

definition parse_execute_params :: "u8 list \<Rightarrow> nat \<Rightarrow> cell list result" where
  "parse_execute_params payload num_params =
     (if num_params = 0 then Ok []
      else
        let pos = 10; bitmap_len = (num_params + 7) div 8 in
        bindR (ok_or (proto_err ''COM_STMT_EXECUTE: truncated NULL bitmap'') (get_range payload pos (pos + bitmap_len))) (\<lambda>bitmap.
        let pos = pos + bitmap_len in
        bindR (ok_or (proto_err ''COM_STMT_EXECUTE: missing new-params-bound flag'') (get_at payload pos)) (\<lambda>new_params_bound.
        let pos = pos + 1 in
        if new_params_bound \<noteq> 1
        then Inl (proto_err ''COM_STMT_EXECUTE without freshly-bound parameter types is not supported'')
        else
          bindR (read_param_types payload pos num_params) (\<lambda>(types, pos).
          read_params payload bitmap pos 0 types))))"

subsection \<open>No panic\<close>

lemma decode_binary_value_safe: "safe (\<lambda>_. True) (decode_binary_value buf ty)"
  unfolding decode_binary_value_def Let_def truncated_def
  by (intro safe_intros) (auto intro: safe_mono [OF read_lenenc_int_safe])

lemma read_param_types_safe: "safe (\<lambda>(types, _). length types = n) (read_param_types payload pos n)"
proof (induction n arbitrary: pos)
  case (Suc n)
  have i: "safe (\<lambda>t. True) (index_at pair 0)" if "get_range payload pos (pos + 2) = Some pair" for pair
    using get_range_SomeD [OF that] by (intro safe_index) simp_all
  have r: "safe (\<lambda>(types, _). length types = Suc n)
      (bindR (read_param_types payload (pos + 2) n) (\<lambda>(types, pos'). Ok (t # types, pos')))" for t
    by (rule safe_bind [OF Suc]) auto
  show ?case
    unfolding read_param_types.simps
    by (rule safe_bindT, rule safe_ok_or, simp, simp, rule safe_bindT) (use i r in \<open>auto simp: ok_or_Ok_iff\<close>)
qed simp

lemma read_params_safe: "safe (\<lambda>cells. length cells = length types) (read_params payload bitmap pos i types)"
proof (induction types arbitrary: pos i)
  case (Cons ty types)
  have "safe (\<lambda>cells. length (c # cells) = length (ty # types)) (read_params payload bitmap p (Suc i) types)" for p c
    using Cons by simp
  then show ?case
    by (auto simp: truncated_def intro!: safe_map safe_bind [where Q = "\<lambda>_. True"] safe_ok_or decode_binary_value_safe)
qed simp

lemma parse_execute_params_safe: "safe (\<lambda>cells. length cells = n) (parse_execute_params payload n)"
proof -
  have "safe (\<lambda>cells. length cells = n)
      (bindR (read_param_types payload pos n) (\<lambda>(types, pos). read_params payload bitmap pos 0 types))" for pos bitmap
    by (rule safe_bind [OF read_param_types_safe]) (auto intro: safe_mono [OF read_params_safe])
  then show ?thesis
    unfolding parse_execute_params_def Let_def by (auto intro!: safe_bind [where Q = "\<lambda>_. True"] safe_ok_or)
qed

subsection \<open>Every client encoding is decoded\<close>

text \<open>
  How a client may send a value that is not NULL: an integer as a little-endian two's complement
  number of any width that holds it, a string as a length-encoded string under any string type.
\<close>

fun param_encodings :: "cell \<Rightarrow> (u8 \<times> u8 list) set" where
  "param_encodings (CellInt n) =
     {(ty, bs). (ty = 0x01 \<and> (\<exists>b :: 8 word. n = scast b \<and> bs = [b]))
        \<or> (ty = 0x02 \<and> (\<exists>w :: 16 word. n = scast w \<and> bs = u16_le w))
        \<or> (ty = 0x03 \<and> (\<exists>w :: 32 word. n = scast w \<and> bs = u32_le w))
        \<or> (ty = 0x08 \<and> bs = u64_le n)}"
| "param_encodings (CellText s) = {(ty, bs). ty \<in> string_types \<and> bs = write_lenenc_str s}"
| "param_encodings CellNull = {(ty, bs). ty = 0x06 \<and> bs = []}"

lemma decode_string_value:
  assumes "str_ok s" "length s + 9 < 2 ^ 64" "ty \<in> string_types"
  shows "decode_binary_value (write_lenenc_str s @ rest) ty = Ok (CellText s, length (write_lenenc_str s))"
proof -
  let ?n = "word_of_nat (length s) :: u64"
  have n: "unat ?n = length s" using assms(2) by (simp add: unat_of_nat)
  have l: "length (write_lenenc_int ?n) \<le> 9" by (simp add: length_write_lenenc_int)
  have r: "read_lenenc_int (write_lenenc_str s @ rest) = Ok (?n, length (write_lenenc_int ?n))"
    by (simp add: write_lenenc_str_def write_lenenc_bytes_def read_write_lenenc_int)
  have c: "checked_add_usize (length (write_lenenc_int ?n)) (unat ?n) = Some (length (write_lenenc_str s))"
    using n l assms(2) by (simp add: checked_add_usize_def write_lenenc_str_def write_lenenc_bytes_def)
  have g: "get_range (write_lenenc_str s @ rest) (length (write_lenenc_int ?n)) (length (write_lenenc_str s)) = Some (as_bytes s)"
    by (simp add: write_lenenc_str_def write_lenenc_bytes_def)
  have "ty \<noteq> 0x06" "ty \<noteq> 0x01" "ty \<noteq> 0x02" "ty \<noteq> 0x03" "ty \<noteq> 0x08" using assms(3) by (auto simp: string_types_def)
  then show ?thesis
    using assms(1,3) r c g by (simp add: decode_binary_value_def from_utf8_as_bytes)
qed

lemma decode_param:
  assumes "(ty, bs) \<in> param_encodings c" "case c of CellText s \<Rightarrow> str_ok s \<and> length s + 9 < 2 ^ 64 | _ \<Rightarrow> True"
  shows "decode_binary_value (bs @ rest) ty = Ok (c, length bs)"
proof (cases c)
  case (CellInt n)
  then show ?thesis using assms(1)
    by (auto simp: decode_binary_value_def string_types_def get_range_prefix)
next
  case (CellText s)
  then show ?thesis using assms decode_string_value by simp
next
  case CellNull
  then show ?thesis using assms(1) by (simp add: decode_binary_value_def)
qed

lemma read_params_encoded:
  assumes "length cells = length types" "length vals = length types"
    and "\<forall>j < length cells. is_null bm (i + j) \<and> cells ! j = CellNull \<and> vals ! j = []
      \<or> \<not> is_null bm (i + j) \<and> (types ! j, vals ! j) \<in> param_encodings (cells ! j)
        \<and> (case cells ! j of CellText s \<Rightarrow> str_ok s \<and> length s + 9 < 2 ^ 64 | _ \<Rightarrow> True)"
  shows "read_params (pre @ concat vals) bm (length pre) i types = Ok cells"
  using assms
proof (induction types arbitrary: i cells vals pre)
  case Nil
  then show ?case by simp
next
  case (Cons ty types)
  obtain c cells' where c: "cells = c # cells'" using Cons.prems(1) by (cases cells) auto
  obtain v vals' where v: "vals = v # vals'" using Cons.prems(2) by (cases vals) auto
  have hd: "is_null bm i \<and> c = CellNull \<and> v = [] \<or> \<not> is_null bm i \<and> (ty, v) \<in> param_encodings c
      \<and> (case c of CellText s \<Rightarrow> str_ok s \<and> length s + 9 < 2 ^ 64 | _ \<Rightarrow> True)"
    using Cons.prems(3) [rule_format, of 0] c v by simp
  have tl: "read_params ((pre @ v) @ concat vals') bm (length (pre @ v)) (Suc i) types = Ok cells'"
    using Cons.prems c v Cons.prems(3) [rule_format, of "Suc j" for j] by (intro Cons.IH) auto
  show ?case
  proof (cases "is_null bm i")
    case True
    then show ?thesis using hd tl c v by simp
  next
    case False
    then have "decode_binary_value (v @ concat vals') ty = Ok (c, length v)" using hd by (intro decode_param) auto
    then show ?thesis using False tl c v by (simp add: get_from_def)
  qed
qed

lemma read_param_types_encoded:
  "length pairs = n \<Longrightarrow>
   read_param_types (pre @ concat (map (\<lambda>(t, u). [t, u]) pairs) @ post) (length pre) n =
     Ok (map fst pairs, length pre + 2 * n)"
proof (induction n arbitrary: pre pairs)
  case 0
  then show ?case by simp
next
  case (Suc n)
  then obtain t u ps where p: "pairs = (t, u) # ps" "length ps = n" by (cases pairs) auto
  have "read_param_types ((pre @ [t, u]) @ concat (map (\<lambda>(t, u). [t, u]) ps) @ post) (length (pre @ [t, u])) n =
      Ok (map fst ps, length (pre @ [t, u]) + 2 * n)"
    by (rule Suc.IH) (rule p(2))
  then show ?case using p(1) by (simp add: get_range_def)
qed

text \<open>
  Claim (C40). Parameters of COM\_STMT\_EXECUTE.  On any payload, however malformed, decoding returns
  the right number of values or an error, never a panic.  On the payload of any client that sends a
  ten-byte header, a bitmap with bit \<open>i\<close> set exactly for NULL parameters, the flag, a type for each
  parameter and the encoded values in order, decoding returns the values the client sent.
\<close>

theorem execute_params_decoded:
  assumes "length header = 10" "length bitmap = (n + 7) div 8" "0 < n"
    and "length cells = n" "length types = n" "length vals = n"
    and "\<forall>i < n. if is_null bitmap i then cells ! i = CellNull \<and> vals ! i = []
         else (fst (types ! i), vals ! i) \<in> param_encodings (cells ! i)
           \<and> (case cells ! i of CellText s \<Rightarrow> str_ok s \<and> length s + 9 < 2 ^ 64 | _ \<Rightarrow> True)"
  shows "parse_execute_params (header @ bitmap @ [1] @ concat (map (\<lambda>(t, u). [t, u]) types) @ concat vals) n = Ok cells
    \<and> \<not> is_panic (parse_execute_params payload m)"
proof
  let ?pre = "header @ bitmap @ [1]" and ?tys = "concat (map (\<lambda>(t, u). [t, u]) types)"
  have lt: "length ?tys = 2 * n"
    using assms(5) by (induction types arbitrary: n) auto
  have b: "get_range (header @ bitmap @ [1] @ ?tys @ concat vals) 10 (10 + (n + 7) div 8) = Some bitmap"
    using get_range_append [of header bitmap] assms(1,2) by simp
  have f: "get_at (header @ bitmap @ [1] @ ?tys @ concat vals) (10 + (n + 7) div 8) = Some 1"
    using assms(1,2) by (simp add: get_at_def nth_append)
  have t: "read_param_types (header @ bitmap @ [1] @ ?tys @ concat vals) (10 + (n + 7) div 8 + 1) n =
      Ok (map fst types, length (?pre @ ?tys))"
    using read_param_types_encoded [OF assms(5), of ?pre "concat vals"] assms(1,2) lt by simp
  have p: "read_params ((?pre @ ?tys) @ concat vals) bitmap (length (?pre @ ?tys)) 0 (map fst types) = Ok cells"
    by (rule read_params_encoded) (use assms(4-7) in \<open>auto split: if_splits\<close>)
  show "parse_execute_params (header @ bitmap @ [1] @ ?tys @ concat vals) n = Ok cells"
    using assms(3) b f t p by (simp add: parse_execute_params_def)
  show "\<not> is_panic (parse_execute_params payload m)"
    by (rule safe_not_panic [OF parse_execute_params_safe])
qed

theorem execute_params_decoded_witness:
  "parse_execute_params (replicate 10 0 @ [2] @ [1] @ concat (map (\<lambda>(t, u). [t, u]) [(0x01, 0), (0x06, 0), (0xfd, 0)])
      @ concat [[0xff], [], write_lenenc_str ''hi'']) 3 = Ok [CellInt (- 1), CellNull, CellText ''hi'']"
proof -
  have s: "str_ok ''hi''" by (intro str_ok_ascii) (simp add: is_ascii_def)
  have m: "(scast (0xff :: 8 word) :: 64 word) = - 1" by simp
  have n: "is_null [2] 0 = False" "is_null [2] 1 = True" "is_null [2] 2 = False" by (simp_all add: is_null_def)
  have three: "(\<forall>i < 3. P i) \<longleftrightarrow> P 0 \<and> P 1 \<and> P 2" for P :: "nat \<Rightarrow> bool"
    by (auto simp: numeral_3_eq_3 numeral_2_eq_2 less_Suc_eq)
  have "\<forall>i < 3. if is_null [2] i then [CellInt (- 1), CellNull, CellText ''hi''] ! i = CellNull
        \<and> [[0xff], [], write_lenenc_str ''hi''] ! i = []
      else (fst ([(0x01, 0), (0x06, 0), (0xfd, 0)] ! i), [[0xff], [], write_lenenc_str ''hi''] ! i)
          \<in> param_encodings ([CellInt (- 1), CellNull, CellText ''hi''] ! i)
        \<and> (case [CellInt (- 1), CellNull, CellText ''hi''] ! i of CellText s \<Rightarrow> str_ok s \<and> length s + 9 < 2 ^ 64 | _ \<Rightarrow> True)"
    unfolding three using s m n by (simp add: string_types_def)
  from execute_params_decoded [OF _ _ _ _ _ _ this, of "replicate 10 0" "[]" 0]
  show ?thesis by simp
qed

section \<open>The handshake response\<close>

record handshake_response =
  hr_capability_flags :: u32
  hr_max_packet_size :: u32
  hr_character_set :: u8
  hr_username :: string
  hr_auth_response :: "u8 list"
  hr_database :: "string option"
  hr_auth_plugin_name :: "string option"

definition read_nul_terminated_bytes :: "u8 list \<Rightarrow> nat \<Rightarrow> (u8 list \<times> nat) result" where
  "read_nul_terminated_bytes buf start =
     bindR (ok_or (proto_err ''unexpected end of handshake response'') (get_from buf start)) (\<lambda>rest.
     bindR (ok_or (proto_err ''expected NUL-terminated data, found none'') (position (\<lambda>b. b = 0) rest)) (\<lambda>fin.
     Ok (take fin rest, start + fin + 1)))"

definition read_nul_terminated_str :: "u8 list \<Rightarrow> nat \<Rightarrow> (string \<times> nat) result" where
  "read_nul_terminated_str buf start =
     bindR (read_nul_terminated_bytes buf start) (\<lambda>(bytes, next).
     bindR (ok_or (proto_err ''expected a UTF-8 string in handshake response'') (from_utf8 bytes)) (\<lambda>s.
     Ok (s, next)))"

definition length_overflow :: exn where
  "length_overflow = proto_err ''handshake response: length overflow''"

definition read_auth_response :: "u8 list \<Rightarrow> u32 \<Rightarrow> nat \<Rightarrow> (u8 list \<times> nat) result" where
  "read_auth_response payload capability_flags pos =
     (if has_flag capability_flags CLIENT_PLUGIN_AUTH_LENENC_CLIENT_DATA then
        bindR (ok_or (proto_err ''handshake response: missing auth-response'') (get_from payload pos)) (\<lambda>rest.
        bindR (read_lenenc_int rest) (\<lambda>(len, consumed).
        bindR (ok_or length_overflow (checked_add_usize pos consumed)) (\<lambda>pos.
        bindR (ok_or length_overflow (checked_add_usize pos (unat len))) (\<lambda>fin.
        bindR (ok_or (proto_err ''handshake response: truncated auth-response'') (get_range payload pos fin)) (\<lambda>bytes.
        Ok (bytes, fin))))))
      else if has_flag capability_flags CLIENT_SECURE_CONNECTION then
        bindR (ok_or (proto_err ''handshake response: missing auth-response length'') (get_at payload pos)) (\<lambda>len.
        bindR (ok_or length_overflow (checked_add_usize pos 1)) (\<lambda>pos.
        bindR (ok_or length_overflow (checked_add_usize pos (unat len))) (\<lambda>fin.
        bindR (ok_or (proto_err ''handshake response: truncated auth-response'') (get_range payload pos fin)) (\<lambda>bytes.
        Ok (bytes, fin)))))
      else read_nul_terminated_bytes payload pos)"

definition read_optional_str :: "bool \<Rightarrow> u8 list \<Rightarrow> nat \<Rightarrow> (string option \<times> nat) result" where
  "read_optional_str present payload pos =
     (if present then map_result (\<lambda>(s, next). (Some s, next)) (read_nul_terminated_str payload pos)
      else Ok (None, pos))"

definition parse_handshake_response :: "u8 list \<Rightarrow> handshake_response result" where
  "parse_handshake_response payload =
     (if length payload < 32
      then Inl (proto_err (''handshake response too short: '' @ show_nat (length payload) @ '' byte(s), need at least 32''))
      else
        bindR (index_at payload 8) (\<lambda>character_set.
        let capability_flags = u32_from_le (take 4 payload);
            max_packet_size = u32_from_le (take 4 (drop 4 payload))
        in
        if \<not> has_flag capability_flags CLIENT_PROTOCOL_41
        then Inl (proto_err ''client did not advertise CLIENT_PROTOCOL_41; the pre-4.1 protocol is not supported'')
        else
          bindR (read_nul_terminated_str payload 32) (\<lambda>(username, pos).
          bindR (read_auth_response payload capability_flags pos) (\<lambda>(auth_response, pos).
          bindR (read_optional_str (has_flag capability_flags CLIENT_CONNECT_WITH_DB) payload pos) (\<lambda>(database, pos).
          bindR (read_optional_str (has_flag capability_flags CLIENT_PLUGIN_AUTH) payload pos) (\<lambda>(auth_plugin_name, pos).
          Ok \<lparr>hr_capability_flags = capability_flags, hr_max_packet_size = max_packet_size,
              hr_character_set = character_set, hr_username = username, hr_auth_response = auth_response,
              hr_database = database, hr_auth_plugin_name = auth_plugin_name\<rparr>)))))) "

subsection \<open>Total on every payload\<close>

lemma read_nul_bytes_safe: "safe (\<lambda>_. True) (read_nul_terminated_bytes buf start)"
  unfolding read_nul_terminated_bytes_def by (intro safe_intros) simp_all

lemma read_nul_str_safe: "safe (\<lambda>_. True) (read_nul_terminated_str buf start)"
  unfolding read_nul_terminated_str_def by (intro safe_intros read_nul_bytes_safe) simp_all

lemma read_auth_response_safe: "safe (\<lambda>_. True) (read_auth_response payload flags pos)"
  unfolding read_auth_response_def length_overflow_def
  by (intro safe_intros read_nul_bytes_safe safe_mono [OF read_lenenc_int_safe]) simp_all

lemma read_optional_str_safe: "safe (\<lambda>_. True) (read_optional_str b payload pos)"
  unfolding read_optional_str_def by (auto intro!: safe_map safe_mono [OF read_nul_str_safe])

lemma parse_handshake_response_safe:
  "safe (\<lambda>r. has_flag (hr_capability_flags r) CLIENT_PROTOCOL_41) (parse_handshake_response payload)"
proof (cases "length payload < 32")
  case False
  then show ?thesis
    unfolding parse_handshake_response_def Let_def
    by (intro safe_intros read_nul_str_safe read_auth_response_safe read_optional_str_safe) simp_all
qed (simp add: parse_handshake_response_def)

subsection \<open>Every client response is read back\<close>

definition nul_free :: "u8 list \<Rightarrow> bool" where
  "nul_free bs \<longleftrightarrow> 0 \<notin> set bs"

definition text_ok :: "string \<Rightarrow> bool" where
  "text_ok s \<longleftrightarrow> str_ok s \<and> nul_free (as_bytes s)"

definition client_auth_response :: "u32 \<Rightarrow> u8 list \<Rightarrow> u8 list" where
  "client_auth_response flags bs =
     (if has_flag flags CLIENT_PLUGIN_AUTH_LENENC_CLIENT_DATA then write_lenenc_bytes bs
      else if has_flag flags CLIENT_SECURE_CONNECTION then word_of_nat (length bs) # bs
      else bs @ [0])"

definition client_optional_str :: "string option \<Rightarrow> u8 list" where
  "client_optional_str m = (case m of Some s \<Rightarrow> as_bytes s @ [0] | None \<Rightarrow> [])"

definition client_handshake_response :: "handshake_response \<Rightarrow> u8 list" where
  "client_handshake_response r =
     u32_le (hr_capability_flags r) @ u32_le (hr_max_packet_size r) @ [hr_character_set r] @ replicate 23 0
     @ (as_bytes (hr_username r) @ [0])
     @ client_auth_response (hr_capability_flags r) (hr_auth_response r)
     @ client_optional_str (hr_database r) @ client_optional_str (hr_auth_plugin_name r)"

definition response_ok :: "handshake_response \<Rightarrow> bool" where
  "response_ok r \<longleftrightarrow>
     has_flag (hr_capability_flags r) CLIENT_PROTOCOL_41 \<and> text_ok (hr_username r)
     \<and> length (hr_username r) + length (hr_auth_response r) + 100 < 2 ^ 64
     \<and> (if has_flag (hr_capability_flags r) CLIENT_PLUGIN_AUTH_LENENC_CLIENT_DATA then True
        else if has_flag (hr_capability_flags r) CLIENT_SECURE_CONNECTION then length (hr_auth_response r) < 256
        else nul_free (hr_auth_response r))
     \<and> (has_flag (hr_capability_flags r) CLIENT_CONNECT_WITH_DB \<longleftrightarrow> hr_database r \<noteq> None)
     \<and> (has_flag (hr_capability_flags r) CLIENT_PLUGIN_AUTH \<longleftrightarrow> hr_auth_plugin_name r \<noteq> None)
     \<and> pred_option text_ok (hr_database r) \<and> pred_option text_ok (hr_auth_plugin_name r)"

lemma position_nul: "nul_free bs \<Longrightarrow> position (\<lambda>b. b = 0) (bs @ 0 # rest) = Some (length bs)"
  by (induction bs) (auto simp: nul_free_def)

lemma read_nul_bytes_encoded:
  "nul_free bs \<Longrightarrow>
   read_nul_terminated_bytes (pre @ bs @ 0 # post) (length pre) = Ok (bs, length (pre @ bs @ [0]))"
  by (simp add: read_nul_terminated_bytes_def get_from_def position_nul)

lemma read_nul_str_encoded:
  "text_ok s \<Longrightarrow>
   read_nul_terminated_str (pre @ as_bytes s @ 0 # post) (length pre) = Ok (s, length (pre @ as_bytes s @ [0]))"
  by (simp add: read_nul_terminated_str_def read_nul_bytes_encoded text_ok_def from_utf8_as_bytes)

lemma read_optional_str_encoded:
  assumes "pred_option text_ok m" "b \<longleftrightarrow> m \<noteq> None"
  shows "read_optional_str b (pre @ client_optional_str m @ post) (length pre) = Ok (m, length (pre @ client_optional_str m))"
  using assms read_nul_str_encoded by (cases m) (auto simp: read_optional_str_def client_optional_str_def)

lemma read_auth_response_encoded:
  assumes "if has_flag flags CLIENT_PLUGIN_AUTH_LENENC_CLIENT_DATA then True
      else if has_flag flags CLIENT_SECURE_CONNECTION then length bs < 256 else nul_free bs"
    and "length pre + length bs + 9 < 2 ^ 64"
  shows "read_auth_response (pre @ client_auth_response flags bs @ post) flags (length pre) =
    Ok (bs, length (pre @ client_auth_response flags bs))"
proof -
  consider (lenenc) "has_flag flags CLIENT_PLUGIN_AUTH_LENENC_CLIENT_DATA"
    | (secure) "\<not> has_flag flags CLIENT_PLUGIN_AUTH_LENENC_CLIENT_DATA" "has_flag flags CLIENT_SECURE_CONNECTION"
    | (nul) "\<not> has_flag flags CLIENT_PLUGIN_AUTH_LENENC_CLIENT_DATA" "\<not> has_flag flags CLIENT_SECURE_CONNECTION"
    by blast
  then show ?thesis
  proof cases
    case lenenc
    let ?n = "word_of_nat (length bs) :: u64"
    have n: "unat ?n = length bs" using assms(2) by (simp add: unat_of_nat)
    have l: "length (write_lenenc_int ?n) \<le> 9" by (simp add: length_write_lenenc_int)
    have g: "get_range ((pre @ write_lenenc_int ?n) @ bs @ post) (length (pre @ write_lenenc_int ?n))
        (length (pre @ write_lenenc_int ?n) + length bs) = Some bs" by (rule get_range_append)
    show ?thesis
      using lenenc n l g assms(2)
      by (simp add: read_auth_response_def client_auth_response_def get_from_def write_lenenc_bytes_def
          read_write_lenenc_int checked_add_usize_def)
  next
    case secure
    have n: "unat (word_of_nat (length bs) :: u8) = length bs" using assms(1) secure by (simp add: unat_of_nat)
    have g: "get_range ((pre @ [word_of_nat (length bs)]) @ bs @ post) (length (pre @ [word_of_nat (length bs)]))
        (length (pre @ [word_of_nat (length bs)]) + length bs) = Some bs" by (rule get_range_append)
    show ?thesis
      using secure n g assms(2)
      by (simp add: read_auth_response_def client_auth_response_def checked_add_usize_def get_at_def nth_append)
  next
    case nul
    then show ?thesis using assms(1) read_nul_bytes_encoded by (simp add: read_auth_response_def client_auth_response_def)
  qed
qed

theorem handshake_response_round_trip:
  assumes "response_ok r"
  shows "parse_handshake_response (client_handshake_response r @ post) = Ok r"
proof -
  let ?f = "hr_capability_flags r"
  let ?h = "u32_le ?f @ u32_le (hr_max_packet_size r) @ [hr_character_set r] @ replicate 23 0"
  let ?u = "?h @ as_bytes (hr_username r) @ [0]"
  let ?a = "?u @ client_auth_response ?f (hr_auth_response r)"
  let ?d = "?a @ client_optional_str (hr_database r)"
  let ?p = "client_handshake_response r @ post"
  note ok = assms [unfolded response_ok_def]
  have lh: "length ?h = 32" by simp
  have u: "read_nul_terminated_str ?p 32 = Ok (hr_username r, length ?u)"
    using read_nul_str_encoded [of "hr_username r" ?h] ok lh by (simp add: client_handshake_response_def)
  have a: "read_auth_response ?p ?f (length ?u) = Ok (hr_auth_response r, length ?a)"
    using read_auth_response_encoded [of ?f "hr_auth_response r" ?u] ok by (simp add: client_handshake_response_def)
  have d: "read_optional_str (has_flag ?f CLIENT_CONNECT_WITH_DB) ?p (length ?a) = Ok (hr_database r, length ?d)"
    using read_optional_str_encoded [of "hr_database r" "has_flag ?f CLIENT_CONNECT_WITH_DB" ?a] ok
    by (simp add: client_handshake_response_def)
  have n: "read_optional_str (has_flag ?f CLIENT_PLUGIN_AUTH) ?p (length ?d) =
      Ok (hr_auth_plugin_name r, length (?d @ client_optional_str (hr_auth_plugin_name r)))"
    using read_optional_str_encoded [of "hr_auth_plugin_name r" "has_flag ?f CLIENT_PLUGIN_AUTH" ?d] ok
    by (simp add: client_handshake_response_def)
  have c: "u32_from_le (take 4 ?p) = ?f" "u32_from_le (take 4 (drop 4 ?p)) = hr_max_packet_size r"
    "index_at ?p 8 = Ok (hr_character_set r)" "\<not> length ?p < 32"
    by (simp_all add: client_handshake_response_def nth_append)
  show ?thesis
    unfolding parse_handshake_response_def Let_def
    using ok u a d n by (simp only: c if_False if_True bindR.simps prod.case simp_thms) simp
qed

end
