(* ===== verification/Auth_Hash.thy ===== *)
theory Auth_Hash
  imports Rust_Bytes
begin

text \<open>
  The message digests the crate implements itself: SHA-1 (\<^verbatim>\<open>src/src/auth/sha1.rs\<close>) and SHA-256
  (\<^verbatim>\<open>src/src/auth/sha256.rs\<close>).  Words are \<open>32 word\<close>, so \<^verbatim>\<open>wrapping_add\<close> is \<open>+\<close>; the \<^verbatim>\<open>while\<close> loop of the
  padding is a terminating recursion.  Padding yields whole blocks and is injective on messages whose
  bit length fits 64 bits, and a digest has the length its array type says.
\<close>

section \<open>Padding and blocks\<close>

function pad_zeros :: "u8 list \<Rightarrow> u8 list" where
  "pad_zeros padded = (if length padded mod 64 \<noteq> 56 then pad_zeros (padded @ [0]) else padded)"
  by auto
termination
proof (relation "measure (\<lambda>p. if length p mod 64 \<le> 56 then 56 - length p mod 64 else 120 - length p mod 64)", goal_cases)
  case (2 p)
  have "length p mod 64 < 64" by simp
  then show ?case using 2 by (auto simp: mod_Suc)
qed simp

declare pad_zeros.simps [simp del]

definition pad_message :: "u8 list \<Rightarrow> u8 list" where
  "pad_message input = pad_zeros (input @ [0x80]) @ u64_be (word_of_nat (length input) * 8)"

text \<open>\<^verbatim>\<open>chunks_exact(64)\<close>.\<close>

function chunks_exact64 :: "u8 list \<Rightarrow> u8 list list" where
  "chunks_exact64 bs = (if length bs < 64 then [] else take 64 bs # chunks_exact64 (drop 64 bs))"
  by auto
termination by (relation "measure length") auto

declare chunks_exact64.simps [simp del]

definition be_words :: "u8 list \<Rightarrow> u32 list" where
  "be_words chunk = map (\<lambda>i. u32_from_be [chunk ! (i * 4), chunk ! (i * 4 + 1), chunk ! (i * 4 + 2), chunk ! (i * 4 + 3)]) [0..<16]"

section \<open>SHA-1\<close>

definition sha1_init :: "u32 list" where
  "sha1_init = [0x67452301, 0xEFCDAB89, 0x98BADCFE, 0x10325476, 0xC3D2E1F0]"

definition sha1_schedule :: "u8 list \<Rightarrow> u32 list" where
  "sha1_schedule chunk =
     foldl (\<lambda>w i. w @ [word_rotl 1 (w ! (i - 3) XOR w ! (i - 8) XOR w ! (i - 14) XOR w ! (i - 16))]) (be_words chunk) [16..<80]"

definition sha1_round :: "u32 \<times> u32 \<times> u32 \<times> u32 \<times> u32 \<Rightarrow> nat \<times> u32 \<Rightarrow> u32 \<times> u32 \<times> u32 \<times> u32 \<times> u32" where
  "sha1_round = (\<lambda>(a, b, c, d, e) (i, word).
     let (f, k) =
           (if i \<le> 19 then ((b AND c) OR (NOT b AND d), 0x5A827999)
            else if i \<le> 39 then (b XOR c XOR d, 0x6ED9EBA1)
            else if i \<le> 59 then ((b AND c) OR (b AND d) OR (c AND d), 0x8F1BBCDC)
            else (b XOR c XOR d, 0xCA62C1D6));
         temp = word_rotl 5 a + f + e + k + word
     in (temp, a, word_rotl 30 b, c, d))"

definition sha1_process_chunk :: "u32 list \<Rightarrow> u8 list \<Rightarrow> u32 list" where
  "sha1_process_chunk h chunk =
     (let (a, b, c, d, e) = foldl sha1_round (h ! 0, h ! 1, h ! 2, h ! 3, h ! 4) (enumerate 0 (sha1_schedule chunk))
      in [h ! 0 + a, h ! 1 + b, h ! 2 + c, h ! 3 + d, h ! 4 + e])"

definition sha1_digest :: "u8 list \<Rightarrow> u8 list" where
  "sha1_digest input = concat (map u32_be (foldl sha1_process_chunk sha1_init (chunks_exact64 (pad_message input))))"

section \<open>SHA-256\<close>

definition sha256_init :: "u32 list" where
  "sha256_init =
     [0x6a09e667, 0xbb67ae85, 0x3c6ef372, 0xa54ff53a, 0x510e527f, 0x9b05688c, 0x1f83d9ab, 0x5be0cd19]"

definition sha256_K :: "u32 list" where
  "sha256_K =
     [0x428a2f98, 0x71374491, 0xb5c0fbcf, 0xe9b5dba5, 0x3956c25b, 0x59f111f1, 0x923f82a4, 0xab1c5ed5,
      0xd807aa98, 0x12835b01, 0x243185be, 0x550c7dc3, 0x72be5d74, 0x80deb1fe, 0x9bdc06a7, 0xc19bf174,
      0xe49b69c1, 0xefbe4786, 0x0fc19dc6, 0x240ca1cc, 0x2de92c6f, 0x4a7484aa, 0x5cb0a9dc, 0x76f988da,
      0x983e5152, 0xa831c66d, 0xb00327c8, 0xbf597fc7, 0xc6e00bf3, 0xd5a79147, 0x06ca6351, 0x14292967,
      0x27b70a85, 0x2e1b2138, 0x4d2c6dfc, 0x53380d13, 0x650a7354, 0x766a0abb, 0x81c2c92e, 0x92722c85,
      0xa2bfe8a1, 0xa81a664b, 0xc24b8b70, 0xc76c51a3, 0xd192e819, 0xd6990624, 0xf40e3585, 0x106aa070,
      0x19a4c116, 0x1e376c08, 0x2748774c, 0x34b0bcb5, 0x391c0cb3, 0x4ed8aa4a, 0x5b9cca4f, 0x682e6ff3,
      0x748f82ee, 0x78a5636f, 0x84c87814, 0x8cc70208, 0x90befffa, 0xa4506ceb, 0xbef9a3f7, 0xc67178f2]"

definition sha256_schedule :: "u8 list \<Rightarrow> u32 list" where
  "sha256_schedule chunk =
     foldl (\<lambda>w i.
       let x = w ! (i - 15); y = w ! (i - 2);
           s0 = word_rotr 7 x XOR word_rotr 18 x XOR drop_bit 3 x;
           s1 = word_rotr 17 y XOR word_rotr 19 y XOR drop_bit 10 y
       in w @ [w ! (i - 16) + s0 + w ! (i - 7) + s1]) (be_words chunk) [16..<64]"

type_synonym sha256_state = "u32 \<times> u32 \<times> u32 \<times> u32 \<times> u32 \<times> u32 \<times> u32 \<times> u32"

definition sha256_round :: "sha256_state \<Rightarrow> u32 \<times> u32 \<Rightarrow> sha256_state" where
  "sha256_round = (\<lambda>(a, b, c, d, e, f, g, hh) (word, k).
     let s1 = word_rotr 6 e XOR word_rotr 11 e XOR word_rotr 25 e;
         ch = (e AND f) XOR (NOT e AND g);
         temp1 = hh + s1 + ch + k + word;
         s0 = word_rotr 2 a XOR word_rotr 13 a XOR word_rotr 22 a;
         maj = (a AND b) XOR (a AND c) XOR (b AND c);
         temp2 = s0 + maj
     in (temp1 + temp2, a, b, c, d + temp1, e, f, g))"

definition sha256_process_chunk :: "u32 list \<Rightarrow> u8 list \<Rightarrow> u32 list" where
  "sha256_process_chunk h chunk =
     (let (a, b, c, d, e, f, g, hh) =
            foldl sha256_round (h ! 0, h ! 1, h ! 2, h ! 3, h ! 4, h ! 5, h ! 6, h ! 7) (zip (sha256_schedule chunk) sha256_K)
      in [h ! 0 + a, h ! 1 + b, h ! 2 + c, h ! 3 + d, h ! 4 + e, h ! 5 + f, h ! 6 + g, h ! 7 + hh])"

definition sha256_digest :: "u8 list \<Rightarrow> u8 list" where
  "sha256_digest input = concat (map u32_be (foldl sha256_process_chunk sha256_init (chunks_exact64 (pad_message input))))"

section \<open>Lengths and padding\<close>

lemma pad_zeros_eq: "\<exists>k. pad_zeros p = p @ replicate k 0 \<and> length (pad_zeros p) mod 64 = 56"
proof (induction p rule: pad_zeros.induct)
  case (1 p)
  show ?case
  proof (cases "length p mod 64 = 56")
    case True
    then show ?thesis by (intro exI [of _ 0]) (simp add: pad_zeros.simps [of p])
  next
    case False
    then obtain k where "pad_zeros (p @ [0]) = (p @ [0]) @ replicate k 0" "length (pad_zeros (p @ [0])) mod 64 = 56"
      using 1 by blast
    then show ?thesis using False by (intro exI [of _ "Suc k"]) (simp add: pad_zeros.simps [of p])
  qed
qed

lemma length_pad_message: "length (pad_message input) mod 64 = 0"
proof -
  have "length (pad_zeros (input @ [0x80])) mod 64 = 56" using pad_zeros_eq by blast
  then have "(length (pad_zeros (input @ [0x80])) + 8) mod 64 = 0" by presburger
  then show ?thesis by (simp add: pad_message_def)
qed

lemma length_process_chunk:
  "length (sha1_process_chunk h c) = 5" "length (sha256_process_chunk h c) = 8"
  by (simp_all add: sha1_process_chunk_def sha256_process_chunk_def split: prod.splits)

lemma length_foldl:
  assumes "length h = n" "\<And>h c. length (f h c) = n"
  shows "length (foldl f h cs) = n"
  using assms(1) by (induction cs arbitrary: h) (simp_all add: assms(2))

lemma length_concat_be: "length (concat (map u32_be ws)) = 4 * length ws"
  by (induction ws) simp_all

lemma length_digests: "length (sha1_digest m) = 20" "length (sha256_digest m) = 32"
  using length_foldl [of sha1_init 5 sha1_process_chunk "chunks_exact64 (pad_message m)"]
    length_foldl [of sha256_init 8 sha256_process_chunk "chunks_exact64 (pad_message m)"]
  by (simp_all add: sha1_digest_def sha256_digest_def length_concat_be sha1_init_def sha256_init_def
      length_process_chunk)

text \<open>The schedules index only words that are there.\<close>

lemma length_schedule: "length (sha1_schedule c) = 80" "length (sha256_schedule c) = 64"
proof -
  have l: "length (foldl (\<lambda>w i. w @ [f w i]) ws is) = length ws + length is" for f :: "u32 list \<Rightarrow> nat \<Rightarrow> u32" and ws "is"
    by (induction "is" arbitrary: ws) simp_all
  show "length (sha1_schedule c) = 80" by (simp only: sha1_schedule_def l be_words_def length_map length_upt)
  show "length (sha256_schedule c) = 64" by (simp only: sha256_schedule_def Let_def l be_words_def length_map length_upt)
qed

text \<open>Two messages of the same padding are equal: no message is confused by its padding.\<close>

lemma pad_message_inj:
  assumes "pad_message a = pad_message b" "length a < 2 ^ 61" "length b < 2 ^ 61"
  shows "a = b"
proof -
  have u: "unat (word_of_nat n * 8 :: u64) = n * 8" if "n < 2 ^ 61" for n
    using that by (simp add: unat_word_ariths unat_of_nat)
  have "length (pad_zeros (a @ [0x80])) = length (pad_zeros (b @ [0x80]))"
    using arg_cong [OF assms(1), of length] by (simp add: pad_message_def)
  then have e: "pad_zeros (a @ [0x80]) = pad_zeros (b @ [0x80])"
    "u64_be (word_of_nat (length a) * 8) = u64_be (word_of_nat (length b) * 8)"
    using assms(1) by (simp_all add: pad_message_def)
  then have "word_of_nat (length a) * 8 = (word_of_nat (length b) * 8 :: u64)"
    by (metis rev_rev_ident u64_be_def uN_from_le_le(3))
  then have "unat (word_of_nat (length a) * 8 :: u64) = unat (word_of_nat (length b) * 8 :: u64)" by (rule arg_cong)
  then have l: "length a = length b" unfolding u [OF assms(2)] u [OF assms(3)] by simp
  have t: "take (length c) (pad_zeros (c @ [0x80])) = c" for c
    using pad_zeros_eq [of "c @ [0x80]"] by (elim exE conjE) (simp only: append_assoc take_append length_append, simp)
  have "a = take (length a) (pad_zeros (a @ [0x80]))" by (simp only: t)
  also have "\<dots> = take (length b) (pad_zeros (b @ [0x80]))" by (simp only: e(1) l)
  also have "\<dots> = b" by (simp only: t)
  finally show ?thesis .
qed

end
