(* ===== verification/Auth.thy ===== *)
theory Auth
  imports Auth_Hash
begin

text \<open>
  Authentication: the plugins \<^verbatim>\<open>mysql_native_password\<close> (\<^verbatim>\<open>src/src/auth/native_password.rs\<close>) and
  \<^verbatim>\<open>caching_sha2_password\<close> (\<^verbatim>\<open>src/src/auth/caching_sha2.rs\<close>), the accounts (\<^verbatim>\<open>UserCredential\<close> of
  \<^verbatim>\<open>src/src/config.rs\<close>) and the authenticator (\<^verbatim>\<open>src/src/auth/mod.rs\<close>).  The locale
  \<open>challenge_scheme\<close> is the contract of a plugin: what a client computes from the password is
  accepted, and what is accepted is a masked preimage of the stored verifier.
\<close>

section \<open>The plugins\<close>

text \<open>The \<^verbatim>\<open>for\<close> loops that combine two arrays of the same length byte by byte.\<close>

definition xor_bytes :: "u8 list \<Rightarrow> u8 list \<Rightarrow> u8 list" where
  "xor_bytes a b = map2 (XOR) a b"

definition native_hash_password :: "u8 list \<Rightarrow> u8 list" where
  "native_hash_password password = sha1_digest (sha1_digest password)"

definition compute_auth_response :: "u8 list option \<Rightarrow> u8 list \<Rightarrow> u8 list" where
  "compute_auth_response password scramble =
     (case password of
        Some p \<Rightarrow>
          if p = [] then []
          else
            let stage1 = sha1_digest p;
                stage2 = sha1_digest stage1;
                hash_of_combined = sha1_digest (scramble @ stage2)
            in xor_bytes stage1 hash_of_combined
      | None \<Rightarrow> [])"

definition native_verify :: "u8 list \<Rightarrow> u8 list \<Rightarrow> u8 list option \<Rightarrow> bool" where
  "native_verify auth_response scramble stored_hash =
     (case stored_hash of
        None \<Rightarrow> auth_response = []
      | Some hash \<Rightarrow>
          if length auth_response \<noteq> 20 then False
          else
            let hash_of_combined = sha1_digest (scramble @ hash);
                candidate_stage1 = xor_bytes auth_response hash_of_combined;
                candidate_stage2 = sha1_digest candidate_stage1
            in candidate_stage2 = hash)"

definition FAST_AUTH_RESPONSE_LEN :: nat where "FAST_AUTH_RESPONSE_LEN = 32"

definition sha2_hash_password :: "u8 list \<Rightarrow> u8 list" where
  "sha2_hash_password password = sha256_digest (sha256_digest password)"

definition sha2_scramble :: "u8 list option \<Rightarrow> u8 list \<Rightarrow> u8 list" where
  "sha2_scramble password nonce =
     (case password of
        Some p \<Rightarrow>
          if p = [] then []
          else
            let digest1 = sha256_digest p;
                digest2 = sha256_digest digest1;
                mask = sha256_digest (digest2 @ nonce)
            in xor_bytes digest1 mask
      | None \<Rightarrow> [])"

definition constant_time_eq :: "u8 list \<Rightarrow> u8 list \<Rightarrow> bool" where
  "constant_time_eq a b =
     (if length a \<noteq> length b then False
      else foldl (\<lambda>diff (x, y). diff OR (x XOR y)) 0 (zip a b) = 0)"

definition sha2_verify :: "u8 list \<Rightarrow> u8 list \<Rightarrow> u8 list option \<Rightarrow> bool" where
  "sha2_verify reply nonce stored =
     (case stored of
        None \<Rightarrow> reply = []
      | Some st \<Rightarrow>
          if length reply \<noteq> FAST_AUTH_RESPONSE_LEN then False
          else
            let mask = sha256_digest (st @ nonce);
                candidate_digest1 = xor_bytes reply mask;
                candidate_digest2 = sha256_digest candidate_digest1
            in constant_time_eq candidate_digest2 st)"

section \<open>Accounts and the authenticator\<close>

datatype auth_plugin = MysqlNativePassword | CachingSha2Password

fun wire_name :: "auth_plugin \<Rightarrow> string" where
  "wire_name MysqlNativePassword = ''mysql_native_password''"
| "wire_name CachingSha2Password = ''caching_sha2_password''"

definition from_wire_name :: "string \<Rightarrow> auth_plugin option" where
  "from_wire_name name =
     (if name = ''mysql_native_password'' then Some MysqlNativePassword
      else if name = ''caching_sha2_password'' then Some CachingSha2Password
      else None)"

datatype auth_outcome = AuthOk | Denied

record user_credential =
  uc_username :: string
  uc_plugin :: auth_plugin
  uc_verifier :: "u8 list option"

definition with_password :: "string \<Rightarrow> string \<Rightarrow> user_credential" where
  "with_password username password =
     \<lparr>uc_username = username, uc_plugin = MysqlNativePassword,
      uc_verifier = (if password = [] then None else Some (native_hash_password (as_bytes password)))\<rparr>"

definition with_caching_sha2_password :: "string \<Rightarrow> string \<Rightarrow> user_credential" where
  "with_caching_sha2_password username password =
     \<lparr>uc_username = username, uc_plugin = CachingSha2Password,
      uc_verifier = (if password = [] then None else Some (sha2_hash_password (as_bytes password)))\<rparr>"

record stored_user =
  su_plugin :: auth_plugin
  su_verifier :: "u8 list option"

type_synonym authenticator = "string \<rightharpoonup> stored_user"

text \<open>Collecting pairs into a \<^verbatim>\<open>HashMap\<close>: of two accounts with one name the later stays.\<close>

definition authenticator_new :: "user_credential list \<Rightarrow> authenticator" where
  "authenticator_new users =
     foldl (\<lambda>m u. m(uc_username u \<mapsto> \<lparr>su_plugin = uc_plugin u, su_verifier = uc_verifier u\<rparr>)) Map.empty users"

definition plugin_for :: "authenticator \<Rightarrow> string \<Rightarrow> auth_plugin option" where
  "plugin_for a username = map_option su_plugin (a username)"

datatype verifier_state = NoVerifier | Verifier "u8 list" | BadLength

definition fixed_verifier :: "nat \<Rightarrow> u8 list option \<Rightarrow> verifier_state" where
  "fixed_verifier n verifier =
     (case verifier of
        None \<Rightarrow> NoVerifier
      | Some bytes \<Rightarrow> if length bytes = n then Verifier bytes else BadLength)"

definition authenticate :: "authenticator \<Rightarrow> string \<Rightarrow> auth_plugin \<Rightarrow> u8 list \<Rightarrow> u8 list \<Rightarrow> auth_outcome" where
  "authenticate a username plugin auth_response scramble =
     (case a username of
        None \<Rightarrow> Denied
      | Some user \<Rightarrow>
          if su_plugin user \<noteq> plugin then Denied
          else
            let ok =
              (case plugin of
                 MysqlNativePassword \<Rightarrow>
                   (case fixed_verifier 20 (su_verifier user) of
                      NoVerifier \<Rightarrow> native_verify auth_response scramble None
                    | Verifier hash \<Rightarrow> native_verify auth_response scramble (Some hash)
                    | BadLength \<Rightarrow> False)
               | CachingSha2Password \<Rightarrow>
                   (case fixed_verifier 32 (su_verifier user) of
                      NoVerifier \<Rightarrow> sha2_verify auth_response scramble None
                    | Verifier stored \<Rightarrow> sha2_verify auth_response scramble (Some stored)
                    | BadLength \<Rightarrow> False))
            in if ok then AuthOk else Denied)"

section \<open>Comparison and masking\<close>

lemma length_xor_bytes [simp]: "length (xor_bytes a b) = min (length a) (length b)"
  by (simp add: xor_bytes_def)

lemma xor_bytes_involution: "length a = length b \<Longrightarrow> xor_bytes (xor_bytes a b) b = a"
  by (induction a b rule: list_induct2) (simp_all add: xor_bytes_def xor.assoc)

lemma or_eq_0: "(a :: u8) OR b = 0 \<longleftrightarrow> a = 0 \<and> b = 0"
  by (metis or.left_neutral or.right_neutral or_eq_0_iff)

lemma xor_eq_0: "(a :: u8) XOR b = 0 \<longleftrightarrow> a = b"
  by (metis xor.assoc xor.left_neutral xor_self_eq)

lemma constant_time_fold:
  "foldl (\<lambda>diff (x, y). diff OR (x XOR y)) d ps = (0 :: u8) \<longleftrightarrow> d = 0 \<and> (\<forall>(x, y) \<in> set ps. x = y)"
  by (induction ps arbitrary: d) (auto simp: or_eq_0 xor_eq_0)

lemma constant_time_eq_iff: "constant_time_eq a b \<longleftrightarrow> a = b"
proof (cases "length a = length b")
  case True
  then have "(\<forall>(x, y) \<in> set (zip a b). x = y) \<longleftrightarrow> a = b"
    by (auto simp: set_zip list_eq_iff_nth_eq)
  then show ?thesis using True constant_time_fold [of 0 "zip a b"] by (simp add: constant_time_eq_def)
qed (auto simp: constant_time_eq_def)

section \<open>The contract of a plugin\<close>

locale challenge_scheme =
  fixes digest :: "u8 list \<Rightarrow> u8 list" and size_of :: nat
    and stored_of :: "u8 list \<Rightarrow> u8 list"
    and respond :: "u8 list option \<Rightarrow> u8 list \<Rightarrow> u8 list"
    and check :: "u8 list \<Rightarrow> u8 list \<Rightarrow> u8 list option \<Rightarrow> bool"
    and mask :: "u8 list \<Rightarrow> u8 list \<Rightarrow> u8 list"
  assumes size_pos: "0 < size_of"
    and digest_size: "length (digest m) = size_of"
    and mask_size: "length (mask challenge stored) = size_of"
    and stored_def: "stored_of p = digest (digest p)"
    and respond_some: "p \<noteq> [] \<Longrightarrow> respond (Some p) challenge = xor_bytes (digest p) (mask challenge (stored_of p))"
    and respond_none: "respond None challenge = []"
    and respond_empty: "respond (Some []) challenge = []"
    and check_none: "check r challenge None \<longleftrightarrow> r = []"
    and check_some: "check r challenge (Some h) \<longleftrightarrow>
      length r = size_of \<and> digest (xor_bytes r (mask challenge h)) = h"
begin

lemma stored_size: "length (stored_of p) = size_of"
  by (simp add: stored_def digest_size)

lemma check_iff_preimage:
  "check r challenge (Some h) \<longleftrightarrow>
     (\<exists>x. length x = size_of \<and> digest x = h \<and> r = xor_bytes x (mask challenge h))"
proof
  assume c: "check r challenge (Some h)"
  then have "length r = size_of" "digest (xor_bytes r (mask challenge h)) = h" by (simp_all add: check_some)
  then show "\<exists>x. length x = size_of \<and> digest x = h \<and> r = xor_bytes x (mask challenge h)"
    by (intro exI [of _ "xor_bytes r (mask challenge h)"]) (simp add: mask_size xor_bytes_involution)
next
  assume "\<exists>x. length x = size_of \<and> digest x = h \<and> r = xor_bytes x (mask challenge h)"
  then show "check r challenge (Some h)" by (auto simp: check_some mask_size xor_bytes_involution)
qed

lemma honest_accepted: "p \<noteq> [] \<Longrightarrow> check (respond (Some p) challenge) challenge (Some (stored_of p))"
  unfolding check_iff_preimage by (intro exI [of _ "digest p"]) (simp add: respond_some digest_size stored_def)

end

interpretation native: challenge_scheme sha1_digest 20 native_hash_password compute_auth_response native_verify
  "\<lambda>scramble hash. sha1_digest (scramble @ hash)"
  by unfold_locales
     (auto simp: length_digests native_hash_password_def compute_auth_response_def native_verify_def Let_def)

interpretation sha2: challenge_scheme sha256_digest 32 sha2_hash_password sha2_scramble sha2_verify
  "\<lambda>nonce stored. sha256_digest (stored @ nonce)"
  by unfold_locales
     (auto simp: length_digests sha2_hash_password_def sha2_scramble_def sha2_verify_def Let_def
      FAST_AUTH_RESPONSE_LEN_def constant_time_eq_iff)

section \<open>The authenticator\<close>

text \<open>What is stored for an account built from a password, and what its client computes.\<close>

definition account :: "auth_plugin \<Rightarrow> string \<Rightarrow> string \<Rightarrow> user_credential" where
  "account plugin username password =
     (case plugin of MysqlNativePassword \<Rightarrow> with_password username password
      | CachingSha2Password \<Rightarrow> with_caching_sha2_password username password)"

definition client_reply :: "auth_plugin \<Rightarrow> string \<Rightarrow> u8 list \<Rightarrow> u8 list" where
  "client_reply plugin password scramble =
     (case plugin of MysqlNativePassword \<Rightarrow> compute_auth_response (Some (as_bytes password)) scramble
      | CachingSha2Password \<Rightarrow> sha2_scramble (Some (as_bytes password)) scramble)"

definition plugin_digest :: "auth_plugin \<Rightarrow> u8 list \<Rightarrow> u8 list" where
  "plugin_digest plugin = (case plugin of MysqlNativePassword \<Rightarrow> sha1_digest | CachingSha2Password \<Rightarrow> sha256_digest)"

definition plugin_mask :: "auth_plugin \<Rightarrow> u8 list \<Rightarrow> u8 list \<Rightarrow> u8 list" where
  "plugin_mask plugin challenge stored =
     (case plugin of MysqlNativePassword \<Rightarrow> sha1_digest (challenge @ stored)
      | CachingSha2Password \<Rightarrow> sha256_digest (stored @ challenge))"

lemma as_bytes_empty [simp]: "as_bytes s = [] \<longleftrightarrow> s = []"
  by (simp add: as_bytes_def)

lemma authenticator_new_last:
  "authenticator_new (us @ [u]) (uc_username u) = Some \<lparr>su_plugin = uc_plugin u, su_verifier = uc_verifier u\<rparr>"
  by (simp add: authenticator_new_def)

lemma account_simps [simp]:
  "uc_username (account plugin username password) = username" "uc_plugin (account plugin username password) = plugin"
  by (simp_all add: account_def with_password_def with_caching_sha2_password_def split: auth_plugin.split)

lemma authenticate_account:
  assumes "a username = Some \<lparr>su_plugin = plugin, su_verifier = uc_verifier (account plugin username password)\<rparr>"
  shows "authenticate a username plugin reply challenge = AuthOk \<longleftrightarrow>
    (if password = [] then reply = []
     else \<exists>x. length x = length (plugin_digest plugin []) \<and> plugin_digest plugin x = plugin_digest plugin (plugin_digest plugin (as_bytes password))
       \<and> reply = xor_bytes x (plugin_mask plugin challenge (plugin_digest plugin (plugin_digest plugin (as_bytes password)))))"
proof (cases plugin)
  case MysqlNativePassword
  then show ?thesis
    using assms native.check_none native.check_iff_preimage [of reply challenge "native_hash_password (as_bytes password)"]
    by (simp add: authenticate_def account_def with_password_def fixed_verifier_def native.stored_size plugin_digest_def
        plugin_mask_def length_digests native_hash_password_def)
next
  case CachingSha2Password
  then show ?thesis
    using assms sha2.check_none sha2.check_iff_preimage [of reply challenge "sha2_hash_password (as_bytes password)"]
    by (simp add: authenticate_def account_def with_caching_sha2_password_def fixed_verifier_def sha2.stored_size plugin_digest_def
        plugin_mask_def length_digests sha2_hash_password_def)
qed

lemma client_reply_eq:
  "client_reply plugin password challenge =
     (if password = [] then []
      else xor_bytes (plugin_digest plugin (as_bytes password))
        (plugin_mask plugin challenge (plugin_digest plugin (plugin_digest plugin (as_bytes password)))))"
  by (cases plugin)
     (simp_all add: client_reply_def plugin_digest_def plugin_mask_def compute_auth_response_def sha2_scramble_def Let_def)



end
