(* ===== verification/Sql_Lexer.thy ===== *)
theory Sql_Lexer
  imports Rust_Chars Sql_Value Result_Logic
begin

text \<open>
  The tokenizer of \<^verbatim>\<open>src/src/query/parser.rs\<close> (lines 283 to 718).  It works on the characters of the
  text; \<open>tokenize_from u pos cs\<close> is the loop at position \<open>pos\<close> with the characters \<open>cs\<close> left.  The
  argument \<open>u\<close> is the classification of characters outside ASCII, which the standard library takes
  from the Unicode tables.
\<close>

section \<open>Tokens and keywords\<close>

datatype keyword =
    KwCreate | KwAlter | KwTable | KwInsert | KwInto | KwValues | KwSelect | KwFrom | KwWhere | KwNull | KwPrimary
  | KwKey | KwBegin | KwStart | KwTransaction | KwCommit | KwRollback | KwSet | KwUse | KwShow | KwAs | KwDrop
  | KwOrder | KwBy | KwLimit | KwGroup | KwJoin | KwLeft | KwOn | KwInner | KwOuter

datatype token =
    TKeyword keyword | TIdent string | TSystemVariable string | TInteger i64 | TDecimal i64 u8 | TStr string
  | TComma | TLParen | TRParen | TSemicolon | TStar | TEq | TNotEq | TLt | TGt | TLe | TGe | TDot | TPlaceholder

text \<open>\<^verbatim>\<open>#[derive(Debug)]\<close> prints the name of the variant.\<close>

fun keyword_debug :: "keyword \<Rightarrow> string" where
  "keyword_debug KwCreate = ''Create''" | "keyword_debug KwAlter = ''Alter''" | "keyword_debug KwTable = ''Table''"
| "keyword_debug KwInsert = ''Insert''" | "keyword_debug KwInto = ''Into''" | "keyword_debug KwValues = ''Values''"
| "keyword_debug KwSelect = ''Select''" | "keyword_debug KwFrom = ''From''" | "keyword_debug KwWhere = ''Where''"
| "keyword_debug KwNull = ''Null''" | "keyword_debug KwPrimary = ''Primary''" | "keyword_debug KwKey = ''Key''"
| "keyword_debug KwBegin = ''Begin''" | "keyword_debug KwStart = ''Start''"
| "keyword_debug KwTransaction = ''Transaction''" | "keyword_debug KwCommit = ''Commit''"
| "keyword_debug KwRollback = ''Rollback''" | "keyword_debug KwSet = ''Set''" | "keyword_debug KwUse = ''Use''"
| "keyword_debug KwShow = ''Show''" | "keyword_debug KwAs = ''As''" | "keyword_debug KwDrop = ''Drop''"
| "keyword_debug KwOrder = ''Order''" | "keyword_debug KwBy = ''By''" | "keyword_debug KwLimit = ''Limit''"
| "keyword_debug KwGroup = ''Group''" | "keyword_debug KwJoin = ''Join''" | "keyword_debug KwLeft = ''Left''"
| "keyword_debug KwOn = ''On''" | "keyword_debug KwInner = ''Inner''" | "keyword_debug KwOuter = ''Outer''"

definition keyword_text :: "keyword \<Rightarrow> string" where
  "keyword_text kw = to_ascii_uppercase (keyword_debug kw)"

definition keyword_from_ident :: "string \<Rightarrow> keyword option" where
  "keyword_from_ident s =
     map_of
       [(''CREATE'', KwCreate), (''ALTER'', KwAlter), (''TABLE'', KwTable), (''INSERT'', KwInsert), (''INTO'', KwInto),
        (''VALUES'', KwValues), (''SELECT'', KwSelect), (''FROM'', KwFrom), (''WHERE'', KwWhere), (''NULL'', KwNull),
        (''PRIMARY'', KwPrimary), (''KEY'', KwKey), (''BEGIN'', KwBegin), (''START'', KwStart),
        (''TRANSACTION'', KwTransaction), (''COMMIT'', KwCommit), (''ROLLBACK'', KwRollback), (''SET'', KwSet),
        (''USE'', KwUse), (''SHOW'', KwShow), (''AS'', KwAs), (''ORDER'', KwOrder), (''BY'', KwBy), (''LIMIT'', KwLimit),
        (''GROUP'', KwGroup), (''DROP'', KwDrop), (''JOIN'', KwJoin), (''LEFT'', KwLeft), (''ON'', KwOn),
        (''INNER'', KwInner), (''OUTER'', KwOuter)]
       (to_ascii_uppercase s)"

abbreviation quote_char :: string where
  "quote_char \<equiv> [CHR 0x27]"

fun token_text :: "token \<Rightarrow> string" where
  "token_text (TKeyword k) = keyword_text k"
| "token_text (TIdent s) = s"
| "token_text (TSystemVariable s) = ''@@'' @ s"
| "token_text (TInteger n) = show_i64 n"
| "token_text (TDecimal unscaled scale) = format_decimal unscaled scale"
| "token_text (TStr s) = quote_char @ s @ quote_char"
| "token_text TComma = '',''"
| "token_text TLParen = ''(''"
| "token_text TRParen = '')''"
| "token_text TSemicolon = '';''"
| "token_text TStar = ''*''"
| "token_text TEq = ''=''"
| "token_text TNotEq = ''<>''"
| "token_text TLt = ''<''"
| "token_text TGt = ''>''"
| "token_text TLe = ''<=''"
| "token_text TGe = ''>=''"
| "token_text TDot = ''.''"
| "token_text TPlaceholder = ''?''"

definition describe :: "token option \<Rightarrow> string" where
  "describe t = (case t of None \<Rightarrow> ''end of input'' | Some t \<Rightarrow> quote_char @ token_text t @ quote_char)"

abbreviation parse_err :: "string \<Rightarrow> exn" where
  "parse_err m \<equiv> Err (Parse m)"

section \<open>Character classes\<close>

record unicode =
  uni_alphabetic :: "rchar \<Rightarrow> bool"
  uni_numeric :: "rchar \<Rightarrow> bool"

definition is_alphabetic :: "unicode \<Rightarrow> rchar \<Rightarrow> bool" where
  "is_alphabetic u c = (if is_ascii_rchar c then is_ascii_letter c else uni_alphabetic u c)"

definition is_alphanumeric :: "unicode \<Rightarrow> rchar \<Rightarrow> bool" where
  "is_alphanumeric u c = (is_alphabetic u c \<or> (if is_ascii_rchar c then is_digit_rchar c else uni_numeric u c))"

section \<open>Scanners\<close>

definition is_ident_char :: "unicode \<Rightarrow> rchar \<Rightarrow> bool" where
  "is_ident_char u c \<longleftrightarrow> is_alphanumeric u c \<or> c = ''_''"

definition scan_ident :: "unicode \<Rightarrow> rchar list \<Rightarrow> string \<times> nat" where
  "scan_ident u cs = (let w = takeWhile (is_ident_char u) cs in (concat w, length w))"

definition scan_number :: "rchar list \<Rightarrow> (token \<times> nat) result" where
  "scan_number cs =
     (let negative = (get_at cs 0 = Some ''-'');
          int_start = (if negative then 1 else 0);
          int_chars = takeWhile is_digit_rchar (drop int_start cs);
          n = int_start + length int_chars
      in
      if int_chars = [] then Inl (parse_err ''expected digits in numeric literal'')
      else
        let int_text = concat int_chars in
        if get_at cs n = Some ''.'' \<and> (case get_at cs (n + 1) of Some d \<Rightarrow> is_digit_rchar d | None \<Rightarrow> False) then
          let frac_chars = takeWhile is_digit_rchar (drop (n + 1) cs);
              frac_text = concat frac_chars;
              scale = word_of_nat (length frac_text)
          in
          bindR (ok_or (parse_err (''decimal literal '' @ quote_char @ int_text @ ''.'' @ frac_text @ quote_char @ '' out of range''))
                   (parse_i64 (int_text @ frac_text))) (\<lambda>unscaled.
          Ok (TDecimal (if negative then - unscaled else unscaled) scale, n + 1 + length frac_chars))
        else
          let txt = (if negative then ''-'' else []) @ int_text in
          bindR (ok_or (parse_err (''integer literal '' @ quote_char @ txt @ quote_char @ '' out of range'')) (parse_i64 txt)) (\<lambda>v.
          Ok (TInteger v, n)))"

text \<open>
  The loop of the two quoted forms: the characters after the opening \<open>q\<close>, a doubled \<open>q\<close> stands for
  one.  Returns the text and how many characters were read, the closing \<open>q\<close> included.
\<close>

fun scan_quoted :: "rchar \<Rightarrow> rchar list \<Rightarrow> (string \<times> nat) option" where
  "scan_quoted q [] = None"
| "scan_quoted q (c # cs) =
     (if c = q then
        (if get_at cs 0 = Some q then map_option (\<lambda>(s, n). (q @ s, n + 2)) (scan_quoted q (tl cs))
         else Some ([], 1))
      else map_option (\<lambda>(s, n). (c @ s, n + 1)) (scan_quoted q cs))"

definition scan_backtick_ident :: "rchar list \<Rightarrow> (string \<times> nat) result" where
  "scan_backtick_ident cs =
     bindR (ok_or (parse_err ''unterminated `identifier`'') (scan_quoted ''`'' (drop 1 cs))) (\<lambda>(s, n).
     if s = [] then Inl (parse_err ''empty `` identifier'') else Ok (s, n + 1))"

definition scan_string_literal :: "rchar list \<Rightarrow> (string \<times> nat) result" where
  "scan_string_literal cs =
     bindR (ok_or (parse_err ''unterminated string literal'') (scan_quoted quote_char (drop 1 cs))) (\<lambda>(s, n).
     Ok (s, n + 1))"

text \<open>The arm for a leading \<open>@\<close>.\<close>

definition scan_variable :: "unicode \<Rightarrow> nat \<Rightarrow> rchar list \<Rightarrow> (token \<times> nat) result" where
  "scan_variable u i cs =
     (if get_at cs 1 = Some ''@'' then
        let (name, consumed) = scan_ident u (drop 2 cs) in
        if name = [] then
          Inl (parse_err (''expected an identifier after '' @ quote_char @ ''@@'' @ quote_char @ '' at position '' @ show_nat i))
        else if get_at cs (2 + consumed) = Some ''.'' then
          let (second, c2) = scan_ident u (drop (2 + consumed + 1) cs) in
          if second \<noteq> [] then Ok (TSystemVariable (name @ ''.'' @ second), 2 + (consumed + (1 + c2)))
          else Ok (TSystemVariable name, 2 + consumed)
        else Ok (TSystemVariable name, 2 + consumed)
      else
        let (name, consumed) = scan_ident u (drop 1 cs)
        in Ok (TIdent (''@'' @ name), 1 + consumed))"

definition err_unexpected :: "rchar \<Rightarrow> nat \<Rightarrow> exn" where
  "err_unexpected c i = parse_err (''unexpected character '' @ quote_char @ c @ quote_char @ '' at position '' @ show_nat i)"

text \<open>The \<^verbatim>\<open>match\<close> on the character at position \<open>i\<close>: one token and the characters it takes.\<close>

definition scan_token :: "unicode \<Rightarrow> nat \<Rightarrow> rchar \<Rightarrow> rchar list \<Rightarrow> (token \<times> nat) result" where
  "scan_token u i c cs =
     (if c = '','' then Ok (TComma, 1)
      else if c = ''('' then Ok (TLParen, 1)
      else if c = '')'' then Ok (TRParen, 1)
      else if c = '';'' then Ok (TSemicolon, 1)
      else if c = ''.'' then Ok (TDot, 1)
      else if c = ''*'' then Ok (TStar, 1)
      else if c = ''?'' then Ok (TPlaceholder, 1)
      else if c = ''='' then Ok (TEq, 1)
      else if c = ''<'' then
        (if get_at cs 1 = Some ''='' then Ok (TLe, 2)
         else if get_at cs 1 = Some ''>'' then Ok (TNotEq, 2)
         else Ok (TLt, 1))
      else if c = ''>'' then (if get_at cs 1 = Some ''='' then Ok (TGe, 2) else Ok (TGt, 1))
      else if c = ''!'' then (if get_at cs 1 = Some ''='' then Ok (TNotEq, 2) else Inl (err_unexpected ''!'' i))
      else if c = quote_char then map_result (\<lambda>(s, n). (TStr s, n)) (scan_string_literal cs)
      else if c = ''`'' then map_result (\<lambda>(s, n). (TIdent s, n)) (scan_backtick_ident cs)
      else if c = ''@'' then scan_variable u i cs
      else if is_digit_rchar c \<or> c = ''-'' \<and> (case get_at cs 1 of Some d \<Rightarrow> is_digit_rchar d | None \<Rightarrow> False)
        then scan_number cs
      else if is_alphabetic u c \<or> c = ''_'' then
        let (word, consumed) = scan_ident u cs
        in Ok (case keyword_from_ident word of Some k \<Rightarrow> TKeyword k | None \<Rightarrow> TIdent word, consumed)
      else Inl (err_unexpected c i))"

section \<open>The loop\<close>

text \<open>The position of the first \<open>*/\<close>.\<close>

fun find_close :: "rchar list \<Rightarrow> nat option" where
  "find_close (a # b # cs) = (if a = ''*'' \<and> b = ''/'' then Some 0 else map_option Suc (find_close (b # cs)))"
| "find_close _ = None"

lemma find_close_bound: "find_close cs = Some k \<Longrightarrow> k + 2 \<le> length cs"
  by (induction cs arbitrary: k rule: find_close.induct) (auto split: if_splits)

lemma scan_quoted_pos: "scan_quoted q cs = Some (s, n) \<Longrightarrow> 0 < n"
  by (induction cs arbitrary: s n rule: scan_quoted.induct) (auto split: if_splits)

lemma scan_ident_pos: "is_ident_char u c \<Longrightarrow> scan_ident u (c # cs) = (s, n) \<Longrightarrow> 0 < n"
  by (auto simp: scan_ident_def Let_def)

lemma scan_token_pos:
  assumes "scan_token u i c (c # cs) = Ok (t, n)"
  shows "0 < n"
proof -
  have v: "0 < n" if "scan_variable u i (c # cs) = Ok (t, n)"
    using that by (auto simp: scan_variable_def Let_def split: if_splits prod.splits)
  have num: "0 < n" if "scan_number (c # cs) = Ok (t, n)"
    using that by (auto simp: scan_number_def Let_def result_simps split: if_splits)
  have b: "0 < n" if "scan_backtick_ident (c # cs) = Ok (s, n)" for s
    using that by (auto simp: scan_backtick_ident_def result_simps split: if_splits)
  have s: "0 < n" if "scan_string_literal (c # cs) = Ok (s, n)" for s
    using that by (auto simp: scan_string_literal_def result_simps)
  have w: "0 < n" if "is_alphabetic u c \<or> c = ''_''" "scan_ident u (c # cs) = (x, n)" for x
    using that scan_ident_pos [of u c cs x n] by (auto simp: is_ident_char_def is_alphanumeric_def)
  show ?thesis
    using assms v num b s w unfolding scan_token_def
    by (auto simp: map_result_Ok_iff Let_def split: if_splits prod.splits)
qed

function tokenize_from :: "unicode \<Rightarrow> nat \<Rightarrow> rchar list \<Rightarrow> token list result" where
  "tokenize_from u i cs =
     (case cs of
        [] \<Rightarrow> Ok []
      | c # rest \<Rightarrow>
          if is_whitespace c then tokenize_from u (i + 1) rest
          else if c = ''/'' \<and> get_at cs 1 = Some ''*'' then
            (case find_close (drop 2 cs) of
               None \<Rightarrow> Inl (parse_err (''unterminated block comment starting at position '' @ show_nat i))
             | Some k \<Rightarrow>
                 bindR (if get_at cs 2 = Some ''!''
                        then tokenize_from u 0 (dropWhile is_digit_rchar (take (k - 1) (drop 3 cs)))
                        else Ok []) (\<lambda>inner.
                 bindR (tokenize_from u (i + (k + 4)) (drop (k + 4) cs)) (\<lambda>ts. Ok (inner @ ts))))
          else if c = ''#''
                \<or> c = ''-'' \<and> get_at cs 1 = Some ''-'' \<and> (case get_at cs 2 of None \<Rightarrow> True | Some d \<Rightarrow> is_whitespace d)
            then tokenize_from u (i + length (takeWhile (\<lambda>d. d \<noteq> [CHR 0x0A]) cs)) (dropWhile (\<lambda>d. d \<noteq> [CHR 0x0A]) cs)
          else
            bindR (scan_token u i c cs) (\<lambda>(t, n).
            bindR (tokenize_from u (i + n) (drop n cs)) (\<lambda>ts. Ok (t # ts))))"
  by pat_completeness auto
termination
proof (relation "measure (\<lambda>(u, i, cs). length cs)", goal_cases)
  case (3 u i cs c rest k)
  have "length (dropWhile is_digit_rchar (take (k - 1) (drop 3 cs))) \<le> length (take (k - 1) (drop 3 cs))"
    by (rule length_dropWhile_le)
  then show ?case using 3 by (auto simp: min_def split: if_splits)
next
  case (5 u i cs c rest)
  have "length (dropWhile (\<lambda>d. d \<noteq> [CHR 0x0A]) rest) \<le> length rest" by (rule length_dropWhile_le)
  then show ?case using 5 by auto
next
  case (6 u i cs c rest p t n)
  then show ?case using scan_token_pos [of u i c rest t n] by auto
qed auto

declare tokenize_from.simps [simp del]

definition tokenize :: "unicode \<Rightarrow> string \<Rightarrow> token list result" where
  "tokenize u sql = tokenize_from u 0 (chars_of sql)"

end
