(* ===== verification/Parser_Core.thy ===== *)
theory Parser_Core
  imports Sql_Lexer Query_Ast
begin

text \<open>
  The core of the recursive descent parser of \<^verbatim>\<open>src/src/query/parser.rs\<close>: its state, the token
  primitives, names and expressions.  The state is the
  record \<open>parser\<close>; a method of the source is a function from the state to a value and the new state or
  an error.  Every loop and the recursion between expressions and function calls are terminating
  functions: a successful step of a loop takes at least one token.
\<close>

section \<open>The state\<close>

record parser =
  ps_tokens :: "token list"
  ps_pos :: nat
  ps_allow_placeholders :: bool
  ps_param_count :: nat

type_synonym 'a parse = "parser \<Rightarrow> ('a \<times> parser) result"

definition parser_new :: "token list \<Rightarrow> bool \<Rightarrow> parser" where
  "parser_new tokens allow = \<lparr>ps_tokens = tokens, ps_pos = 0, ps_allow_placeholders = allow, ps_param_count = 0\<rparr>"

definition peek :: "parser \<Rightarrow> token option" where
  "peek p = get_at (ps_tokens p) (ps_pos p)"

definition peek_at :: "parser \<Rightarrow> nat \<Rightarrow> token option" where
  "peek_at p offset = get_at (ps_tokens p) (ps_pos p + offset)"

text \<open>\<^verbatim>\<open>self.pos += 1\<close>.\<close>

definition bump :: "parser \<Rightarrow> parser" where
  "bump p = p\<lparr>ps_pos := ps_pos p + 1\<rparr>"

definition advance :: "parser \<Rightarrow> token option \<times> parser" where
  "advance p = (case get_at (ps_tokens p) (ps_pos p) of Some t \<Rightarrow> (Some t, bump p) | None \<Rightarrow> (None, p))"

definition peek_is_ident_ci :: "parser \<Rightarrow> string \<Rightarrow> bool" where
  "peek_is_ident_ci p word = (case peek p of Some (TIdent s) \<Rightarrow> eq_ignore_ascii_case s word | _ \<Rightarrow> False)"

definition peek_is_keyword :: "parser \<Rightarrow> keyword \<Rightarrow> bool" where
  "peek_is_keyword p k \<longleftrightarrow> peek p = Some (TKeyword k)"

definition expect_ident_ci :: "string \<Rightarrow> unit parse" where
  "expect_ident_ci word p =
     (let (t, p') = advance p in
      case t of
        Some (TIdent s) \<Rightarrow>
          if eq_ignore_ascii_case s word then Ok ((), p')
          else Inl (parse_err (''expected '' @ quote_char @ word @ quote_char @ '', found '' @ describe t))
      | _ \<Rightarrow> Inl (parse_err (''expected '' @ quote_char @ word @ quote_char @ '', found '' @ describe t)))"

definition is_database_ident :: "token \<Rightarrow> bool" where
  "is_database_ident t =
     (case t of TIdent s \<Rightarrow> eq_ignore_ascii_case s ''DATABASE'' \<or> eq_ignore_ascii_case s ''SCHEMA'' | _ \<Rightarrow> False)"

definition expect_database_or_schema :: "unit parse" where
  "expect_database_or_schema p =
     (let (t, p') = advance p in
      if (case t of Some tok \<Rightarrow> is_database_ident tok | None \<Rightarrow> False) then Ok ((), p')
      else Inl (parse_err (''expected '' @ quote_char @ ''DATABASE'' @ quote_char @ '' or '' @ quote_char @ ''SCHEMA''
                          @ quote_char @ '', found '' @ describe t)))"

definition expect_keyword :: "keyword \<Rightarrow> unit parse" where
  "expect_keyword kw p =
     (let (t, p') = advance p in
      if t = Some (TKeyword kw) then Ok ((), p')
      else Inl (parse_err (''expected '' @ keyword_text kw @ '', found '' @ describe t)))"

definition expect_ident :: "string parse" where
  "expect_ident p =
     (let (t, p') = advance p in
      case t of Some (TIdent s) \<Rightarrow> Ok (s, p')
      | _ \<Rightarrow> Inl (parse_err (''expected an identifier, found '' @ describe t)))"

definition expect_punct :: "token \<Rightarrow> unit parse" where
  "expect_punct expected p =
     (let (t, p') = advance p in
      if t = Some expected then Ok ((), p')
      else Inl (parse_err (''expected '' @ quote_char @ token_text expected @ quote_char @ '', found '' @ describe t)))"

definition err_comma_or_paren :: "token option \<Rightarrow> exn" where
  "err_comma_or_paren t =
     parse_err (''expected '' @ quote_char @ '','' @ quote_char @ '' or '' @ quote_char @ '')'' @ quote_char
                @ '', found '' @ describe t)"

definition expect_unsigned_integer :: "u64 parse" where
  "expect_unsigned_integer p =
     (let (t, p') = advance p in
      case t of
        Some (TInteger n) \<Rightarrow>
          if 0 \<le> sint n then Ok (n, p')
          else Inl (parse_err (''expected a non-negative integer, found '' @ describe t))
      | _ \<Rightarrow> Inl (parse_err (''expected a non-negative integer, found '' @ describe t)))"

definition eat_semicolon_and_ensure_end :: "unit parse" where
  "eat_semicolon_and_ensure_end p =
     (let p = (if peek p = Some TSemicolon then bump p else p) in
      if ps_pos p \<noteq> length (ps_tokens p)
      then Inl (parse_err (''unexpected trailing input near '' @ describe (peek p)))
      else Ok ((), p))"

definition eat_if_not_exists :: "bool parse" where
  "eat_if_not_exists p =
     (if \<not> peek_is_ident_ci p ''IF'' then Ok (False, p)
      else
        bindR (expect_ident_ci ''NOT'' (bump p)) (\<lambda>(_, p).
        bindR (expect_ident_ci ''EXISTS'' p) (\<lambda>(_, p). Ok (True, p))))"

definition eat_if_exists :: "bool parse" where
  "eat_if_exists p =
     (if \<not> peek_is_ident_ci p ''IF'' then Ok (False, p)
      else bindR (expect_ident_ci ''EXISTS'' (bump p)) (\<lambda>(_, p). Ok (True, p)))"

definition eat_optional_name :: "parser \<Rightarrow> parser" where
  "eat_optional_name p = (case peek p of Some (TIdent _) \<Rightarrow> bump p | _ \<Rightarrow> p)"

section \<open>Progress\<close>

text \<open>
  What a step keeps: the tokens, the mode, a position within the tokens that does not move back, and a
  parameter count that does not fall.  A strict step takes a token.
\<close>

definition step_le :: "parser \<Rightarrow> parser \<Rightarrow> bool" where
  "step_le p q \<longleftrightarrow>
     ps_tokens q = ps_tokens p \<and> ps_allow_placeholders q = ps_allow_placeholders p \<and> ps_param_count p \<le> ps_param_count q
     \<and> ps_pos p \<le> ps_pos q \<and> (ps_pos p \<le> length (ps_tokens p) \<longrightarrow> ps_pos q \<le> length (ps_tokens p))"

definition step_lt :: "parser \<Rightarrow> parser \<Rightarrow> bool" where
  "step_lt p q \<longleftrightarrow> step_le p q \<and> ps_pos p < ps_pos q \<and> ps_pos p < length (ps_tokens p)"

definition remaining :: "parser \<Rightarrow> nat" where
  "remaining p = length (ps_tokens p) - ps_pos p"

lemma step_le_refl [simp, intro]: "step_le p p"
  by (simp add: step_le_def)

lemma step_le_trans [trans]: "step_le p q \<Longrightarrow> step_le q r \<Longrightarrow> step_le p r"
  by (auto simp: step_le_def)

lemma step_lt_le: "step_lt p q \<Longrightarrow> step_le p q"
  by (simp add: step_lt_def)

lemma step_lt_le_trans: "step_lt p q \<Longrightarrow> step_le q r \<Longrightarrow> step_lt p r"
  by (auto simp: step_lt_def step_le_def)

lemma step_le_lt_trans: "step_le p q \<Longrightarrow> step_lt q r \<Longrightarrow> step_lt p r"
  by (auto simp: step_lt_def step_le_def)

lemma step_lt_trans: "step_lt p q \<Longrightarrow> step_lt q r \<Longrightarrow> step_lt p r"
  by (auto simp: step_lt_def step_le_def)

lemma step_lt_remaining: "step_lt p q \<Longrightarrow> remaining q < remaining p"
  by (auto simp: step_lt_def step_le_def remaining_def)

named_theorems step_intros "progress of the parsing functions"

lemma peek_Some: "peek p = Some t \<longleftrightarrow> ps_pos p < length (ps_tokens p) \<and> ps_tokens p ! ps_pos p = t"
  by (auto simp: peek_def get_at_def)

lemma step_bump [step_intros]: "peek p = Some t \<Longrightarrow> step_lt p (bump p)"
  by (simp add: step_lt_def step_le_def bump_def peek_Some)

lemma step_bump2: "peek_at p 1 = Some t \<Longrightarrow> step_lt p (bump (bump p))"
  by (simp add: step_lt_def step_le_def bump_def peek_at_def get_at_def split: if_splits)

lemma advance_eq: "advance p = (peek p, if peek p = None then p else bump p)"
  by (simp add: advance_def peek_def split: option.split)

lemma step_advance [step_intros]: "advance p = (Some t, p') \<Longrightarrow> step_lt p p'"
  using step_bump by (auto simp: advance_eq split: if_splits)

lemma peek_ident_ci_Some: "peek_is_ident_ci p w \<Longrightarrow> \<exists>s. peek p = Some (TIdent s)"
  by (auto simp: peek_is_ident_ci_def split: option.splits token.splits)

lemma step_bump_ident_ci [step_intros]: "peek_is_ident_ci p w \<Longrightarrow> step_lt p (bump p)"
  using peek_ident_ci_Some step_bump by blast

lemma step_bump_keyword [step_intros]: "peek_is_keyword p k \<Longrightarrow> step_lt p (bump p)"
  by (simp add: peek_is_keyword_def step_bump)

lemma step_basic [step_intros]:
  "expect_ident_ci w p = Ok (a, p') \<Longrightarrow> step_lt p p'"
  "expect_database_or_schema p = Ok (b, p') \<Longrightarrow> step_lt p p'"
  "expect_keyword k p = Ok (c, p') \<Longrightarrow> step_lt p p'"
  "expect_ident p = Ok (d, p') \<Longrightarrow> step_lt p p'"
  "expect_punct t p = Ok (e, p') \<Longrightarrow> step_lt p p'"
  "expect_unsigned_integer p = Ok (f, p') \<Longrightarrow> step_lt p p'"
  by (auto simp: expect_ident_ci_def expect_database_or_schema_def expect_keyword_def expect_ident_def expect_punct_def
      expect_unsigned_integer_def Let_def advance_eq intro: step_bump split: option.splits token.splits if_splits)

lemma step_end [step_intros]: "eat_semicolon_and_ensure_end p = Ok (a, p') \<Longrightarrow> step_le p p'"
  using step_bump [of p TSemicolon] by (auto simp: eat_semicolon_and_ensure_end_def Let_def step_lt_le split: if_splits)

lemma step_eat_name [step_intros]: "step_le p (eat_optional_name p)"
  using step_bump by (auto simp: eat_optional_name_def step_lt_le split: option.splits token.splits)

lemma step_eat_if [step_intros]:
  "eat_if_not_exists p = Ok (a, p') \<Longrightarrow> step_le p p'"
  "eat_if_exists p = Ok (b, p') \<Longrightarrow> step_le p p'"
  by (auto simp: eat_if_not_exists_def eat_if_exists_def result_simps step_lt_def step_le_def split: if_splits
      dest!: step_bump_ident_ci step_basic(1))

section \<open>Names and expressions\<close>

function qualified_tail :: "string \<Rightarrow> string parse" where
  "qualified_tail name p =
     (if peek p = Some TDot then bindR (expect_ident (bump p)) (\<lambda>(name', p'). qualified_tail name' p')
      else Ok (name, p))"
  by auto
termination
  by (relation "measure (\<lambda>(_, p). remaining p)")
     (auto intro: step_lt_remaining step_lt_trans [OF step_bump step_basic(4)])

declare qualified_tail.simps [simp del]

definition expect_qualified_ident :: "string parse" where
  "expect_qualified_ident p = bindR (expect_ident p) (\<lambda>(name, p). qualified_tail name p)"

definition finish_column_ref :: "string \<Rightarrow> column_ref parse" where
  "finish_column_ref first p =
     (if peek p = Some TDot then
        bindR (expect_ident (bump p)) (\<lambda>(column, p). Ok (\<lparr>cr_table = Some first, cr_column = column\<rparr>, p))
      else Ok (\<lparr>cr_table = None, cr_column = first\<rparr>, p))"

definition parse_column_ref :: "column_ref parse" where
  "parse_column_ref p = bindR (expect_ident p) (\<lambda>(first, p). finish_column_ref first p)"

lemma step_finish_column_ref [step_intros]: "finish_column_ref first p = Ok (c, p') \<Longrightarrow> step_le p p'"
  by (auto simp: finish_column_ref_def result_simps split: if_splits
      intro: step_lt_le [OF step_lt_trans [OF step_bump step_basic(4)]])

lemma step_column_ref [step_intros]: "parse_column_ref p = Ok (c, p') \<Longrightarrow> step_lt p p'"
  by (auto simp: parse_column_ref_def result_simps intro: step_lt_le_trans step_basic(4) step_finish_column_ref)

lemma step_qualified_tail [step_intros]: "qualified_tail name p = Ok (n, p') \<Longrightarrow> step_le p p'"
proof (induction name p rule: qualified_tail.induct)
  case (1 name p)
  show ?case
  proof (cases "peek p = Some TDot")
    case True
    then obtain m q where q: "expect_ident (bump p) = Ok (m, q)" "qualified_tail m q = Ok (n, p')"
      using "1.prems" by (auto simp: qualified_tail.simps [of name p] result_simps)
    have "step_lt p q" by (rule step_lt_trans [OF step_bump [OF True] step_basic(4) [OF q(1)]])
    then show ?thesis using "1.IH" [OF True q(1) refl q(2)] step_le_trans step_lt_le by blast
  next
    case False
    then show ?thesis using "1.prems" by (simp add: qualified_tail.simps [of name p])
  qed
qed

lemma step_qualified_ident [step_intros]: "expect_qualified_ident p = Ok (n, p') \<Longrightarrow> step_lt p p'"
  by (auto simp: expect_qualified_ident_def result_simps intro: step_lt_le_trans step_basic(4) step_qualified_tail)

lemma step_count: "step_le p (p\<lparr>ps_param_count := ps_param_count p + 1\<rparr>)"
  by (simp add: step_le_def)

lemma step_call_body:
  assumes "expect_punct TLParen p = Ok (u, p1)" "c \<Longrightarrow> peek p1 = Some TStar"
    and "(if c then bindR (expect_punct TRParen (bump p1)) (\<lambda>(_, p2). Ok (f1, p2))
      else bindR (if b then args else Ok ([], p1)) (\<lambda>(as, p2). bindR (expect_punct TRParen p2) (\<lambda>(_, p3). Ok (f2 as, p3)))) = Ok (e, q)"
    and "\<And>as p2. \<not> c \<Longrightarrow> b \<Longrightarrow> args = Ok (as, p2) \<Longrightarrow> step_lt p1 p2"
  shows "step_lt p q"
proof (cases c)
  case True
  with assms(3) have "expect_punct TRParen (bump p1) = Ok ((), q)" by (auto simp: result_simps)
  then show ?thesis
    using step_lt_trans [OF step_basic(5) [OF assms(1)] step_bump [OF assms(2) [OF True]]] step_basic(5) step_lt_trans by blast
next
  case False
  with assms(3) obtain as p2 where p2: "(if b then args else Ok ([], p1)) = Ok (as, p2)" "expect_punct TRParen p2 = Ok ((), q)"
    by (auto simp: result_simps)
  have "step_le p1 p2" using p2(1) assms(4) [OF False] step_lt_le by (cases b) auto
  then show ?thesis
    using step_lt_le_trans [OF step_basic(5) [OF assms(1)]] step_basic(5) [OF p2(2)] step_lt_trans by blast
qed

lemma step_args_body:
  assumes "step_lt p p1"
    and "(if peek p1 = Some TComma then bindR rest (\<lambda>(es, p2). Ok (f es, p2)) else Ok (es1, p1)) = Ok (es, q)"
    and "\<And>es q. peek p1 = Some TComma \<Longrightarrow> rest = Ok (es, q) \<Longrightarrow> step_lt (bump p1) q"
  shows "step_lt p q"
proof (cases "peek p1 = Some TComma")
  case True
  with assms(2) obtain ys where "rest = Ok (ys, q)" by (auto simp: result_simps)
  then have "step_lt (bump p1) q" using assms(3) True by blast
  then show ?thesis using assms(1) step_bump [OF True] step_lt_trans by blast
next
  case False
  then show ?thesis using assms(1,2) by simp
qed

function parse_expr :: "expr parse" and parse_function_call :: "string \<Rightarrow> expr parse" and parse_args :: "expr list parse" where
  "parse_expr p =
     (let (t, p1) = advance p in
      case t of
        Some (TInteger n) \<Rightarrow> Ok (EInteger n, p1)
      | Some (TDecimal unscaled scale) \<Rightarrow> Ok (EDecimal unscaled scale, p1)
      | Some (TStr s) \<Rightarrow> Ok (EString s, p1)
      | Some (TKeyword KwNull) \<Rightarrow> Ok (ENull, p1)
      | Some (TSystemVariable name) \<Rightarrow> Ok (ESystemVariable name, p1)
      | Some (TIdent name) \<Rightarrow>
          if eq_ignore_ascii_case name ''TRUE'' then Ok (EInteger 1, p1)
          else if eq_ignore_ascii_case name ''FALSE'' then Ok (EInteger 0, p1)
          else if peek p1 = Some TLParen then parse_function_call name p1
          else map_result (\<lambda>(c, p2). (EColumn c, p2)) (finish_column_ref name p1)
      | Some TPlaceholder \<Rightarrow>
          if ps_allow_placeholders p
          then Ok (EPlaceholder (ps_param_count p1), p1\<lparr>ps_param_count := ps_param_count p1 + 1\<rparr>)
          else Inl (parse_err (quote_char @ ''?'' @ quote_char @ '' placeholders are only allowed in prepared statements''))
      | _ \<Rightarrow> Inl (parse_err (''expected a value or column, found '' @ describe t)))"
| "parse_function_call name p =
     bindR (expect_punct TLParen p) (\<lambda>(_, p1).
     if eq_ignore_ascii_case name ''COUNT'' \<and> peek p1 = Some TStar then
       bindR (expect_punct TRParen (bump p1)) (\<lambda>(_, p2). Ok (EFunction name [], p2))
     else
       bindR (if peek p1 \<noteq> Some TRParen then parse_args p1 else Ok ([], p1)) (\<lambda>(args, p2).
       bindR (expect_punct TRParen p2) (\<lambda>(_, p3). Ok (EFunction name args, p3))))"
| "parse_args p =
     bindR (parse_expr p) (\<lambda>(e, p1).
     if peek p1 = Some TComma then bindR (parse_args (bump p1)) (\<lambda>(es, p2). Ok (e # es, p2))
     else Ok ([e], p1))"
  by pat_completeness auto

termination
proof (relation "measure (\<lambda>x. case x of Inl p \<Rightarrow> 2 * remaining p | Inr (Inl (_, p)) \<Rightarrow> 2 * remaining p | Inr (Inr p) \<Rightarrow> 2 * remaining p + 1)",
    goal_cases)
  case (2 p x t p1 tok name)
  then have "advance p = (Some (TIdent name), p1)" by simp
  from step_lt_remaining [OF step_advance [OF this]] show ?case by simp
next
  case (3 name p x u p1)
  then have "expect_punct TLParen p = Ok (u, p1)" by simp
  from step_lt_remaining [OF step_basic(5) [OF this]] show ?case by simp
next
  case (5 p x e p1)
  have partial: "parse_expr_parse_function_call_parse_args_dom (Inl p) \<Longrightarrow> (\<forall>e q. parse_expr p = Ok (e, q) \<longrightarrow> step_lt p q)"
    "parse_expr_parse_function_call_parse_args_dom (Inr (Inl (name, r))) \<Longrightarrow> (\<forall>e q. parse_function_call name r = Ok (e, q) \<longrightarrow> step_lt r q)"
    "parse_expr_parse_function_call_parse_args_dom (Inr (Inr s)) \<Longrightarrow> (\<forall>es q. parse_args s = Ok (es, q) \<longrightarrow> step_lt s q)" for p name r s
  proof (induction p and name r and s rule: parse_expr_parse_function_call_parse_args.pinduct)
    case (1 p)
    obtain t p1 where a: "advance p = (t, p1)" by (cases "advance p")
    have call: "step_lt p q" if "t = Some (TIdent name)" "\<not> eq_ignore_ascii_case name ''TRUE''" "\<not> eq_ignore_ascii_case name ''FALSE''"
        "peek p1 = Some TLParen" "parse_function_call name p1 = Ok (e, q)" for name e q
      using 1(2) [OF a [symmetric] refl that(1) refl that(2-4)] that(1,5) step_advance [of p] a step_lt_trans by blast
    show ?case
      using call step_advance [of p] a
      by (auto simp: parse_expr.psimps [OF 1(1)] result_simps split: option.splits token.splits keyword.splits if_splits
          intro: step_lt_le_trans step_finish_column_ref step_count [simplified])
  next
    case (2 name p)
    show ?case
    proof (intro allI impI)
      fix e q
      assume "parse_function_call name p = Ok (e, q)"
      note e = this [unfolded parse_function_call.psimps [OF 2(1)]]
      from e obtain p1 where p1: "expect_punct TLParen p = Ok ((), p1)" by (auto simp: result_simps)
      show "step_lt p q" by (rule step_call_body [OF p1 _ e [unfolded p1 bindR.simps prod.case]]) (use 2(2) [OF p1 refl] in auto)
    qed
  next
    case (3 p)
    show ?case
    proof (intro allI impI)
      fix es q
      assume "parse_args p = Ok (es, q)"
      note e = this [unfolded parse_args.psimps [OF 3(1)]]
      from e obtain x p1 where p1: "parse_expr p = Ok (x, p1)" by (auto simp: result_simps)
      show "step_lt p q"
        by (rule step_args_body [OF _ e [unfolded p1 bindR.simps prod.case]]) (use 3(2) 3(3) [OF p1 refl] p1 in auto)
    qed
  qed
  from 5 have "step_lt p (bump p1)" using partial(1) step_bump step_lt_trans by blast
  then show ?case using step_lt_remaining by auto
qed auto

declare parse_expr.simps [simp del] parse_function_call.simps [simp del] parse_args.simps [simp del]

lemma step_expr_call_args:
  "\<forall>e q. parse_expr p = Ok (e, q) \<longrightarrow> step_lt p q"
  "\<forall>e q. parse_function_call name r = Ok (e, q) \<longrightarrow> step_lt r q"
  "\<forall>es q. parse_args s = Ok (es, q) \<longrightarrow> step_lt s q"
proof (induction p and name r and s rule: parse_expr_parse_function_call_parse_args.induct)
  case (1 p)
  obtain t p1 where a: "advance p = (t, p1)" by (cases "advance p")
  have call: "step_lt p q" if "t = Some (TIdent name)" "\<not> eq_ignore_ascii_case name ''TRUE''" "\<not> eq_ignore_ascii_case name ''FALSE''"
      "peek p1 = Some TLParen" "parse_function_call name p1 = Ok (e, q)" for name e q
    using 1 [OF a [symmetric] refl that(1) refl that(2-4)] that(1,5) step_advance [of p] a step_lt_trans by blast
  show ?case
    using call step_advance [of p] a
    by (auto simp: parse_expr.simps [of p] result_simps split: option.splits token.splits keyword.splits if_splits
        intro: step_lt_le_trans step_finish_column_ref step_count [simplified])
next
  case (2 name p)
  show ?case
  proof (intro allI impI)
    fix e q
    assume "parse_function_call name p = Ok (e, q)"
    note e = this [unfolded parse_function_call.simps [of name p]]
    from e obtain p1 where p1: "expect_punct TLParen p = Ok ((), p1)" by (auto simp: result_simps)
    show "step_lt p q" by (rule step_call_body [OF p1 _ e [unfolded p1 bindR.simps prod.case]]) (use 2 [OF p1 refl] in auto)
  qed
next
  case (3 p)
  show ?case
  proof (intro allI impI)
    fix es q
    assume "parse_args p = Ok (es, q)"
    note e = this [unfolded parse_args.simps [of p]]
    from e obtain x p1 where p1: "parse_expr p = Ok (x, p1)" by (auto simp: result_simps)
    show "step_lt p q"
      by (rule step_args_body [OF _ e [unfolded p1 bindR.simps prod.case]]) (use 3(1) 3(2) [OF p1 refl] p1 in auto)
  qed
qed

lemma step_expr [step_intros]:
  "parse_expr p = Ok (e, p') \<Longrightarrow> step_lt p p'"
  "parse_function_call name p = Ok (e, p') \<Longrightarrow> step_lt p p'"
  "parse_args p = Ok (es, p') \<Longrightarrow> step_lt p p'"
  using step_expr_call_args by simp_all

end
