(* ===== verification/Sql_Parser.thy ===== *)
theory Sql_Parser
  imports Parser_Core
begin

text \<open>
  The statements of \<^verbatim>\<open>src/src/query/parser.rs\<close>: column definitions and table constraints, DDL, INSERT,
  SELECT with its clauses, the statements that are accepted and ignored, and the entry points
  \<^verbatim>\<open>parse\<close>, \<^verbatim>\<open>parse_many\<close> and \<^verbatim>\<open>parse_prepared\<close>.
\<close>

section \<open>Lists\<close>

text \<open>The \<^verbatim>\<open>match self.advance()\<close> at the end of a list element: go on after a comma, stop after a parenthesis.\<close>

definition comma_or_close :: "bool parse" where
  "comma_or_close p =
     (let (t, p') = advance p in
      if t = Some TComma then Ok (True, p')
      else if t = Some TRParen then Ok (False, p')
      else Inl (err_comma_or_paren t))"

lemma step_comma_or_close [step_intros]: "comma_or_close p = Ok (b, p') \<Longrightarrow> step_lt p p'"
  by (auto simp: comma_or_close_def advance_eq intro: step_bump split: if_splits)

definition prefix_length :: "unit parse" where
  "prefix_length p =
     (if peek p = Some TLParen then
        let (t, p1) = advance (bump p) in
        case t of
          Some (TInteger _) \<Rightarrow> expect_punct TRParen p1
        | _ \<Rightarrow> Inl (parse_err (''expected an integer prefix length, found '' @ describe t))
      else Ok ((), p))"

lemma step_prefix_length [step_intros]: "prefix_length p = Ok (u, p') \<Longrightarrow> step_le p p'"
  using step_bump [of p TLParen] step_advance [of "bump p"]
  by (auto simp: prefix_length_def Let_def step_lt_le split: if_splits prod.splits option.splits token.splits
      dest!: step_basic(5) intro!: step_lt_le intro: step_lt_trans)

function column_list_loop :: "string list parse" where
  "column_list_loop p =
     bindR (expect_ident p) (\<lambda>(c, p1).
     bindR (prefix_length p1) (\<lambda>(_, p2).
     bindR (comma_or_close p2) (\<lambda>(more, p3).
     if more then bindR (column_list_loop p3) (\<lambda>(cs, p4). Ok (c # cs, p4)) else Ok ([c], p3))))"
  by auto
termination
proof (relation "measure remaining", goal_cases)
  case (2 p x c p1 y u p2 z more p3)
  then have "step_lt p p1" "step_le p1 p2" "step_lt p2 p3"
    by (auto dest: step_basic(4) step_prefix_length step_comma_or_close)
  then show ?case using step_lt_remaining step_lt_le_trans step_lt_trans by (metis in_measure)
qed simp

definition parse_parenthesized_column_list :: "string list parse" where
  "parse_parenthesized_column_list p = bindR (expect_punct TLParen p) (\<lambda>(_, p1). column_list_loop p1)"

function type_args_loop :: "i64 list parse" where
  "type_args_loop p =
     (let (t, p1) = advance p in
      case t of
        Some (TInteger n) \<Rightarrow>
          bindR (comma_or_close p1) (\<lambda>(more, p2).
          if more then bindR (type_args_loop p2) (\<lambda>(ns, p3). Ok (n # ns, p3)) else Ok ([n], p2))
      | _ \<Rightarrow> Inl (parse_err (''expected an integer in type size, found '' @ describe t)))"
  by auto
termination
proof (relation "measure remaining", goal_cases)
  case (2 p x t p1 tok n y more p2)
  then have "step_lt p p1" "step_lt p1 p2" by (auto dest: step_comma_or_close intro: step_advance [OF sym])
  then show ?case using step_lt_remaining step_lt_trans by (metis in_measure)
qed simp

function insert_columns_loop :: "string list parse" where
  "insert_columns_loop p =
     bindR (expect_ident p) (\<lambda>(c, p1).
     bindR (comma_or_close p1) (\<lambda>(more, p2).
     if more then bindR (insert_columns_loop p2) (\<lambda>(cs, p3). Ok (c # cs, p3)) else Ok ([c], p2)))"
  by auto
termination
proof (relation "measure remaining", goal_cases)
  case (2 p x c p1 y more p2)
  then have "step_lt p p1" "step_lt p1 p2" by (auto dest: step_basic(4) step_comma_or_close)
  then show ?case using step_lt_remaining step_lt_trans by (metis in_measure)
qed simp

function values_loop :: "expr list parse" where
  "values_loop p =
     bindR (parse_expr p) (\<lambda>(e, p1).
     bindR (comma_or_close p1) (\<lambda>(more, p2).
     if more then bindR (values_loop p2) (\<lambda>(es, p3). Ok (e # es, p3)) else Ok ([e], p2)))"
  by auto
termination
proof (relation "measure remaining", goal_cases)
  case (2 p x e p1 y more p2)
  then have "step_lt p p1" "step_lt p1 p2" by (auto dest: step_expr(1) step_comma_or_close)
  then show ?case using step_lt_remaining step_lt_trans by (metis in_measure)
qed simp

declare column_list_loop.simps [simp del] type_args_loop.simps [simp del] insert_columns_loop.simps [simp del]
  values_loop.simps [simp del]

text \<open>Each of these loops takes at least one token.\<close>

lemma step_column_list_loop: "column_list_loop p = Ok (cs, p') \<Longrightarrow> step_lt p p'"
proof (induction p arbitrary: cs p' rule: column_list_loop.induct)
  case (1 p)
  from "1.prems" obtain c p1 u p2 more p3 where s: "expect_ident p = Ok (c, p1)" "prefix_length p1 = Ok (u, p2)"
    "comma_or_close p2 = Ok (more, p3)" and r: "if more then \<exists>ds. column_list_loop p3 = Ok (ds, p') else p' = p3"
    by (auto simp: column_list_loop.simps [of p] result_simps split: if_splits)
  have "step_lt p p3"
    using step_basic(4) [OF s(1)] step_prefix_length [OF s(2)] step_comma_or_close [OF s(3)] step_lt_le_trans step_lt_trans by blast
  then show ?case using r "1.IH" [OF s(1) refl s(2) refl s(3) refl] step_lt_trans by (cases more) auto
qed

lemma step_column_list [step_intros]: "parse_parenthesized_column_list p = Ok (cs, p') \<Longrightarrow> step_lt p p'"
  by (auto simp: parse_parenthesized_column_list_def result_simps intro: step_lt_trans step_basic(5) step_column_list_loop)

lemma step_type_args_loop [step_intros]: "type_args_loop p = Ok (ns, p') \<Longrightarrow> step_lt p p'"
proof (induction p arbitrary: ns p' rule: type_args_loop.induct)
  case (1 p)
  from "1.prems" obtain n p1 more p2 where s: "advance p = (Some (TInteger n), p1)" "comma_or_close p1 = Ok (more, p2)"
    and r: "if more then \<exists>ds. type_args_loop p2 = Ok (ds, p') else p' = p2"
    by (auto simp: type_args_loop.simps [of p] result_simps split: if_splits option.splits token.splits prod.splits)
  have "step_lt p p2" using step_advance [OF s(1)] step_comma_or_close [OF s(2)] step_lt_trans by blast
  then show ?case using r "1.IH" [OF s(1) [symmetric] refl refl refl s(2) refl] step_lt_trans by (cases more) auto
qed

lemma step_insert_columns_loop [step_intros]: "insert_columns_loop p = Ok (cs, p') \<Longrightarrow> step_lt p p'"
proof (induction p arbitrary: cs p' rule: insert_columns_loop.induct)
  case (1 p)
  from "1.prems" obtain c p1 more p2 where s: "expect_ident p = Ok (c, p1)" "comma_or_close p1 = Ok (more, p2)"
    and r: "if more then \<exists>ds. insert_columns_loop p2 = Ok (ds, p') else p' = p2"
    by (auto simp: insert_columns_loop.simps [of p] result_simps split: if_splits)
  have "step_lt p p2" using step_basic(4) [OF s(1)] step_comma_or_close [OF s(2)] step_lt_trans by blast
  then show ?case using r "1.IH" [OF s(1) refl s(2) refl] step_lt_trans by (cases more) auto
qed

lemma step_values_loop [step_intros]: "values_loop p = Ok (es, p') \<Longrightarrow> step_lt p p'"
proof (induction p arbitrary: es p' rule: values_loop.induct)
  case (1 p)
  from "1.prems" obtain e p1 more p2 where s: "parse_expr p = Ok (e, p1)" "comma_or_close p1 = Ok (more, p2)"
    and r: "if more then \<exists>ds. values_loop p2 = Ok (ds, p') else p' = p2"
    by (auto simp: values_loop.simps [of p] result_simps split: if_splits)
  have "step_lt p p2" using step_expr(1) [OF s(1)] step_comma_or_close [OF s(2)] step_lt_trans by blast
  then show ?case using r "1.IH" [OF s(1) refl s(2) refl] step_lt_trans by (cases more) auto
qed

section \<open>Skipping\<close>

text \<open>\<^verbatim>\<open>while let Some(tok) = self.peek() { if stop(tok) { break } self.pos += 1 }\<close>.\<close>

function skip_until :: "(token \<Rightarrow> bool) \<Rightarrow> parser \<Rightarrow> parser" where
  "skip_until stop p =
     (case peek p of
        None \<Rightarrow> p
      | Some t \<Rightarrow> if stop t then p else skip_until stop (bump p))"
  by pat_completeness auto
termination
  by (relation "measure (\<lambda>(_, p). remaining p)") (auto intro: step_lt_remaining step_bump)

declare skip_until.simps [simp del]

lemma step_skip_until [step_intros]: "step_le p (skip_until stop p)"
proof (induction stop p rule: skip_until.induct)
  case (1 stop p)
  show ?case
  proof (cases "peek p")
    case None
    then show ?thesis by (simp add: skip_until.simps [of stop p])
  next
    case (Some t)
    then show ?thesis using 1 [OF Some] step_lt_le [OF step_bump [OF Some]] step_le_trans
      by (auto simp: skip_until.simps [of stop p])
  qed
qed

definition consume_to_statement_end :: "parser \<Rightarrow> parser" where
  "consume_to_statement_end p = skip_until (\<lambda>t. t = TSemicolon) p"

text \<open>The words UNSIGNED and ZEROFILL after a type.\<close>

function skip_numeric_modifiers :: "parser \<Rightarrow> parser" where
  "skip_numeric_modifiers p =
     (if peek_is_ident_ci p ''UNSIGNED'' \<or> peek_is_ident_ci p ''ZEROFILL'' then skip_numeric_modifiers (bump p) else p)"
  by auto
termination
  by (relation "measure remaining") (auto intro: step_lt_remaining step_bump_ident_ci)

declare skip_numeric_modifiers.simps [simp del]

lemma step_skip_numeric [step_intros]: "step_le p (skip_numeric_modifiers p)"
proof (induction p rule: skip_numeric_modifiers.induct)
  case (1 p)
  show ?case
  proof (cases "peek_is_ident_ci p ''UNSIGNED'' \<or> peek_is_ident_ci p ''ZEROFILL''")
    case True
    then have "step_le p (bump p)" using step_bump_ident_ci step_lt_le by blast
    with 1 [OF True] True show ?thesis using step_le_trans by (simp add: skip_numeric_modifiers.simps [of p])
  next
    case False
    then show ?thesis by (simp add: skip_numeric_modifiers.simps [of p])
  qed
qed

section \<open>Column definitions and table constraints\<close>

fun join_strings :: "string \<Rightarrow> string list \<Rightarrow> string" where
  "join_strings sep [] = []"
| "join_strings sep [s] = s"
| "join_strings sep (s # t # ss) = s @ sep @ join_strings sep (t # ss)"

text \<open>
  The loop over the attributes of a column.  One round reads one attribute and updates the three
  flags (primary key, nullable, AUTO\_INCREMENT), or finds none and ends the loop.
\<close>

type_synonym attr_flags = "bool \<times> bool \<times> bool"

definition column_attr :: "attr_flags \<Rightarrow> parser \<Rightarrow> (attr_flags \<times> parser) option result" where
  "column_attr = (\<lambda>(pk, nullable, auto) p.
     if peek_is_keyword p KwNull then Ok (Some ((pk, True, auto), bump p))
     else if peek_is_ident_ci p ''NOT'' \<and> peek_at p 1 = Some (TKeyword KwNull) then
       Ok (Some ((pk, False, auto), bump (bump p)))
     else if peek_is_ident_ci p ''AUTO_INCREMENT'' then Ok (Some ((pk, nullable, True), bump p))
     else if peek_is_keyword p KwPrimary then
       bindR (expect_keyword KwKey (bump p)) (\<lambda>(_, p1). Ok (Some ((True, nullable, auto), p1)))
     else if peek_is_ident_ci p ''UNIQUE'' then
       Ok (Some ((pk, nullable, auto), if peek_is_keyword (bump p) KwKey then bump (bump p) else bump p))
     else if peek_is_ident_ci p ''DEFAULT'' then
       bindR (parse_expr (bump p)) (\<lambda>(_, p1). Ok (Some ((pk, nullable, auto), p1)))
     else if peek_is_ident_ci p ''COMMENT'' then
       (let (t, p1) = advance (bump p) in
        case t of
          Some (TStr _) \<Rightarrow> Ok (Some ((pk, nullable, auto), p1))
        | _ \<Rightarrow> Inl (parse_err (''expected a string after COMMENT, found '' @ describe t)))
     else Ok None)"

lemma step_column_attr:
  assumes "column_attr fl p = Ok (Some (fl', p'))"
  shows "step_lt p p'"
proof (cases fl)
  case (fields pk nullable auto)
  show ?thesis
    using assms unfolding column_attr_def fields prod.case Let_def
    by (auto simp: result_simps split: if_splits prod.splits option.splits token.splits
        intro: step_bump_keyword step_bump2 [unfolded One_nat_def] step_bump_ident_ci step_lt_trans [OF step_bump_keyword step_basic(3)]
          step_lt_trans [OF step_bump_ident_ci step_bump_keyword] step_lt_trans [OF step_bump_ident_ci step_expr(1)]
          step_lt_trans [OF step_bump_ident_ci step_advance])
qed

function column_attrs :: "attr_flags \<Rightarrow> attr_flags parse" where
  "column_attrs fl p =
     bindR (column_attr fl p) (\<lambda>m.
     case m of None \<Rightarrow> Ok (fl, p) | Some (fl', p1) \<Rightarrow> column_attrs fl' p1)"
  by auto
termination
  by (relation "measure (\<lambda>(_, p). remaining p)") (auto intro: step_lt_remaining step_column_attr)

declare column_attrs.simps [simp del]

lemma step_column_attrs [step_intros]: "column_attrs fl p = Ok (r, p') \<Longrightarrow> step_le p p'"
proof (induction fl p arbitrary: r p' rule: column_attrs.induct)
  case (1 fl p)
  from "1.prems" obtain m where m: "column_attr fl p = Ok m"
    by (auto simp: column_attrs.simps [of fl p] result_simps)
  show ?case
  proof (cases m)
    case None
    then show ?thesis using "1.prems" m by (simp add: column_attrs.simps [of fl p])
  next
    case (Some x)
    obtain fl' p1 where x: "x = (fl', p1)" by (cases x)
    then have "column_attrs fl' p1 = Ok (r, p')" using "1.prems" m Some by (simp add: column_attrs.simps [of fl p])
    then have "step_le p1 p'" using "1.IH" m Some x by blast
    then show ?thesis using step_lt_le [OF step_column_attr] m Some x step_le_trans by blast
  qed
qed

definition type_size :: "string \<Rightarrow> string parse" where
  "type_size base p =
     (if peek p = Some TLParen then
        bindR (type_args_loop (bump p)) (\<lambda>(args, p1).
        Ok (base @ ''('' @ join_strings '','' (map show_i64 args) @ '')'', p1))
      else Ok (base, p))"

definition parse_column_def :: "column_def parse" where
  "parse_column_def p =
     bindR (expect_ident p) (\<lambda>(name, p1).
     bindR (expect_ident p1) (\<lambda>(base_type_name, p2).
     bindR (type_size base_type_name p2) (\<lambda>(type_name, p3).
     bindR (column_attrs (False, True, False) (skip_numeric_modifiers p3)) (\<lambda>((is_primary_key, nullable, auto_increment), p4).
     Ok (\<lparr>cd_name = name, cd_type_name = type_name, cd_is_primary_key = is_primary_key, cd_nullable = nullable,
          cd_auto_increment = auto_increment\<rparr>, p4)))))"

lemma step_type_size [step_intros]: "type_size base p = Ok (t, p') \<Longrightarrow> step_le p p'"
  by (auto simp: type_size_def result_simps split: if_splits
      intro: step_lt_le [OF step_lt_trans [OF step_bump step_type_args_loop]])

lemma step_column_def [step_intros]: "parse_column_def p = Ok (c, p') \<Longrightarrow> step_lt p p'"
  by (auto simp: parse_column_def_def result_simps
      intro: step_lt_trans [OF step_basic(4) step_lt_le_trans [OF step_basic(4)
        step_le_trans [OF step_type_size step_le_trans [OF step_skip_numeric step_column_attrs]]]])

definition peek_is_table_constraint_start :: "parser \<Rightarrow> bool" where
  "peek_is_table_constraint_start p \<longleftrightarrow>
     peek_is_keyword p KwPrimary \<or> peek_is_keyword p KwKey \<or> peek_is_ident_ci p ''CONSTRAINT'' \<or> peek_is_ident_ci p ''UNIQUE''
     \<or> peek_is_ident_ci p ''INDEX'' \<or> peek_is_ident_ci p ''FOREIGN''"

definition apply_primary_key_constraint :: "column_def list \<Rightarrow> string list \<Rightarrow> column_def list result" where
  "apply_primary_key_constraint columns pk_columns =
     (case pk_columns of
        [name] \<Rightarrow>
          (case position (\<lambda>c. cd_name c = name) columns of
             Some i \<Rightarrow> Ok (columns[i := (columns ! i)\<lparr>cd_is_primary_key := True\<rparr>])
           | None \<Rightarrow> Inl (parse_err (''PRIMARY KEY references unknown column '' @ quote_char @ name @ quote_char)))
      | _ \<Rightarrow> Inl (Err (Unsupported ''composite primary keys'')))"

definition is_comma_or_close :: "token \<Rightarrow> bool" where
  "is_comma_or_close t \<longleftrightarrow> t = TComma \<or> t = TRParen"

definition parse_table_constraint :: "column_def list \<Rightarrow> column_def list parse" where
  "parse_table_constraint columns p0 =
     (let p = (if peek_is_ident_ci p0 ''CONSTRAINT'' then eat_optional_name (bump p0) else p0) in
      if peek_is_keyword p KwPrimary then
        bindR (expect_keyword KwKey (bump p)) (\<lambda>(_, p1).
        bindR (parse_parenthesized_column_list p1) (\<lambda>(pk_columns, p2).
        bindR (apply_primary_key_constraint columns pk_columns) (\<lambda>columns'. Ok (columns', p2))))
      else if peek_is_ident_ci p ''UNIQUE'' then
        (let p1 = bump p;
             p2 = (if peek_is_keyword p1 KwKey \<or> peek_is_ident_ci p1 ''INDEX'' then bump p1 else p1)
         in bindR (parse_parenthesized_column_list (eat_optional_name p2)) (\<lambda>(_, p3). Ok (columns, p3)))
      else if peek_is_keyword p KwKey \<or> peek_is_ident_ci p ''INDEX'' then
        bindR (parse_parenthesized_column_list (eat_optional_name (bump p))) (\<lambda>(_, p1). Ok (columns, p1))
      else if peek_is_ident_ci p ''FOREIGN'' then
        bindR (expect_keyword KwKey (bump p)) (\<lambda>(_, p1).
        bindR (parse_parenthesized_column_list (eat_optional_name p1)) (\<lambda>(_, p2).
        bindR (expect_ident_ci ''REFERENCES'' p2) (\<lambda>(_, p3).
        bindR (expect_qualified_ident p3) (\<lambda>(_, p4).
        bindR (parse_parenthesized_column_list p4) (\<lambda>(_, p5).
        Ok (columns, skip_until is_comma_or_close p5))))))
      else Inl (parse_err (''expected a table constraint (PRIMARY KEY/UNIQUE/KEY/FOREIGN KEY), found '' @ describe (peek p))))"

lemma step_table_constraint [step_intros]:
  assumes "parse_table_constraint columns p = Ok (cs, p')"
  shows "step_lt p p'"
proof -
  define q where "q = (if peek_is_ident_ci p ''CONSTRAINT'' then eat_optional_name (bump p) else p)"
  have pq: "step_le p q"
    using step_le_trans [OF step_lt_le [OF step_bump_ident_ci] step_eat_name] by (simp add: q_def)
  have "step_lt q p'"
    using assms unfolding parse_table_constraint_def q_def [symmetric] Let_def
    by (auto simp: result_simps split: if_splits
        intro: step_lt_trans [OF step_bump_keyword step_lt_trans [OF step_basic(3) step_column_list]]
          step_lt_trans [OF step_bump_ident_ci step_le_lt_trans [OF step_eat_name step_column_list]]
          step_lt_trans [OF step_bump_keyword step_le_lt_trans [OF step_eat_name step_column_list]]
          step_lt_trans [OF step_bump_ident_ci step_lt_trans [OF step_bump_ident_ci step_le_lt_trans [OF step_eat_name step_column_list]]]
          step_lt_trans [OF step_bump_ident_ci step_lt_trans [OF step_bump_keyword step_le_lt_trans [OF step_eat_name step_column_list]]]
          step_lt_trans [OF step_bump_ident_ci step_lt_trans [OF step_basic(3) step_le_lt_trans [OF step_eat_name
            step_lt_trans [OF step_column_list step_lt_trans [OF step_basic(1) step_lt_trans [OF step_qualified_ident
            step_lt_le_trans [OF step_column_list step_skip_until]]]]]]])
  then show ?thesis using pq step_le_lt_trans by blast
qed

section \<open>Statements that are accepted and ignored, transactions, databases\<close>

definition parse_create_database :: "statement parse" where
  "parse_create_database p =
     bindR (expect_keyword KwCreate p) (\<lambda>(_, p).
     bindR (expect_database_or_schema p) (\<lambda>(_, p).
     bindR (eat_if_not_exists p) (\<lambda>(if_not_exists, p).
     bindR (expect_ident p) (\<lambda>(name, p).
     bindR (eat_semicolon_and_ensure_end (consume_to_statement_end p)) (\<lambda>(_, p).
     Ok (StCreateDatabase name if_not_exists, p))))))"

definition parse_drop_database :: "statement parse" where
  "parse_drop_database p =
     bindR (expect_keyword KwDrop p) (\<lambda>(_, p).
     bindR (expect_database_or_schema p) (\<lambda>(_, p).
     bindR (eat_if_exists p) (\<lambda>(if_exists, p).
     bindR (expect_ident p) (\<lambda>(name, p).
     bindR (eat_semicolon_and_ensure_end p) (\<lambda>(_, p).
     Ok (StDropDatabase name if_exists, p))))))"

definition parse_set :: "statement parse" where
  "parse_set p =
     bindR (expect_keyword KwSet p) (\<lambda>(_, p).
     bindR (eat_semicolon_and_ensure_end (skip_until (\<lambda>t. t = TSemicolon) p)) (\<lambda>(_, p). Ok (StSet, p)))"

definition parse_use :: "statement parse" where
  "parse_use p =
     bindR (expect_keyword KwUse p) (\<lambda>(_, p).
     bindR (eat_semicolon_and_ensure_end (skip_until (\<lambda>t. t = TSemicolon) p)) (\<lambda>(_, p). Ok (StUse, p)))"

definition parse_optional_like :: "string option parse" where
  "parse_optional_like p =
     (if \<not> peek_is_ident_ci p ''LIKE'' then Ok (None, p)
      else
        let (t, p1) = advance (bump p) in
        case t of
          Some (TStr pattern) \<Rightarrow> Ok (Some pattern, p1)
        | _ \<Rightarrow> Inl (parse_err (''expected a string pattern after LIKE, found '' @ describe t)))"

definition show_head :: "parser \<Rightarrow> string option" where
  "show_head p = (case peek p of Some (TIdent s) \<Rightarrow> Some (to_ascii_uppercase s) | _ \<Rightarrow> None)"

definition parse_show :: "statement parse" where
  "parse_show p0 =
     bindR (expect_keyword KwShow p0) (\<lambda>(_, p).
     let head = show_head p;
         fin = (\<lambda>what. bindR (eat_semicolon_and_ensure_end (consume_to_statement_end p)) (\<lambda>(_, p1). Ok (StShow what, p1)))
     in
     if head = Some ''WARNINGS'' \<or> head = Some ''ERRORS'' then fin ShowWarnings
     else if head = Some ''DATABASES'' \<or> head = Some ''SCHEMAS'' then fin ShowDatabases
     else if head = Some ''TABLES'' then fin ShowTables
     else if head = Some ''CHARSET'' then fin ShowCharacterSet
     else if head = Some ''CHARACTER'' \<and> peek_at p 1 = Some (TKeyword KwSet) then fin ShowCharacterSet
     else if head = Some ''COLLATION'' then fin ShowCollation
     else if head = Some ''VARIABLES'' \<or> head = Some ''STATUS'' then
       bindR (parse_optional_like (bump p)) (\<lambda>(like, p1).
       bindR (eat_semicolon_and_ensure_end (consume_to_statement_end p1)) (\<lambda>(_, p2). Ok (StShow (ShowVariables like), p2)))
     else fin ShowOther)"

definition parse_begin :: "statement parse" where
  "parse_begin p =
     bindR (expect_keyword KwBegin p) (\<lambda>(_, p). bindR (eat_semicolon_and_ensure_end p) (\<lambda>(_, p). Ok (StBegin, p)))"

definition parse_start_transaction :: "statement parse" where
  "parse_start_transaction p =
     bindR (expect_keyword KwStart p) (\<lambda>(_, p).
     bindR (expect_keyword KwTransaction p) (\<lambda>(_, p).
     bindR (eat_semicolon_and_ensure_end p) (\<lambda>(_, p). Ok (StBegin, p))))"

definition parse_simple :: "keyword \<Rightarrow> statement \<Rightarrow> statement parse" where
  "parse_simple kw st p =
     bindR (expect_keyword kw p) (\<lambda>(_, p). bindR (eat_semicolon_and_ensure_end p) (\<lambda>(_, p). Ok (st, p)))"

section \<open>Tables\<close>

definition create_item :: "column_def list \<Rightarrow> column_def list parse" where
  "create_item columns p =
     (if peek_is_table_constraint_start p then parse_table_constraint columns p
      else map_result (\<lambda>(c, p1). (columns @ [c], p1)) (parse_column_def p))"

lemma step_create_item [step_intros]: "create_item columns p = Ok (cs, p') \<Longrightarrow> step_lt p p'"
  by (auto simp: create_item_def result_simps split: if_splits intro: step_table_constraint step_column_def)

function create_items :: "column_def list \<Rightarrow> column_def list parse" where
  "create_items columns p =
     bindR (create_item columns p) (\<lambda>(columns', p1).
     bindR (comma_or_close p1) (\<lambda>(more, p2).
     if more then create_items columns' p2 else Ok (columns', p2)))"
  by auto
termination
  by (relation "measure (\<lambda>(_, p). remaining p)")
     (auto intro: step_lt_remaining step_lt_trans [OF step_create_item step_comma_or_close])

declare create_items.simps [simp del]

definition parse_create_table :: "statement parse" where
  "parse_create_table p =
     bindR (expect_keyword KwCreate p) (\<lambda>(_, p).
     bindR (expect_keyword KwTable p) (\<lambda>(_, p).
     bindR (expect_qualified_ident p) (\<lambda>(table, p).
     bindR (expect_punct TLParen p) (\<lambda>(_, p).
     bindR (create_items [] p) (\<lambda>(columns, p).
     bindR (eat_semicolon_and_ensure_end (consume_to_statement_end p)) (\<lambda>(_, p).
     Ok (StCreateTable table columns, p)))))))"

definition parse_alter_add_action :: "alter_action parse" where
  "parse_alter_add_action p0 =
     (let named_constraint = peek_is_ident_ci p0 ''CONSTRAINT'';
          p = (if named_constraint then eat_optional_name (bump p0) else p0)
      in
      if peek_is_keyword p KwPrimary then
        bindR (expect_keyword KwKey (bump p)) (\<lambda>(_, p1).
        bindR (parse_parenthesized_column_list p1) (\<lambda>(pk_columns, p2).
        case pk_columns of
          [name] \<Rightarrow> Ok (ActAddPrimaryKey name, p2)
        | _ \<Rightarrow> Inl (Err (Unsupported ''composite primary keys''))))
      else if named_constraint then Inl (Err (Unsupported ''ALTER TABLE ADD CONSTRAINT other than PRIMARY KEY''))
      else
        map_result (\<lambda>(c, p1). (ActAddColumn c, p1))
          (parse_column_def (if peek_is_ident_ci p ''COLUMN'' then bump p else p)))"

definition parse_alter_drop_action :: "alter_action parse" where
  "parse_alter_drop_action p =
     (if peek_is_keyword p KwPrimary then
        bindR (expect_keyword KwKey (bump p)) (\<lambda>(_, p1). Ok (ActDropPrimaryKey, p1))
      else
        map_result (\<lambda>(name, p1). (ActDropColumn name, p1))
          (expect_ident (if peek_is_ident_ci p ''COLUMN'' then bump p else p)))"

definition parse_alter_table :: "statement parse" where
  "parse_alter_table p =
     bindR (expect_keyword KwAlter p) (\<lambda>(_, p).
     bindR (expect_keyword KwTable p) (\<lambda>(_, p).
     bindR (expect_qualified_ident p) (\<lambda>(table, p).
     bindR
       (if peek_is_ident_ci p ''ADD'' then parse_alter_add_action (bump p)
        else if peek_is_keyword p KwDrop then parse_alter_drop_action (bump p)
        else if peek_is_ident_ci p ''MODIFY'' then
          map_result (\<lambda>(c, p1). (ActModifyColumn c, p1))
            (parse_column_def (if peek_is_ident_ci (bump p) ''COLUMN'' then bump (bump p) else bump p))
        else Inl (parse_err (''expected ADD, DROP, or MODIFY after ALTER TABLE '' @ quote_char @ table @ quote_char
                            @ '', found '' @ describe (peek p)))) (\<lambda>(action, p).
     bindR (eat_semicolon_and_ensure_end (consume_to_statement_end p)) (\<lambda>(_, p).
     Ok (StAlterTable table action, p))))))"

section \<open>INSERT\<close>

definition parse_row :: "expr list parse" where
  "parse_row p = bindR (expect_punct TLParen p) (\<lambda>(_, p1). values_loop p1)"

lemma step_row [step_intros]: "parse_row p = Ok (es, p') \<Longrightarrow> step_lt p p'"
  by (auto simp: parse_row_def result_simps intro: step_lt_trans step_basic(5) step_values_loop)

function rows_loop :: "expr list list parse" where
  "rows_loop p =
     bindR (parse_row p) (\<lambda>(row, p1).
     if peek p1 = Some TComma then bindR (rows_loop (bump p1)) (\<lambda>(rows, p2). Ok (row # rows, p2))
     else Ok ([row], p1))"
  by auto
termination
  by (relation "measure remaining") (auto intro: step_lt_remaining step_lt_trans [OF step_row step_bump])

declare rows_loop.simps [simp del]

definition parse_insert_columns :: "string list option parse" where
  "parse_insert_columns p =
     (if peek p = Some TLParen then map_result (\<lambda>(cols, p1). (Some cols, p1)) (insert_columns_loop (bump p))
      else Ok (None, p))"

definition parse_insert :: "statement parse" where
  "parse_insert p =
     bindR (expect_keyword KwInsert p) (\<lambda>(_, p).
     bindR (expect_keyword KwInto p) (\<lambda>(_, p).
     bindR (expect_qualified_ident p) (\<lambda>(table, p).
     bindR (parse_insert_columns p) (\<lambda>(columns, p).
     bindR (expect_keyword KwValues p) (\<lambda>(_, p).
     bindR (rows_loop p) (\<lambda>(rows, p).
     bindR (eat_semicolon_and_ensure_end p) (\<lambda>(_, p).
     Ok (StInsert table columns rows, p))))))))"

section \<open>SELECT\<close>

definition parse_optional_alias :: "string option parse" where
  "parse_optional_alias p =
     (if peek_is_keyword p KwAs then map_result (\<lambda>(name, p1). (Some name, p1)) (expect_ident (bump p))
      else case peek p of
        Some (TIdent name) \<Rightarrow> Ok (Some name, bump p)
      | _ \<Rightarrow> Ok (None, p))"

definition parse_select_item :: "select_item parse" where
  "parse_select_item p =
     (if peek p = Some TStar then Ok (Wildcard, bump p)
      else
        bindR (parse_expr p) (\<lambda>(e, p1).
        bindR (parse_optional_alias p1) (\<lambda>(alias, p2). Ok (ItemExpr e alias, p2))))"

lemma step_optional_alias [step_intros]: "parse_optional_alias p = Ok (a, p') \<Longrightarrow> step_le p p'"
  by (auto simp: parse_optional_alias_def result_simps split: if_splits option.splits token.splits
      intro: step_lt_le [OF step_lt_trans [OF step_bump_keyword step_basic(4)]] step_lt_le [OF step_bump])

lemma step_select_item [step_intros]: "parse_select_item p = Ok (i, p') \<Longrightarrow> step_lt p p'"
  by (auto simp: parse_select_item_def result_simps split: if_splits
      intro: step_bump step_lt_le_trans [OF step_expr(1) step_optional_alias])

function projection_loop :: "select_item list parse" where
  "projection_loop p =
     bindR (parse_select_item p) (\<lambda>(item, p1).
     if peek p1 = Some TComma then bindR (projection_loop (bump p1)) (\<lambda>(items, p2). Ok (item # items, p2))
     else Ok ([item], p1))"
  by auto
termination
  by (relation "measure remaining") (auto intro: step_lt_remaining step_lt_trans [OF step_select_item step_bump])

definition parse_table_ref :: "table_ref parse" where
  "parse_table_ref p =
     bindR (expect_qualified_ident p) (\<lambda>(name, p1).
     bindR (parse_optional_alias p1) (\<lambda>(alias, p2). Ok (\<lparr>tr_name = name, tr_alias = alias\<rparr>, p2)))"

lemma step_table_ref [step_intros]: "parse_table_ref p = Ok (t, p') \<Longrightarrow> step_lt p p'"
  by (auto simp: parse_table_ref_def result_simps intro: step_lt_le_trans [OF step_qualified_ident step_optional_alias])

text \<open>The words that open a join, or nothing.\<close>

definition parse_join_type :: "join_type option parse" where
  "parse_join_type p =
     (if peek_is_keyword p KwJoin then Ok (Some Inner, bump p)
      else if peek_is_keyword p KwInner then
        bindR (expect_keyword KwJoin (bump p)) (\<lambda>(_, p1). Ok (Some Inner, p1))
      else if peek_is_keyword p KwLeft then
        bindR (expect_keyword KwJoin (if peek_is_keyword (bump p) KwOuter then bump (bump p) else bump p)) (\<lambda>(_, p1).
        Ok (Some Left, p1))
      else Ok (None, p))"

definition parse_join :: "join_type \<Rightarrow> join_clause parse" where
  "parse_join jt p =
     bindR (parse_table_ref p) (\<lambda>(table, p).
     bindR (expect_keyword KwOn p) (\<lambda>(_, p).
     bindR (parse_column_ref p) (\<lambda>(left, p).
     bindR (expect_punct TEq p) (\<lambda>(_, p).
     bindR (parse_column_ref p) (\<lambda>(right, p).
     Ok (\<lparr>jc_type = jt, jc_table = table, jc_left = left, jc_right = right\<rparr>, p))))))"

lemma step_join_type [step_intros]: "parse_join_type p = Ok (m, p') \<Longrightarrow> step_le p p'"
  by (auto simp: parse_join_type_def result_simps split: if_splits
      intro: step_lt_le [OF step_bump_keyword] step_lt_le [OF step_lt_trans [OF step_bump_keyword step_basic(3)]]
        step_lt_le [OF step_lt_trans [OF step_bump_keyword step_lt_trans [OF step_bump_keyword step_basic(3)]]])

lemma step_join [step_intros]: "parse_join jt p = Ok (j, p') \<Longrightarrow> step_lt p p'"
  by (auto simp: parse_join_def result_simps
      intro: step_lt_trans [OF step_table_ref step_lt_trans [OF step_basic(3) step_lt_trans [OF step_column_ref
        step_lt_trans [OF step_basic(5) step_column_ref]]]])

function joins_loop :: "join_clause list parse" where
  "joins_loop p =
     bindR (parse_join_type p) (\<lambda>(m, p1).
     case m of
       None \<Rightarrow> Ok ([], p1)
     | Some jt \<Rightarrow>
         bindR (parse_join jt p1) (\<lambda>(j, p2).
         bindR (joins_loop p2) (\<lambda>(js, p3). Ok (j # js, p3))))"
  by auto
termination
  by (relation "measure remaining") (auto intro: step_lt_remaining step_le_lt_trans [OF step_join_type step_join])

definition parse_from_clause :: "from_clause parse" where
  "parse_from_clause p =
     bindR (parse_table_ref p) (\<lambda>(table, p1).
     bindR (joins_loop p1) (\<lambda>(joins, p2). Ok (\<lparr>fc_table = table, fc_joins = joins\<rparr>, p2)))"

definition parse_compare_op :: "compare_op parse" where
  "parse_compare_op p =
     (let (t, p1) = advance p in
      case t of
        Some TEq \<Rightarrow> Ok (CEq, p1) | Some TNotEq \<Rightarrow> Ok (CNotEq, p1) | Some TLt \<Rightarrow> Ok (CLt, p1)
      | Some TGt \<Rightarrow> Ok (CGt, p1) | Some TLe \<Rightarrow> Ok (CLe, p1) | Some TGe \<Rightarrow> Ok (CGe, p1)
      | _ \<Rightarrow> Inl (parse_err (''expected a comparison operator, found '' @ describe t)))"

definition parse_condition :: "condition parse" where
  "parse_condition p =
     bindR (parse_column_ref p) (\<lambda>(column, p).
     bindR (parse_compare_op p) (\<lambda>(op, p).
     bindR (parse_expr p) (\<lambda>(v, p).
     Ok (\<lparr>cn_column = column, cn_op = op, cn_value = v\<rparr>, p))))"

function group_by_loop :: "column_ref list parse" where
  "group_by_loop p =
     bindR (parse_column_ref p) (\<lambda>(c, p1).
     if peek p1 = Some TComma then bindR (group_by_loop (bump p1)) (\<lambda>(cs, p2). Ok (c # cs, p2))
     else Ok ([c], p1))"
  by auto
termination
  by (relation "measure remaining") (auto intro: step_lt_remaining step_lt_trans [OF step_column_ref step_bump])

definition parse_optional_group_by :: "column_ref list parse" where
  "parse_optional_group_by p =
     (if \<not> peek_is_keyword p KwGroup then Ok ([], p)
      else bindR (expect_keyword KwBy (bump p)) (\<lambda>(_, p1). group_by_loop p1))"

definition parse_order_item :: "order_by_item parse" where
  "parse_order_item p =
     bindR (parse_column_ref p) (\<lambda>(column, p1).
     if peek_is_ident_ci p1 ''DESC'' then Ok (\<lparr>ob_column = column, ob_descending = True\<rparr>, bump p1)
     else Ok (\<lparr>ob_column = column, ob_descending = False\<rparr>, if peek_is_ident_ci p1 ''ASC'' then bump p1 else p1))"

lemma step_order_item [step_intros]: "parse_order_item p = Ok (i, p') \<Longrightarrow> step_lt p p'"
  by (auto simp: parse_order_item_def result_simps split: if_splits
      intro: step_column_ref step_lt_trans [OF step_column_ref step_bump_ident_ci])

function order_by_loop :: "order_by_item list parse" where
  "order_by_loop p =
     bindR (parse_order_item p) (\<lambda>(i, p1).
     if peek p1 = Some TComma then bindR (order_by_loop (bump p1)) (\<lambda>(is, p2). Ok (i # is, p2))
     else Ok ([i], p1))"
  by auto
termination
  by (relation "measure remaining") (auto intro: step_lt_remaining step_lt_trans [OF step_order_item step_bump])

declare projection_loop.simps [simp del] joins_loop.simps [simp del] group_by_loop.simps [simp del]
  order_by_loop.simps [simp del]

definition parse_optional_order_by :: "order_by_item list parse" where
  "parse_optional_order_by p =
     (if \<not> peek_is_keyword p KwOrder then Ok ([], p)
      else bindR (expect_keyword KwBy (bump p)) (\<lambda>(_, p1). order_by_loop p1))"

definition parse_optional_limit :: "(u64 option \<times> u64 option) parse" where
  "parse_optional_limit p =
     (if \<not> peek_is_keyword p KwLimit then Ok ((None, None), p)
      else
        bindR (expect_unsigned_integer (bump p)) (\<lambda>(first, p1).
        if peek p1 = Some TComma then
          bindR (expect_unsigned_integer (bump p1)) (\<lambda>(count, p2). Ok ((Some count, Some first), p2))
        else if peek_is_ident_ci p1 ''OFFSET'' then
          bindR (expect_unsigned_integer (bump p1)) (\<lambda>(offset, p2). Ok ((Some first, Some offset), p2))
        else Ok ((Some first, None), p1)))"

definition parse_where :: "condition option parse" where
  "parse_where p =
     (if peek_is_keyword p KwWhere then map_result (\<lambda>(c, p1). (Some c, p1)) (parse_condition (bump p))
      else Ok (None, p))"

definition parse_from_where :: "(from_clause option \<times> condition option) parse" where
  "parse_from_where p =
     (if peek_is_keyword p KwFrom then
        bindR (parse_from_clause (bump p)) (\<lambda>(from, p1).
        bindR (parse_where p1) (\<lambda>(selection, p2). Ok ((Some from, selection), p2)))
      else Ok ((None, None), p))"

definition parse_select :: "statement parse" where
  "parse_select p =
     bindR (expect_keyword KwSelect p) (\<lambda>(_, p).
     bindR (projection_loop p) (\<lambda>(projection, p).
     bindR (parse_from_where p) (\<lambda>((from, selection), p).
     bindR (parse_optional_group_by p) (\<lambda>(group_by, p).
     bindR (parse_optional_order_by p) (\<lambda>(order_by, p).
     bindR (parse_optional_limit p) (\<lambda>((limit, offset), p).
     bindR (eat_semicolon_and_ensure_end p) (\<lambda>(_, p).
     Ok (StSelect \<lparr>sl_projection = projection, sl_from = from, sl_selection = selection, sl_group_by = group_by,
                   sl_order_by = order_by, sl_limit = limit, sl_offset = offset\<rparr>, p))))))))"

section \<open>Statements and entry points\<close>

definition parse_statement :: "statement parse" where
  "parse_statement p =
     (case peek p of
        Some (TKeyword KwCreate) \<Rightarrow>
          if (case peek_at p 1 of Some t \<Rightarrow> is_database_ident t | None \<Rightarrow> False) then parse_create_database p
          else parse_create_table p
      | Some (TKeyword KwDrop) \<Rightarrow> parse_drop_database p
      | Some (TKeyword KwAlter) \<Rightarrow> parse_alter_table p
      | Some (TKeyword KwInsert) \<Rightarrow> parse_insert p
      | Some (TKeyword KwSelect) \<Rightarrow> parse_select p
      | Some (TKeyword KwBegin) \<Rightarrow> parse_begin p
      | Some (TKeyword KwStart) \<Rightarrow> parse_start_transaction p
      | Some (TKeyword KwCommit) \<Rightarrow> parse_simple KwCommit StCommit p
      | Some (TKeyword KwRollback) \<Rightarrow> parse_simple KwRollback StRollback p
      | Some (TKeyword KwSet) \<Rightarrow> parse_set p
      | Some (TKeyword KwUse) \<Rightarrow> parse_use p
      | Some (TKeyword KwShow) \<Rightarrow> parse_show p
      | t \<Rightarrow> Inl (parse_err (''expected CREATE, ALTER, DROP, INSERT, SELECT, BEGIN, START, COMMIT, ROLLBACK, SET, USE, or SHOW, found ''
                             @ describe t)))"

definition parse_sql :: "unicode \<Rightarrow> string \<Rightarrow> statement result" where
  "parse_sql u sql =
     bindR (tokenize u sql) (\<lambda>tokens.
     if tokens = [] then Inl (parse_err ''empty statement'')
     else map_result fst (parse_statement (parser_new tokens False)))"

text \<open>\<^verbatim>\<open>tokens.split(|t| *t == Token::Semicolon)\<close>: always at least one segment.\<close>

fun split_tokens :: "token list \<Rightarrow> token list list" where
  "split_tokens [] = [[]]"
| "split_tokens (t # ts) =
     (if t = TSemicolon then [] # split_tokens ts
      else case split_tokens ts of seg # segs \<Rightarrow> (t # seg) # segs | [] \<Rightarrow> [[t]])"

definition parse_many :: "unicode \<Rightarrow> string \<Rightarrow> statement list result" where
  "parse_many u sql =
     bindR (tokenize u sql) (\<lambda>tokens.
     bindR (mapR (\<lambda>segment. map_result fst (parse_statement (parser_new segment False)))
              (filter (\<lambda>segment. segment \<noteq> []) (split_tokens tokens))) (\<lambda>statements.
     if statements = [] then Inl (parse_err ''empty statement'') else Ok statements))"

definition parse_prepared :: "unicode \<Rightarrow> string \<Rightarrow> (statement \<times> nat) result" where
  "parse_prepared u sql =
     bindR (tokenize u sql) (\<lambda>tokens.
     if tokens = [] then Inl (parse_err ''empty statement'')
     else map_result (\<lambda>(st, p). (st, ps_param_count p)) (parse_statement (parser_new tokens True)))"

end
