(* ===== verification/Parser_Holes.thy ===== *)
theory Parser_Holes
  imports Sql_Parser
begin

text \<open>
  Placeholders.  A parsing step either leaves the parameter count alone or numbers the placeholders it
  reads consecutively from the count on; so the holes of a prepared statement are exactly the numbers
  below its parameter count, in the order in which binding visits them.
\<close>

section \<open>Steps that read no placeholder\<close>

named_theorems same_count "steps that leave the parameter count alone"

text \<open>The count together with the mode of the parser.\<close>

definition count :: "parser \<Rightarrow> nat \<times> bool" where
  "count p = (ps_param_count p, ps_allow_placeholders p)"

lemma count_bump [simp]: "count (bump p) = count p"
  by (simp add: bump_def count_def)

lemma count_advance [same_count]: "advance p = (t, p') \<Longrightarrow> count p' = count p"
  by (auto simp: advance_eq split: if_splits)

lemma count_basic [same_count]:
  "expect_ident_ci w p = Ok (a, p') \<Longrightarrow> count p' = count p"
  "expect_keyword k p = Ok (c, p') \<Longrightarrow> count p' = count p"
  "expect_ident p = Ok (d, p') \<Longrightarrow> count p' = count p"
  "expect_punct t p = Ok (e, p') \<Longrightarrow> count p' = count p"
  "expect_unsigned_integer p = Ok (f, p') \<Longrightarrow> count p' = count p"
  "eat_semicolon_and_ensure_end p = Ok (g, p') \<Longrightarrow> count p' = count p"
  "comma_or_close p = Ok (h, p') \<Longrightarrow> count p' = count p"
  by (auto simp: expect_ident_ci_def expect_keyword_def expect_ident_def expect_punct_def expect_unsigned_integer_def
      eat_semicolon_and_ensure_end_def comma_or_close_def Let_def advance_eq split: option.splits token.splits if_splits)

lemma count_finish_column_ref [same_count]: "finish_column_ref first p = Ok (c, p') \<Longrightarrow> count p' = count p"
  by (auto simp: finish_column_ref_def result_simps dest: same_count split: if_splits)

lemma count_column_ref [same_count]: "parse_column_ref p = Ok (c, p') \<Longrightarrow> count p' = count p"
  by (auto simp: parse_column_ref_def result_simps dest!: same_count)

lemma count_qualified_tail [same_count]: "qualified_tail name p = Ok (n, p') \<Longrightarrow> count p' = count p"
proof (induction name p rule: qualified_tail.induct)
  case (1 name p)
  from "1.prems" consider "peek p \<noteq> Some TDot" "p' = p"
    | m q where "peek p = Some TDot" "expect_ident (bump p) = Ok (m, q)" "qualified_tail m q = Ok (n, p')"
    by (auto simp: qualified_tail.simps [of name p] result_simps split: if_splits)
  then show ?case
  proof cases
    case 2
    then show ?thesis using "1.IH" [OF 2(1,2) refl 2(3)] count_basic(3) [OF 2(2)] by simp
  qed simp
qed

lemma count_qualified [same_count]: "expect_qualified_ident p = Ok (n, p') \<Longrightarrow> count p' = count p"
  by (auto simp: expect_qualified_ident_def result_simps dest!: same_count)

lemma count_alias [same_count]: "parse_optional_alias p = Ok (a, p') \<Longrightarrow> count p' = count p"
  by (auto simp: parse_optional_alias_def result_simps dest!: same_count split: if_splits option.splits token.splits)

lemma count_table_ref [same_count]: "parse_table_ref p = Ok (t, p') \<Longrightarrow> count p' = count p"
  by (auto simp: parse_table_ref_def result_simps dest!: same_count)

lemma count_join_type [same_count]: "parse_join_type p = Ok (m, p') \<Longrightarrow> count p' = count p"
  by (auto simp: parse_join_type_def result_simps dest!: same_count split: if_splits)

lemma count_join [same_count]: "parse_join jt p = Ok (j, p') \<Longrightarrow> count p' = count p"
  by (auto simp: parse_join_def result_simps dest!: same_count)

lemma count_joins_loop [same_count]: "joins_loop p = Ok (js, p') \<Longrightarrow> count p' = count p"
proof (induction p arbitrary: js p' rule: joins_loop.induct)
  case (1 p)
  from "1.prems" obtain m p1 where m: "parse_join_type p = Ok (m, p1)" by (auto simp: joins_loop.simps [of p] result_simps)
  show ?case
  proof (cases m)
    case None
    then show ?thesis using "1.prems" m by (auto simp: joins_loop.simps [of p] dest: count_join_type)
  next
    case (Some jt)
    then obtain j p2 js2 where j: "parse_join jt p1 = Ok (j, p2)" "joins_loop p2 = Ok (js2, p')"
      using "1.prems" m by (auto simp: joins_loop.simps [of p] result_simps)
    then show ?thesis using "1.IH" [OF m refl Some j(1) refl j(2)] count_join_type [OF m] count_join [OF j(1)] by simp
  qed
qed

lemma count_from [same_count]: "parse_from_clause p = Ok (f, p') \<Longrightarrow> count p' = count p"
  by (auto simp: parse_from_clause_def result_simps dest!: same_count)

lemma count_compare_op [same_count]: "parse_compare_op p = Ok (op, p') \<Longrightarrow> count p' = count p"
  by (auto simp: parse_compare_op_def dest!: same_count split: prod.splits option.splits token.splits)

lemma count_group_by_loop [same_count]: "group_by_loop p = Ok (cs, p') \<Longrightarrow> count p' = count p"
proof (induction p arbitrary: cs p' rule: group_by_loop.induct)
  case (1 p)
  from "1.prems" obtain c p1 where c: "parse_column_ref p = Ok (c, p1)" by (auto simp: group_by_loop.simps [of p] result_simps)
  then show ?case using "1.prems" "1.IH" [OF c refl] count_column_ref [OF c]
    by (auto simp: group_by_loop.simps [of p] result_simps split: if_splits)
qed

lemma count_group_by [same_count]: "parse_optional_group_by p = Ok (cs, p') \<Longrightarrow> count p' = count p"
  by (auto simp: parse_optional_group_by_def result_simps dest!: same_count split: if_splits)

lemma count_order_item [same_count]: "parse_order_item p = Ok (i, p') \<Longrightarrow> count p' = count p"
  by (auto simp: parse_order_item_def result_simps dest!: same_count split: if_splits)

lemma count_order_by_loop [same_count]: "order_by_loop p = Ok (is, p') \<Longrightarrow> count p' = count p"
proof (induction p arbitrary: "is" p' rule: order_by_loop.induct)
  case (1 p)
  from "1.prems" obtain i p1 where i: "parse_order_item p = Ok (i, p1)" by (auto simp: order_by_loop.simps [of p] result_simps)
  then show ?case using "1.prems" "1.IH" [OF i refl] count_order_item [OF i]
    by (auto simp: order_by_loop.simps [of p] result_simps split: if_splits)
qed

lemma count_order_by [same_count]: "parse_optional_order_by p = Ok (is, p') \<Longrightarrow> count p' = count p"
  by (auto simp: parse_optional_order_by_def result_simps dest!: same_count split: if_splits)

lemma count_limit [same_count]: "parse_optional_limit p = Ok (lo, p') \<Longrightarrow> count p' = count p"
  by (auto simp: parse_optional_limit_def result_simps dest!: same_count split: if_splits)

lemma count_insert_columns_loop [same_count]: "insert_columns_loop p = Ok (cs, p') \<Longrightarrow> count p' = count p"
proof (induction p arbitrary: cs p' rule: insert_columns_loop.induct)
  case (1 p)
  from "1.prems" obtain c p1 more p2 where c: "expect_ident p = Ok (c, p1)" "comma_or_close p1 = Ok (more, p2)"
    by (auto simp: insert_columns_loop.simps [of p] result_simps)
  then show ?case using "1.prems" "1.IH" [OF c(1) refl c(2) refl] count_basic(3) [OF c(1)] count_basic(7) [OF c(2)]
    by (auto simp: insert_columns_loop.simps [of p] result_simps split: if_splits)
qed

lemma count_insert_columns [same_count]: "parse_insert_columns p = Ok (cs, p') \<Longrightarrow> count p' = count p"
  by (auto simp: parse_insert_columns_def result_simps dest!: same_count split: if_splits)

section \<open>Expressions\<close>

text \<open>The placeholders read between two states; none where they are not allowed.\<close>

definition numbered :: "parser \<Rightarrow> parser \<Rightarrow> nat list \<Rightarrow> bool" where
  "numbered p q hs \<longleftrightarrow>
     fst (count p) \<le> fst (count q) \<and> hs = [fst (count p)..<fst (count q)] \<and> snd (count q) = snd (count p)
     \<and> (\<not> snd (count p) \<longrightarrow> fst (count q) = fst (count p))"

lemma numbered_same: "count q = count p \<Longrightarrow> numbered p q []"
  by (simp add: numbered_def)

lemma numbered_append:
  assumes "numbered p q hs" "numbered q r hs'"
  shows "numbered p r (hs @ hs')"
proof -
  have "fst (count p) \<le> fst (count q)" "fst (count q) \<le> fst (count r)" using assms by (simp_all add: numbered_def)
  then have "[fst (count p)..<fst (count r)] = [fst (count p)..<fst (count q)] @ [fst (count q)..<fst (count r)]"
    using upt_add_eq_append [of "fst (count p)" "fst (count q)" "fst (count r) - fst (count q)"] by simp
  then show ?thesis using assms by (auto simp: numbered_def)
qed

lemma numbered_count: "numbered p q hs \<Longrightarrow> count q = count q' \<Longrightarrow> numbered p q' hs"
  by (simp add: numbered_def)

lemma numbered_count': "numbered p q hs \<Longrightarrow> count p = count p' \<Longrightarrow> numbered p' q hs"
  by (simp add: numbered_def)

lemma expr_numbered:
  "\<forall>e q. parse_expr p = Ok (e, q) \<longrightarrow> numbered p q (expr_holes e)"
  "\<forall>e q. parse_function_call name r = Ok (e, q) \<longrightarrow> numbered r q (expr_holes e)"
  "\<forall>es q. parse_args s = Ok (es, q) \<longrightarrow> numbered s q (concat (map expr_holes es))"
proof (induction p and name r and s rule: parse_expr_parse_function_call_parse_args.induct)
  case (1 p)
  obtain t p1 where a: "advance p = (t, p1)" by (cases "advance p")
  note c = count_advance [OF a]
  have call: "numbered p q (expr_holes e)" if "t = Some (TIdent name)" "\<not> eq_ignore_ascii_case name ''TRUE''"
      "\<not> eq_ignore_ascii_case name ''FALSE''" "peek p1 = Some TLParen" "parse_function_call name p1 = Ok (e, q)" for name e q
    using 1 [OF a [symmetric] refl that(1) refl that(2-4)] that(5) c numbered_count' by blast
  have col: "numbered p q []" if "finish_column_ref name p1 = Ok (x, q)" for name x q
    using count_finish_column_ref [OF that] c by (simp add: numbered_same)
  have hole: "numbered p (p1\<lparr>ps_param_count := Suc (ps_param_count p1)\<rparr>) [ps_param_count p1]" if "ps_allow_placeholders p"
    using that c by (simp add: numbered_def count_def)
  show ?case
    using call col hole c a
    by (auto simp: parse_expr.simps [of p] result_simps numbered_same split: option.splits token.splits keyword.splits if_splits)
next
  case (2 name p)
  show ?case
  proof (intro allI impI)
    fix e q
    assume "parse_function_call name p = Ok (e, q)"
    note e = this [unfolded parse_function_call.simps [of name p]]
    from e obtain p1 where p1: "expect_punct TLParen p = Ok ((), p1)" by (auto simp: result_simps)
    note c1 = count_basic(4) [OF p1]
    show "numbered p q (expr_holes e)"
    proof (cases "eq_ignore_ascii_case name ''COUNT'' \<and> peek p1 = Some TStar")
      case True
      then show ?thesis using e p1 c1 by (auto simp: result_simps numbered_same dest: count_basic(4))
    next
      case False
      with e p1 obtain args p2 where p2: "(if peek p1 \<noteq> Some TRParen then parse_args p1 else Ok ([], p1)) = Ok (args, p2)"
          "expect_punct TRParen p2 = Ok ((), q)" "e = EFunction name args"
        by (auto simp: result_simps)
      have "numbered p1 p2 (concat (map expr_holes args))"
        using p2(1) 2 [OF p1 refl False] by (cases "peek p1 = Some TRParen") (auto simp: numbered_same)
      then show ?thesis using p2(3) c1 count_basic(4) [OF p2(2)] by (simp add: numbered_def)
    qed
  qed
next
  case (3 p)
  show ?case
  proof (intro allI impI)
    fix es q
    assume "parse_args p = Ok (es, q)"
    note e = this [unfolded parse_args.simps [of p]]
    from e obtain x p1 where p1: "parse_expr p = Ok (x, p1)" by (auto simp: result_simps)
    have n1: "numbered p p1 (expr_holes x)" using 3(1) p1 by blast
    show "numbered p q (concat (map expr_holes es))"
    proof (cases "peek p1 = Some TComma")
      case True
      with e p1 obtain ys where ys: "parse_args (bump p1) = Ok (ys, q)" "es = x # ys" by (auto simp: result_simps)
      then have "numbered p1 q (concat (map expr_holes ys))"
        using 3(2) [OF p1 refl True] numbered_count' [of "bump p1" q _ p1] by simp
      then show ?thesis using numbered_append [OF n1] ys(2) by simp
    next
      case False
      then show ?thesis using e p1 n1 by auto
    qed
  qed
qed

lemma count_expr: "parse_expr p = Ok (e, q) \<Longrightarrow> numbered p q (expr_holes e)"
  using expr_numbered(1) by blast

section \<open>Statements\<close>

lemma values_numbered: "values_loop p = Ok (es, q) \<Longrightarrow> numbered p q (concat (map expr_holes es))"
proof (induction p arbitrary: es q rule: values_loop.induct)
  case (1 p)
  from "1.prems" obtain e p1 more p2 where s: "parse_expr p = Ok (e, p1)" "comma_or_close p1 = Ok (more, p2)"
    by (auto simp: values_loop.simps [of p] result_simps)
  have n: "numbered p p2 (expr_holes e)" using count_expr [OF s(1)] count_basic(7) [OF s(2)] by (simp add: numbered_def)
  show ?case
  proof (cases more)
    case True
    then obtain es2 where "values_loop p2 = Ok (es2, q)" "es = e # es2"
      using "1.prems" s by (auto simp: values_loop.simps [of p] result_simps)
    then show ?thesis using "1.IH" [OF s(1) refl s(2) refl True] numbered_append [OF n] by simp
  next
    case False
    then show ?thesis using "1.prems" s n by (auto simp: values_loop.simps [of p])
  qed
qed

lemma rows_numbered: "rows_loop p = Ok (rows, q) \<Longrightarrow> numbered p q (concat (map (\<lambda>row. concat (map expr_holes row)) rows))"
proof (induction p arbitrary: rows q rule: rows_loop.induct)
  case (1 p)
  from "1.prems" obtain row p1 where r: "parse_row p = Ok (row, p1)" by (auto simp: rows_loop.simps [of p] result_simps)
  then obtain p0 where p0: "expect_punct TLParen p = Ok ((), p0)" "values_loop p0 = Ok (row, p1)"
    by (auto simp: parse_row_def result_simps)
  have n: "numbered p p1 (concat (map expr_holes row))"
    using values_numbered [OF p0(2)] count_basic(4) [OF p0(1)] by (simp add: numbered_def)
  show ?case
  proof (cases "peek p1 = Some TComma")
    case True
    then obtain rows2 where r2: "rows_loop (bump p1) = Ok (rows2, q)" "rows = row # rows2"
      using "1.prems" r by (auto simp: rows_loop.simps [of p] result_simps)
    then have "numbered p1 q (concat (map (\<lambda>row. concat (map expr_holes row)) rows2))"
      using "1.IH" [OF r refl True] numbered_count' [of "bump p1" q _ p1] by simp
    then show ?thesis using numbered_append [OF n] r2(2) by simp
  next
    case False
    then show ?thesis using "1.prems" r n by (auto simp: rows_loop.simps [of p])
  qed
qed

lemma item_numbered: "parse_select_item p = Ok (i, q) \<Longrightarrow> numbered p q (item_holes i)"
  by (auto simp: parse_select_item_def result_simps item_holes_def numbered_same split: if_splits
      dest!: count_expr count_alias intro: numbered_count)

lemma projection_numbered: "projection_loop p = Ok (items, q) \<Longrightarrow> numbered p q (concat (map item_holes items))"
proof (induction p arbitrary: items q rule: projection_loop.induct)
  case (1 p)
  from "1.prems" obtain i p1 where i: "parse_select_item p = Ok (i, p1)" by (auto simp: projection_loop.simps [of p] result_simps)
  note n = item_numbered [OF i]
  show ?case
  proof (cases "peek p1 = Some TComma")
    case True
    then obtain is2 where i2: "projection_loop (bump p1) = Ok (is2, q)" "items = i # is2"
      using "1.prems" i by (auto simp: projection_loop.simps [of p] result_simps)
    then have "numbered p1 q (concat (map item_holes is2))"
      using "1.IH" [OF i refl True] numbered_count' [of "bump p1" q _ p1] by simp
    then show ?thesis using numbered_append [OF n] i2(2) by simp
  next
    case False
    then show ?thesis using "1.prems" i n by (auto simp: projection_loop.simps [of p])
  qed
qed

lemma where_numbered:
  assumes "parse_from_where p = Ok ((from, selection), q)"
  shows "numbered p q (case selection of Some cond \<Rightarrow> expr_holes (cn_value cond) | None \<Rightarrow> [])"
proof -
  have c: "numbered p' q (expr_holes (cn_value cond))" if "parse_condition p' = Ok (cond, q)" for p' cond
    using that by (auto simp: parse_condition_def result_simps dest!: count_expr count_column_ref count_compare_op
        simp: numbered_def)
  show ?thesis
    using assms by (auto simp: parse_from_where_def parse_where_def result_simps numbered_same split: if_splits
        dest!: count_from c simp: numbered_def)
qed

lemma insert_numbered:
  assumes "parse_insert p = Ok (st, q)"
  shows "numbered p q (holes st)"
proof -
  from assms obtain table columns rows p1 p2 where r: "count p1 = count p" "count q = count p2" "rows_loop p1 = Ok (rows, p2)"
      "st = StInsert table columns rows"
    by (auto simp: parse_insert_def result_simps dest!: same_count)
  then show ?thesis using rows_numbered [OF r(3)] by (simp add: numbered_def holes_def)
qed

lemma select_numbered:
  assumes "parse_select p = Ok (st, q)"
  shows "numbered p q (holes st)"
proof -
  from assms obtain p1 p2 p3 projection "from" selection sel where s: "count p1 = count p" "count q = count p3"
      "projection_loop p1 = Ok (projection, p2)" "parse_from_where p2 = Ok ((from, selection), p3)"
      "st = StSelect sel" "sl_projection sel = projection" "sl_selection sel = selection"
    by (auto simp: parse_select_def result_simps dest!: count_basic count_group_by count_order_by count_limit)
  have "numbered p p3 (concat (map item_holes projection) @ (case selection of Some cond \<Rightarrow> expr_holes (cn_value cond) | None \<Rightarrow> []))"
    by (rule numbered_append [OF numbered_count' [OF projection_numbered [OF s(3)] s(1)] where_numbered [OF s(4)]])
  then show ?thesis using s(2,5-7) by (simp add: holes_def numbered_def)
qed

text \<open>Only INSERT and SELECT have expressions that are kept.\<close>

definition has_holes :: "statement \<Rightarrow> bool" where
  "has_holes st = (case st of StInsert _ _ _ \<Rightarrow> True | StSelect _ \<Rightarrow> True | _ \<Rightarrow> False)"

lemma holes_none: "\<not> has_holes st \<Longrightarrow> holes st = []"
  by (cases st) (simp_all add: holes_def has_holes_def)

lemma other_statements:
  "parse_create_database p = Ok (st, q) \<Longrightarrow> \<not> has_holes st"
  "parse_create_table p = Ok (st, q) \<Longrightarrow> \<not> has_holes st"
  "parse_drop_database p = Ok (st, q) \<Longrightarrow> \<not> has_holes st"
  "parse_alter_table p = Ok (st, q) \<Longrightarrow> \<not> has_holes st"
  "parse_begin p = Ok (st, q) \<Longrightarrow> \<not> has_holes st"
  "parse_start_transaction p = Ok (st, q) \<Longrightarrow> \<not> has_holes st"
  "parse_simple KwCommit StCommit p = Ok (st, q) \<Longrightarrow> \<not> has_holes st"
  "parse_simple KwRollback StRollback p = Ok (st, q) \<Longrightarrow> \<not> has_holes st"
  "parse_set p = Ok (st, q) \<Longrightarrow> \<not> has_holes st"
  "parse_use p = Ok (st, q) \<Longrightarrow> \<not> has_holes st"
  "parse_show p = Ok (st, q) \<Longrightarrow> \<not> has_holes st"
  by (auto simp: parse_create_database_def parse_create_table_def parse_drop_database_def parse_alter_table_def
      parse_begin_def parse_start_transaction_def parse_simple_def parse_set_def parse_use_def parse_show_def
      result_simps has_holes_def Let_def split: if_splits)

lemma statement_numbered:
  assumes "parse_statement p = Ok (st, q)"
  shows "if has_holes st then numbered p q (holes st) else holes st = []"
proof -
  have "\<not> has_holes st \<or> parse_insert p = Ok (st, q) \<or> parse_select p = Ok (st, q)"
    using assms other_statements [of p st q] unfolding parse_statement_def
    by (auto split: option.splits token.splits keyword.splits if_splits)
  then show ?thesis using holes_none insert_numbered select_numbered by auto
qed

section \<open>Prepared statements\<close>

text \<open>A pair of character tables in which no character outside ASCII is a letter or a digit.\<close>

definition ascii_only :: unicode where
  "ascii_only = \<lparr> uni_alphabetic = (\<lambda>_. False), uni_numeric = (\<lambda>_. False) \<rparr>"

text \<open>
  Claim (C39). Placeholders of prepared statements.  Whenever the text of a prepared statement parses,
  to a statement and a parameter count \<open>n\<close>, the placeholders of an INSERT or SELECT are exactly
  \<open>0, \<dots>, n - 1\<close>, each once, in the order of the text, and other statements keep none; so executing
  it with any \<open>n\<close> literals binds every placeholder and cannot fail for a missing parameter.  Text
  that is not prepared never yields a placeholder.
\<close>

theorem prepared_placeholders:
  "(parse_prepared u sql = Ok (st, n) \<longrightarrow>
      (if has_holes st then holes st = [0..<n] else holes st = [])
      \<and> (\<forall>params. length params = n \<and> (\<forall>e \<in> set params. expr_holes e = []) \<longrightarrow>
          (\<exists>st'. bind_parameters st params = Ok st' \<and> holes st' = [])))
   \<and> (parse_sql u sql = Ok st \<longrightarrow> holes st = [])
   \<and> (parse_many u sql = Ok sts \<longrightarrow> (\<forall>s \<in> set sts. holes s = []))"
proof (intro conjI impI)
  have plain: "holes s = []" if "parse_statement (parser_new tokens False) = Ok (s, q)" for tokens s q
    using statement_numbered [OF that] by (auto simp: numbered_def count_def parser_new_def split: if_splits)
  show "holes st = []" if "parse_sql u sql = Ok st"
    using that plain by (auto simp: parse_sql_def result_simps split: if_splits)
  show "\<forall>s \<in> set sts. holes s = []" if "parse_many u sql = Ok sts"
    using that by (fastforce simp: parse_many_def result_simps mapR_Ok_list_all2 list_all2_conv_all_nth in_set_conv_nth
        split: if_splits dest: plain)
  assume p: "parse_prepared u sql = Ok (st, n)"
  then obtain tokens q where q: "parse_statement (parser_new tokens True) = Ok (st, q)" "n = ps_param_count q"
    by (auto simp: parse_prepared_def result_simps split: if_splits)
  show h: "if has_holes st then holes st = [0..<n] else holes st = []"
    using statement_numbered [OF q(1)] q(2) by (auto simp: numbered_def count_def parser_new_def)
  show "\<forall>params. length params = n \<and> (\<forall>e \<in> set params. expr_holes e = []) \<longrightarrow>
      (\<exists>st'. bind_parameters st params = Ok st' \<and> holes st' = [])"
  proof (intro allI impI)
    fix params
    assume a: "length params = n \<and> (\<forall>e \<in> set params. expr_holes e = [])"
    have "set (holes st) \<subseteq> {0..<n}" using h by (auto split: if_splits)
    then have "first_missing params (holes st) = None" using a by (auto simp: first_missing_def find_None_iff)
    then show "\<exists>st'. bind_parameters st params = Ok st' \<and> holes st' = []"
      using bind_parameters_spec [of params st] a by (simp add: bind_spec_def)
  qed
qed

theorem prepared_placeholders_witness:
  "\<exists>st. parse_prepared ascii_only ''SELECT ?, ?'' = Ok (st, 2) \<and> holes st = [0, 1]
     \<and> (\<exists>st'. bind_parameters st [EInteger 7, ENull] = Ok st' \<and> holes st' = [])"
proof -
  let ?st = "StSelect \<lparr> sl_projection = [ItemExpr (EPlaceholder 0) None, ItemExpr (EPlaceholder 1) None],
    sl_from = None, sl_selection = None, sl_group_by = [], sl_order_by = [], sl_limit = None, sl_offset = None \<rparr>"
  have "parse_prepared ascii_only ''SELECT ?, ?'' = Ok (?st, 2)" by code_simp
  moreover have "has_holes ?st" by (simp add: has_holes_def)
  ultimately show ?thesis
    using prepared_placeholders [of ascii_only "''SELECT ?, ?''" ?st 2 "[]"] by (auto simp: upt_rec)
qed

end
