(* ===== verification/Observability.thy ===== *)
theory Observability
  imports Rust_Bytes
begin

text \<open>
  Logging and counters (\<^verbatim>\<open>src/src/observability.rs\<close>).  The clock is an argument of
  \<^verbatim>\<open>log\<close>; the lines a logger prints are returned instead of written to the standard error
  stream.  The counters are 64 bit words whose increments wrap, as \<^verbatim>\<open>fetch_add\<close> does.
\<close>

section \<open>Levels\<close>

datatype log_level = Debug | Info | Warn | Error

fun level_rank :: "log_level \<Rightarrow> nat" where
  "level_rank Debug = 0"
| "level_rank Info = 1"
| "level_rank Warn = 2"
| "level_rank Error = 3"

lemma level_rank_inject [simp]: "level_rank a = level_rank b \<longleftrightarrow> a = b"
  by (cases a; cases b) simp_all

text \<open>The derived order: severities in the order of their declaration.\<close>

instantiation log_level :: linorder
begin

definition less_eq_log_level :: "log_level \<Rightarrow> log_level \<Rightarrow> bool" where
  "less_eq_log_level a b = (level_rank a \<le> level_rank b)"

definition less_log_level :: "log_level \<Rightarrow> log_level \<Rightarrow> bool" where
  "less_log_level a b = (level_rank a < level_rank b)"

instance
  by standard (auto simp: less_eq_log_level_def less_log_level_def)

end

fun level_label :: "log_level \<Rightarrow> string" where
  "level_label Debug = ''DEBUG''"
| "level_label Info = ''INFO''"
| "level_label Warn = ''WARN''"
| "level_label Error = ''ERROR''"

definition level_from_name :: "string \<Rightarrow> log_level option" where
  "level_from_name name =
     (let s = to_ascii_lowercase name in
      if s = ''debug'' then Some Debug
      else if s = ''info'' then Some Info
      else if s = ''warn'' \<or> s = ''warning'' then Some Warn
      else if s = ''error'' then Some Error
      else None)"

lemma level_from_label: "level_from_name (level_label l) = Some l"
  by (cases l; hypsubst; code_simp)

section \<open>The logger\<close>

record logger =
  lo_min_level :: log_level

definition format_line :: "u64 \<Rightarrow> log_level \<Rightarrow> string \<Rightarrow> (string \<times> string) list \<Rightarrow> string" where
  "format_line unix_secs level event fs =
     show_nat (unat unix_secs) @ '' '' @ level_label level @ '' '' @ event
     @ concat (map (\<lambda>(k, v). '' '' @ k @ ''='' @ v) fs)"

definition log_event :: "logger \<Rightarrow> u64 \<Rightarrow> log_level \<Rightarrow> string \<Rightarrow> (string \<times> string) list \<Rightarrow> string list" where
  "log_event lo now level event fs =
     (if level < lo_min_level lo then [] else [format_line now level event fs])"

text \<open>A logger prints an event exactly when its level reaches the configured minimum.\<close>

lemma log_event_filter: "log_event lo now level event fs \<noteq> [] \<longleftrightarrow> lo_min_level lo \<le> level"
  by (auto simp: log_event_def not_less)

section \<open>Counters\<close>

record metrics =
  mt_connections_total :: u64
  mt_connections_active :: u64
  mt_queries_total :: u64
  mt_errors_total :: u64

definition metrics_new :: metrics where
  "metrics_new = \<lparr>mt_connections_total = 0, mt_connections_active = 0, mt_queries_total = 0, mt_errors_total = 0\<rparr>"

definition connection_opened :: "metrics \<Rightarrow> metrics" where
  "connection_opened m =
     m\<lparr>mt_connections_total := mt_connections_total m + 1, mt_connections_active := mt_connections_active m + 1\<rparr>"

definition connection_closed :: "metrics \<Rightarrow> metrics" where
  "connection_closed m =
     (if mt_connections_active m > 0 then m\<lparr>mt_connections_active := mt_connections_active m - 1\<rparr> else m)"

definition query_executed :: "metrics \<Rightarrow> metrics" where
  "query_executed m = m\<lparr>mt_queries_total := mt_queries_total m + 1\<rparr>"

definition metrics_error :: "metrics \<Rightarrow> metrics" where
  "metrics_error m = m\<lparr>mt_errors_total := mt_errors_total m + 1\<rparr>"

text \<open>A close undoes an open, and a close too many does not wrap the counter around.\<close>

lemma connection_closed_opened:
  assumes "mt_connections_active m \<noteq> - 1"
  shows "mt_connections_active (connection_closed (connection_opened m)) = mt_connections_active m"
proof -
  have "mt_connections_active m + 1 \<noteq> 0" using assms by (metis add.commute eq_neg_iff_add_eq_0)
  then show ?thesis by (simp add: connection_closed_def connection_opened_def word_gt_0)
qed

lemma connection_closed_saturates:
  "unat (mt_connections_active (connection_closed m)) = unat (mt_connections_active m) - 1"
  by (auto simp: connection_closed_def word_gt_0 unat_minus_one)

record observability =
  ob_logger :: logger
  ob_metrics :: metrics

definition observability_new :: "log_level \<Rightarrow> observability" where
  "observability_new level = \<lparr>ob_logger = \<lparr>lo_min_level = level\<rparr>, ob_metrics = metrics_new\<rparr>"

end
