(* ===== verification/Server_Config.thy ===== *)
theory Server_Config
  imports Auth Observability Storage_Log
begin

text \<open>
  The server configuration (\<^verbatim>\<open>src/src/config.rs\<close>): its defaults and how they are overridden
  from environment variables.  The parser of socket addresses is a parameter, as is the TLS acceptor,
  which belongs to the TLS library.
\<close>

section \<open>Parsing unsigned integers\<close>

text \<open>
  \<^verbatim>\<open>str::parse::<u64>\<close> with its errors: the digits are read from the left, and a character that is
  no digit is reported before an overflow at the same place.
\<close>

fun u64_digits :: "nat \<Rightarrow> string \<Rightarrow> string + nat" where
  "u64_digits acc [] = Inr acc"
| "u64_digits acc (c # cs) =
     (if \<not> is_ascii_digit c then Inl ''invalid digit found in string''
      else if acc * 10 + digit_value c < 2 ^ 64 then u64_digits (acc * 10 + digit_value c) cs
      else Inl ''number too large to fit in target type'')"

definition parse_u64 :: "string \<Rightarrow> string + u64" where
  "parse_u64 s =
     (if s = [] then Inl ''cannot parse integer from empty string''
      else if s = ''+'' \<or> s = ''-'' then Inl ''invalid digit found in string''
      else map_sum id word_of_nat (u64_digits 0 (if hd s = CHR ''+'' then tl s else s)))"

section \<open>The configuration\<close>

definition sync_policy_from_name :: "string \<Rightarrow> sync_policy option" where
  "sync_policy_from_name name =
     (let s = to_ascii_lowercase name in
      if s = ''always'' then Some Always else if s = ''never'' then Some Never else None)"

datatype socket_addr = SocketV4 u8 u8 u8 u8 u16 | SocketV6 "u16 list" u16

record 'tls config =
  cf_listen_addr :: socket_addr
  cf_server_version :: string
  cf_max_connections :: nat
  cf_users :: "user_credential list"
  cf_data_dir :: "string option"
  cf_sync_policy :: sync_policy
  cf_checkpoint_threshold_bytes :: u64
  cf_max_allowed_packet :: nat
  cf_wait_timeout :: u64
  cf_connect_timeout :: u64
  cf_log_level :: log_level
  cf_tls :: "'tls option"
  cf_default_auth_plugin :: auth_plugin

definition config_default :: "'tls config" where
  "config_default =
     \<lparr>cf_listen_addr = SocketV4 127 0 0 1 3306, cf_server_version = ''8.0.0-mysql-rust-0.2.0'', cf_max_connections = 0,
      cf_users = [], cf_data_dir = None, cf_sync_policy = Always, cf_checkpoint_threshold_bytes = 16 * 1024 * 1024,
      cf_max_allowed_packet = 64 * 1024 * 1024, cf_wait_timeout = 28800, cf_connect_timeout = 10, cf_log_level = Info,
      cf_tls = None, cf_default_auth_plugin = CachingSha2Password\<rparr>"

section \<open>Environment variables\<close>

abbreviation config_err :: "string \<Rightarrow> exn" where
  "config_err m \<equiv> Err (Config m)"

definition nonempty_var :: "(string \<Rightarrow> string option) \<Rightarrow> string \<Rightarrow> string option" where
  "nonempty_var get_var key = (case get_var key of Some v \<Rightarrow> (if v = [] then None else Some v) | None \<Rightarrow> None)"

definition env_listen_addr ::
    "(string \<Rightarrow> string + socket_addr) \<Rightarrow> (string \<Rightarrow> string option) \<Rightarrow> 'tls config \<Rightarrow> 'tls config result" where
  "env_listen_addr parse_addr get_var c =
     (case get_var ''MYSQLRUST_LISTEN_ADDR'' of
        None \<Rightarrow> Ok c
      | Some addr \<Rightarrow>
          (case parse_addr addr of
             Inl e \<Rightarrow> Inl (config_err (''MYSQLRUST_LISTEN_ADDR '' @ quoted addr @ '' is not a valid host:port ('' @ e @ '')''))
           | Inr a \<Rightarrow> Ok (c\<lparr>cf_listen_addr := a\<rparr>)))"

definition env_data_dir :: "(string \<Rightarrow> string option) \<Rightarrow> 'tls config \<Rightarrow> 'tls config" where
  "env_data_dir get_var c =
     (case get_var ''MYSQLRUST_DATA_DIR'' of
        None \<Rightarrow> c
      | Some dir \<Rightarrow> if dir \<noteq> [] then c\<lparr>cf_data_dir := Some dir\<rparr> else c)"

definition env_sync_policy :: "(string \<Rightarrow> string option) \<Rightarrow> 'tls config \<Rightarrow> 'tls config result" where
  "env_sync_policy get_var c =
     (case nonempty_var get_var ''MYSQLRUST_SYNC_POLICY'' of
        None \<Rightarrow> Ok c
      | Some policy \<Rightarrow>
          map_result (\<lambda>p. c\<lparr>cf_sync_policy := p\<rparr>)
            (ok_or (config_err (''MYSQLRUST_SYNC_POLICY '' @ quoted policy @ '' is not recognized; use '' @ quoted ''always''
               @ '' or '' @ quoted ''never'')) (sync_policy_from_name policy)))"

definition env_u64 ::
    "string \<Rightarrow> (u64 \<Rightarrow> 'tls config \<Rightarrow> 'tls config) \<Rightarrow> (string \<Rightarrow> string option) \<Rightarrow> 'tls config \<Rightarrow> 'tls config result" where
  "env_u64 key upd get_var c =
     (case nonempty_var get_var key of
        None \<Rightarrow> Ok c
      | Some s \<Rightarrow>
          (case parse_u64 s of
             Inl e \<Rightarrow> Inl (config_err (key @ '' '' @ quoted s @ '' is not a valid unsigned integer ('' @ e @ '')''))
           | Inr n \<Rightarrow> Ok (upd n c)))"

definition env_log_level :: "(string \<Rightarrow> string option) \<Rightarrow> 'tls config \<Rightarrow> 'tls config result" where
  "env_log_level get_var c =
     (case nonempty_var get_var ''MYSQLRUST_LOG_LEVEL'' of
        None \<Rightarrow> Ok c
      | Some level \<Rightarrow>
          map_result (\<lambda>l. c\<lparr>cf_log_level := l\<rparr>)
            (ok_or (config_err (''MYSQLRUST_LOG_LEVEL '' @ quoted level @ '' is not recognized; use '' @ quoted ''debug'' @ '', ''
               @ quoted ''info'' @ '', '' @ quoted ''warn'' @ '', or '' @ quoted ''error'')) (level_from_name level)))"

definition env_account :: "(string \<Rightarrow> string option) \<Rightarrow> 'tls config \<Rightarrow> 'tls config result" where
  "env_account get_var c =
     (case nonempty_var get_var ''MYSQLRUST_USER'' of
        None \<Rightarrow> Ok c
      | Some username \<Rightarrow>
          (let password = (case get_var ''MYSQLRUST_PASSWORD'' of None \<Rightarrow> [] | Some p \<Rightarrow> p);
               plugin = map_option trim (get_var ''MYSQLRUST_AUTH_PLUGIN'');
               named = (\<lambda>x. case plugin of None \<Rightarrow> False | Some p \<Rightarrow> eq_ignore_ascii_case p x)
           in map_result (\<lambda>u. c\<lparr>cf_users := cf_users c @ [u]\<rparr>)
             (if plugin = None \<or> plugin = Some [] then Ok (with_caching_sha2_password username password)
              else if named ''caching_sha2_password'' \<or> named ''caching_sha2''
                then Ok (with_caching_sha2_password username password)
              else if named ''mysql_native_password'' \<or> named ''native'' then Ok (with_password username password)
              else Inl (config_err (''MYSQLRUST_AUTH_PLUGIN '' @ quoted (the plugin) @ '' is not recognized; use ''
                @ quoted ''caching_sha2_password'' @ '' or '' @ quoted ''mysql_native_password'')))))"

definition from_env_with ::
    "(string \<Rightarrow> string + socket_addr) \<Rightarrow> (string \<Rightarrow> string option) \<Rightarrow> 'tls config result" where
  "from_env_with parse_addr get_var =
     bindR (env_listen_addr parse_addr get_var config_default) (\<lambda>c.
     bindR (env_sync_policy get_var (env_data_dir get_var c)) (\<lambda>c.
     bindR (env_u64 ''MYSQLRUST_CHECKPOINT_THRESHOLD_BYTES'' (\<lambda>n c. c\<lparr>cf_checkpoint_threshold_bytes := n\<rparr>) get_var c) (\<lambda>c.
     bindR (env_log_level get_var c) (\<lambda>c.
     bindR (env_u64 ''MYSQLRUST_WAIT_TIMEOUT_SECS'' (\<lambda>n c. c\<lparr>cf_wait_timeout := n\<rparr>) get_var c) (\<lambda>c.
     bindR (env_u64 ''MYSQLRUST_CONNECT_TIMEOUT_SECS'' (\<lambda>n c. c\<lparr>cf_connect_timeout := n\<rparr>) get_var c) (\<lambda>c.
     env_account get_var c))))))"

section \<open>What the environment decides\<close>

text \<open>Reading digits from the left gives their value, or an error as soon as it does not fit.\<close>

lemma u64_digits_value:
  assumes "acc < 2 ^ 64"
  shows "(case u64_digits acc ds of Inr n \<Rightarrow> Some n | Inl _ \<Rightarrow> None) =
    (if list_all is_ascii_digit ds \<and> acc * 10 ^ length ds + digits_value ds < 2 ^ 64
     then Some (acc * 10 ^ length ds + digits_value ds) else None)"
  using assms
proof (induction ds arbitrary: acc)
  case Nil
  then show ?case by (simp add: digits_value_def)
next
  case (Cons c ds)
  let ?a = "acc * 10 + digit_value c"
  have v: "acc * 10 ^ length (c # ds) + digits_value (c # ds) = ?a * 10 ^ length ds + digits_value ds"
    by (simp add: digits_value_Cons algebra_simps)
  show ?case
  proof (cases "is_ascii_digit c \<and> ?a < 2 ^ 64")
    case True
    then show ?thesis using Cons.IH [of ?a] v by simp
  next
    case False
    have "?a \<le> ?a * 10 ^ length ds" by simp
    then have "\<not> (is_ascii_digit c \<and> ?a * 10 ^ length ds + digits_value ds < 2 ^ 64)" using False by linarith
    then show ?thesis using False v by auto
  qed
qed

lemma parse_u64_show: "parse_u64 (show_nat (unat (w :: u64))) = Inr w"
proof -
  have b: "unat w < 2 ^ 64" using unat_bound [of w] by simp
  have u: "u64_digits 0 (show_nat (unat w)) = Inr (unat w)"
    using u64_digits_value [of 0 "show_nat (unat w)"] b
    by (simp add: show_nat_digits split: sum.splits)
  have "show_nat (unat w) \<noteq> ''+'' \<and> show_nat (unat w) \<noteq> ''-''"
    using hd_show_nat [of "unat w"] by (metis list.sel(1))
  then show ?thesis using u by (simp add: parse_u64_def)
qed

text \<open>The accounts of a configuration: none without a user name, one for it otherwise.\<close>

lemma env_keeps_users:
  "env_listen_addr parse_addr get_var c = Ok c' \<Longrightarrow> cf_users c' = cf_users c"
  "env_sync_policy get_var c = Ok c' \<Longrightarrow> cf_users c' = cf_users c"
  "env_log_level get_var c = Ok c' \<Longrightarrow> cf_users c' = cf_users c"
  "cf_users (env_data_dir get_var c) = cf_users c"
  "(\<And>n c. cf_users (upd n c) = cf_users c) \<Longrightarrow> env_u64 key upd get_var c = Ok c' \<Longrightarrow> cf_users c' = cf_users c"
  by (auto simp: env_listen_addr_def env_sync_policy_def env_log_level_def env_data_dir_def env_u64_def
      map_result_Ok_iff split: option.splits sum.splits)

lemma from_env_accounts:
  assumes "from_env_with parse_addr get_var = Ok c"
  shows "(case nonempty_var get_var ''MYSQLRUST_USER'' of
      None \<Rightarrow> cf_users c = []
    | Some username \<Rightarrow> \<exists>u. cf_users c = [u] \<and> uc_username u = username)"
proof -
  obtain d where d: "cf_users d = []" "env_account get_var d = Ok c"
    using assms by (auto simp: from_env_with_def bindR_Ok_iff config_default_def env_keeps_users(4)
        dest!: env_keeps_users(1-3) env_keeps_users(5) [rotated])
  then show ?thesis
    by (auto simp: env_account_def Let_def with_password_def with_caching_sha2_password_def map_result_Ok_iff
        split: option.splits if_splits)
qed

text \<open>Without a user name every login is denied.\<close>

lemma no_account_no_login:
  assumes "from_env_with parse_addr get_var = Ok c" "nonempty_var get_var ''MYSQLRUST_USER'' = None"
  shows "authenticate (authenticator_new (cf_users c)) username plugin reply scramble = Denied"
  using from_env_accounts [OF assms(1)] assms(2) by (simp add: authenticate_def authenticator_new_def)

end
