(* ===== verification/Connection.thy ===== *)
theory Connection
  imports Server_Config Wire_Requests Sql_Parser Exec_Statement
begin

text \<open>
  One client connection (\<^verbatim>\<open>src/src/server/connection.rs\<close>, \<^verbatim>\<open>src/src/server/tls.rs\<close>): reading packets
  from the socket, the handshake, authentication, and the command phase.

  The socket is a list of the results its coming reads have, followed by its end, a list of failures
  of its coming writes, and the bytes sent so far.  The timers around a read are the event
  \<open>ReadElapsed\<close>.  The TLS acceptor is a parameter: from the bytes of the socket it gives the reads of
  the decrypted stream, or an error.  The shared state of the server is the world of
  \<^verbatim>\<open>Storage_Tx\<close> (the store, the open transactions by connection, the table locks), the outcomes of the
  coming log writes, the counters and the lines logged.  A handler maps the shared state and the
  connection to a result and their new states; an error keeps what was done before it.
\<close>

section \<open>The socket\<close>

datatype read_event = ReadData "u8 list" | ReadFails string | ReadElapsed

datatype write_event = WriteDone | WriteBroken nat string

text \<open>The bytes a \<^verbatim>\<open>PrefixedStream\<close> yields: its prefix, then those of the inner stream.\<close>

definition prefixed_stream :: "u8 list \<Rightarrow> read_event list \<Rightarrow> read_event list" where
  "prefixed_stream prefix inner = (if prefix = [] then inner else ReadData prefix # inner)"

datatype stream_mode = Plain | Upgrading | Tls

type_synonym tls_acceptor = "read_event list \<Rightarrow> string + read_event list"

section \<open>State\<close>

record prepared_statement =
  pp_statement :: statement
  pp_param_count :: nat

record connection =
  cn_reads :: "read_event list"
  cn_writes :: "write_event list"
  cn_sent :: "u8 list"
  cn_mode :: stream_mode
  cn_tls_acceptor :: "tls_acceptor option"
  cn_system_variables :: system_variables
  cn_connection_id :: u32
  cn_sequence_id :: u8
  cn_read_buf :: "u8 list"
  cn_out_buf :: "u8 list"
  cn_scramble :: "u8 list"
  cn_default_auth_plugin :: auth_plugin
  cn_authenticator :: authenticator
  cn_client_capabilities :: u32
  cn_prepared :: "u32 \<rightharpoonup> prepared_statement"
  cn_next_statement_id :: u32
  cn_max_allowed_packet :: nat
  cn_wait_timeout :: u64
  cn_connect_timeout :: u64

record server =
  sr_world :: world
  sr_io :: "io_outcome list"
  sr_obs :: observability
  sr_lines :: "string list"

text \<open>What the code takes from outside: Unicode tables, hash iteration orders and the clock.\<close>

record env =
  ev_unicode :: unicode
  ev_orders :: orders
  ev_pending :: "(string \<rightharpoonup> row list) \<Rightarrow> string list"
  ev_clock :: "nat \<Rightarrow> u64"

definition connection_new ::
    "read_event list \<Rightarrow> write_event list \<Rightarrow> tls_acceptor config \<Rightarrow> u32 \<Rightarrow> connection" where
  "connection_new reads writes config connection_id =
     \<lparr>cn_reads = reads, cn_writes = writes, cn_sent = [], cn_mode = Plain, cn_tls_acceptor = cf_tls config,
      cn_system_variables =
        \<lparr>sv_version = cf_server_version config, sv_max_allowed_packet = word_of_nat (cf_max_allowed_packet config),
         sv_wait_timeout = cf_wait_timeout config\<rparr>,
      cn_connection_id = connection_id, cn_sequence_id = 0, cn_read_buf = [], cn_out_buf = [],
      cn_scramble = replicate SCRAMBLE_LEN 0, cn_default_auth_plugin = cf_default_auth_plugin config,
      cn_authenticator = authenticator_new (cf_users config), cn_client_capabilities = 0, cn_prepared = Map.empty,
      cn_next_statement_id = 1, cn_max_allowed_packet = cf_max_allowed_packet config,
      cn_wait_timeout = cf_wait_timeout config, cn_connect_timeout = cf_connect_timeout config\<rparr>"

section \<open>Actions\<close>

type_synonym session = "server \<times> connection"
type_synonym 'a act = "session \<Rightarrow> 'a result \<times> session"

definition retA :: "'a \<Rightarrow> 'a act" where
  "retA a s = (Ok a, s)"

definition liftA :: "'a result \<Rightarrow> 'a act" where
  "liftA r s = (r, s)"

definition bindA :: "'a act \<Rightarrow> ('a \<Rightarrow> 'b act) \<Rightarrow> 'b act" where
  "bindA m f s = (case m s of (Inl e, s') \<Rightarrow> (Inl e, s') | (Inr a, s') \<Rightarrow> f a s')"

definition getC :: "(connection \<Rightarrow> 'a) \<Rightarrow> 'a act" where
  "getC f s = (Ok (f (snd s)), s)"

definition modC :: "(connection \<Rightarrow> connection) \<Rightarrow> unit act" where
  "modC f s = (Ok (), (fst s, f (snd s)))"

definition modS :: "(server \<Rightarrow> server) \<Rightarrow> unit act" where
  "modS f s = (Ok (), (f (fst s), snd s))"

text \<open>Turning an error into a value, as a \<^verbatim>\<open>match\<close> on a result does; a panic goes on unwinding.\<close>

definition catchA :: "'a act \<Rightarrow> (error + 'a) act" where
  "catchA m s =
     (case m s of
        (Inl (Err e), s') \<Rightarrow> (Ok (Inl e), s')
      | (Inl (Panic p), s') \<Rightarrow> (Inl (Panic p), s')
      | (Inr a, s') \<Rightarrow> (Ok (Inr a), s'))"

definition bump_sequence :: "unit act" where
  "bump_sequence = modC (\<lambda>c. c\<lparr>cn_sequence_id := cn_sequence_id c + 1\<rparr>)"

definition log_line :: "env \<Rightarrow> log_level \<Rightarrow> string \<Rightarrow> (string \<times> string) list \<Rightarrow> server \<Rightarrow> server" where
  "log_line ev level event fs sv =
     sv\<lparr>sr_lines := sr_lines sv
       @ log_event (ob_logger (sr_obs sv)) (ev_clock ev (length (sr_lines sv))) level event fs\<rparr>"

definition with_metrics :: "(metrics \<Rightarrow> metrics) \<Rightarrow> server \<Rightarrow> server" where
  "with_metrics f sv = sv\<lparr>sr_obs := (sr_obs sv)\<lparr>ob_metrics := f (ob_metrics (sr_obs sv))\<rparr>\<rparr>"

definition count_metric :: "(metrics \<Rightarrow> metrics) \<Rightarrow> unit act" where
  "count_metric f = modS (with_metrics f)"

definition write_log_line :: "env \<Rightarrow> log_level \<Rightarrow> string \<Rightarrow> (string \<times> string) list \<Rightarrow> unit act" where
  "write_log_line ev level event fs = modS (log_line ev level event fs)"

section \<open>Writing\<close>

definition flush_out_buf :: "unit act" where
  "flush_out_buf s =
     (let c = snd s in
      case cn_writes c of
        [] \<Rightarrow> (Ok (), (fst s, c\<lparr>cn_sent := cn_sent c @ cn_out_buf c\<rparr>))
      | WriteDone # ws \<Rightarrow> (Ok (), (fst s, c\<lparr>cn_sent := cn_sent c @ cn_out_buf c, cn_writes := ws\<rparr>))
      | WriteBroken n e # ws \<Rightarrow>
          (Fail (Io e), (fst s, c\<lparr>cn_sent := cn_sent c @ take n (cn_out_buf c), cn_writes := ws\<rparr>)))"

definition write_packet :: "packet \<Rightarrow> unit act" where
  "write_packet p = bindA (modC (\<lambda>c. c\<lparr>cn_out_buf := encode_into p []\<rparr>)) (\<lambda>_. flush_out_buf)"

text \<open>\<^verbatim>\<open>self.write_packet(&m.to_packet(self.sequence_id)?).await?\<close>\<close>

definition send_packet :: "(u8 \<Rightarrow> packet result) \<Rightarrow> unit act" where
  "send_packet enc = bindA (getC cn_sequence_id) (\<lambda>sq. bindA (liftA (enc sq)) write_packet)"

section \<open>Reading\<close>

definition READ_CHUNK :: nat where "READ_CHUNK = 4096"

definition declared_payload_len :: "u8 list \<Rightarrow> nat option" where
  "declared_payload_len buf =
     (if length buf \<ge> 4 then Some (unat (u32_from_le [buf ! 0, buf ! 1, buf ! 2, 0])) else None)"

definition err_too_large :: "nat \<Rightarrow> nat \<Rightarrow> exn" where
  "err_too_large declared max_allowed =
     proto_err (''packet payload of '' @ show_nat declared @ '' bytes exceeds max_allowed_packet ('' @ show_nat max_allowed @ '')'')"

definition err_closed :: exn where
  "err_closed = proto_err ''connection closed before a full packet was received''"

definition oversized :: "connection \<Rightarrow> nat option" where
  "oversized c =
     (case declared_payload_len (cn_read_buf c) of
        Some declared \<Rightarrow> if declared > cn_max_allowed_packet c then Some declared else None
      | None \<Rightarrow> None)"

text \<open>How much input is left; every read takes some of it.\<close>

fun event_size :: "read_event \<Rightarrow> nat" where
  "event_size (ReadData bs) = Suc (length bs)"
| "event_size (ReadFails e) = 1"
| "event_size ReadElapsed = 1"

definition input_left :: "connection \<Rightarrow> nat" where
  "input_left c = length (cn_read_buf c) + sum_list (map event_size (cn_reads c))"

text \<open>
  One packet; \<open>None\<close> when the timer runs out first, with the bytes read so far kept.  A read of no
  bytes is the end of the stream.
\<close>

function read_packet :: "connection \<Rightarrow> packet result option \<times> connection" where
  "read_packet c =
     (case oversized c of
        Some declared \<Rightarrow> (Some (Inl (err_too_large declared (cn_max_allowed_packet c))), c)
      | None \<Rightarrow>
          (case parse_packet (cn_read_buf c) of
             Inl e \<Rightarrow> (Some (Inl e), c)
           | Inr (Some (packet, consumed)) \<Rightarrow> (Some (Ok packet), c\<lparr>cn_read_buf := drop consumed (cn_read_buf c)\<rparr>)
           | Inr None \<Rightarrow>
               (case cn_reads c of
                  [] \<Rightarrow> (Some (Inl err_closed), c)
                | ReadElapsed # es \<Rightarrow> (None, c\<lparr>cn_reads := es\<rparr>)
                | ReadFails e # es \<Rightarrow> (Some (Fail (Io e)), c\<lparr>cn_reads := es\<rparr>)
                | ReadData bs # es \<Rightarrow>
                    if bs = [] then (Some (Inl err_closed), c\<lparr>cn_reads := es\<rparr>)
                    else read_packet (c\<lparr>cn_read_buf := cn_read_buf c @ take READ_CHUNK bs,
                           cn_reads := prefixed_stream (drop READ_CHUNK bs) es\<rparr>))))"
  by auto
termination
  by (relation "measure (\<lambda>c. sum_list (map event_size (cn_reads c)))") (auto simp: prefixed_stream_def READ_CHUNK_def)

declare read_packet.simps [simp del]

text \<open>A read under a timer.\<close>

definition timed_read :: "packet result option act" where
  "timed_read s = (let (r, c) = read_packet (snd s) in (Ok r, (fst s, c)))"

definition read_packet_before_connect_timeout :: "packet act" where
  "read_packet_before_connect_timeout =
     bindA timed_read (\<lambda>r. case r of
       None \<Rightarrow>
         bindA (getC cn_connect_timeout) (\<lambda>t.
         liftA (Inl (proto_err (''connection timed out after '' @ show_nat (unat t) @ ''s during handshake/authentication''))))
     | Some r \<Rightarrow> liftA r)"

text \<open>A packet with the sequence id that is due.\<close>

definition read_handshake_packet :: "packet act" where
  "read_handshake_packet =
     bindA read_packet_before_connect_timeout (\<lambda>packet.
     bindA (getC cn_sequence_id) (\<lambda>sq.
     if pk_sequence_id packet \<noteq> sq
     then liftA (Inl (proto_err (''expected sequence id '' @ show_nat (unat sq) @ '', got '' @ show_nat (unat (pk_sequence_id packet)))))
     else bindA bump_sequence (\<lambda>_. retA packet)))"

section \<open>Handshake\<close>

text \<open>Reading the placeholder that stands for the stream during an upgrade fails.\<close>

definition upgrading_error :: string where
  "upgrading_error = ''connection stream is mid-TLS-upgrade''"

definition upgrade_to_tls :: "unit act" where
  "upgrade_to_tls s =
     (let c = snd s in
      case cn_tls_acceptor c of
        None \<Rightarrow> (Inl (proto_err ''TLS upgrade requested but TLS is not configured''), s)
      | Some accept \<Rightarrow>
          if cn_mode c \<noteq> Plain
          then (Inl (proto_err ''TLS upgrade attempted on an already-upgraded connection''), s)
          else
            let prefixed = prefixed_stream (cn_read_buf c) (cn_reads c);
                c1 = c\<lparr>cn_mode := Upgrading, cn_read_buf := []\<rparr>
            in case accept prefixed of
                 Inl e \<Rightarrow> (Inl (proto_err (''TLS handshake failed: '' @ e)), (fst s, c1\<lparr>cn_reads := [ReadFails upgrading_error]\<rparr>))
               | Inr decrypted \<Rightarrow> (Ok (), (fst s, c1\<lparr>cn_mode := Tls, cn_reads := decrypted\<rparr>)))"

definition response_has_ssl_flag :: "u8 list \<Rightarrow> bool" where
  "response_has_ssl_flag payload \<longleftrightarrow>
     length payload \<ge> 4 \<and> has_flag (u32_from_le [payload ! 0, payload ! 1, payload ! 2, payload ! 3]) CLIENT_SSL"

definition perform_handshake :: "u8 list \<Rightarrow> handshake_response act" where
  "perform_handshake raw =
     bindA (getC (\<lambda>c. handshake_new raw (cn_connection_id c) (sv_version (cn_system_variables c))
       (cn_tls_acceptor c \<noteq> None) (wire_name (cn_default_auth_plugin c)))) (\<lambda>handshake.
     bindA (modC (\<lambda>c. c\<lparr>cn_scramble := hs_auth_plugin_data handshake\<rparr>)) (\<lambda>_.
     bindA (send_packet (handshake_to_packet handshake)) (\<lambda>_.
     bindA bump_sequence (\<lambda>_.
     bindA read_handshake_packet (\<lambda>packet.
     bindA (getC (\<lambda>c. cn_tls_acceptor c \<noteq> None \<and> response_has_ssl_flag (pk_payload packet))) (\<lambda>ssl.
     bindA (if ssl then bindA upgrade_to_tls (\<lambda>_. read_handshake_packet) else retA packet) (\<lambda>response_packet.
     liftA (parse_handshake_response (pk_payload response_packet)))))))))"

section \<open>Authentication\<close>

definition client_plugin_of :: "connection \<Rightarrow> handshake_response \<Rightarrow> auth_plugin" where
  "client_plugin_of c response =
     (case Option.bind (hr_auth_plugin_name response) from_wire_name of
        Some p \<Rightarrow> p
      | None \<Rightarrow> cn_default_auth_plugin c)"

definition target_plugin_of :: "connection \<Rightarrow> handshake_response \<Rightarrow> auth_plugin" where
  "target_plugin_of c response =
     (case plugin_for (cn_authenticator c) (hr_username response) of
        Some p \<Rightarrow> p
      | None \<Rightarrow> client_plugin_of c response)"

definition auth_switch :: "u8 list \<Rightarrow> auth_plugin \<Rightarrow> u8 list act" where
  "auth_switch raw target_plugin =
     bindA (modC (\<lambda>c. c\<lparr>cn_scramble := generate_scramble raw\<rparr>)) (\<lambda>_.
     bindA (send_packet (auth_switch_to_packet
       \<lparr>as_plugin_name = wire_name target_plugin, as_auth_plugin_data = generate_scramble raw\<rparr>)) (\<lambda>_.
     bindA bump_sequence (\<lambda>_.
     bindA read_handshake_packet (\<lambda>packet. retA (pk_payload packet)))))"

definition send_verdict :: "handshake_response \<Rightarrow> auth_plugin \<Rightarrow> auth_outcome \<Rightarrow> unit act" where
  "send_verdict response target_plugin outcome =
     (case outcome of
        AuthOk \<Rightarrow>
          bindA (if target_plugin = CachingSha2Password
                 then bindA (send_packet (auth_more_data_packet fast_auth_success)) (\<lambda>_. bump_sequence)
                 else retA ()) (\<lambda>_.
          send_packet (ok_to_packet ok_packet_new))
      | Denied \<Rightarrow> send_packet (err_to_packet (access_denied (hr_username response))))"

definition conn_authenticate :: "u8 list \<Rightarrow> handshake_response \<Rightarrow> auth_outcome act" where
  "conn_authenticate raw response =
     bindA (getC (\<lambda>c. (client_plugin_of c response, target_plugin_of c response))) (\<lambda>(client_plugin, target_plugin).
     bindA (if client_plugin = target_plugin then retA (hr_auth_response response) else auth_switch raw target_plugin)
       (\<lambda>auth_response.
     bindA (getC (\<lambda>c. authenticate (cn_authenticator c) (hr_username response) target_plugin auth_response (cn_scramble c)))
       (\<lambda>outcome.
     bindA (send_verdict response target_plugin outcome) (\<lambda>_.
     bindA bump_sequence (\<lambda>_. retA outcome)))))"

section \<open>Statements\<close>

abbreviation conn_no :: "connection \<Rightarrow> nat" where
  "conn_no c \<equiv> unat (cn_connection_id c)"

text \<open>The outcome of the next write to the log.\<close>

definition next_io :: "server \<Rightarrow> io_outcome \<times> server" where
  "next_io sv = (case sr_io sv of [] \<Rightarrow> (IoOk, sv) | io # ios \<Rightarrow> (io, sv\<lparr>sr_io := ios\<rparr>))"

text \<open>
  Ending the transaction of connection \<open>k\<close>: committing consumes it, so it is gone and its locks are
  released whether or not the batch could be written; rolling back drops it.
\<close>

definition finish_tx :: "world \<Rightarrow> engine \<Rightarrow> nat \<Rightarrow> world" where
  "finish_tx w en k = w\<lparr>w_store := en, w_tx := (w_tx w)(k := None), w_locks := release_locks (w_locks w) k\<rparr>"

definition commit_open :: "env \<Rightarrow> unit act" where
  "commit_open ev s =
     (let k = conn_no (snd s); w = sr_world (fst s) in
      case w_tx w k of
        None \<Rightarrow> (Ok (), s)
      | Some tx \<Rightarrow>
          let (io, sv) = next_io (fst s);
              (r, en) = tx_commit (ev_pending ev) io (w_store w) tx
          in (r, (sv\<lparr>sr_world := finish_tx w en k\<rparr>, snd s)))"

definition begin_transaction :: "env \<Rightarrow> query_result act" where
  "begin_transaction ev =
     bindA (commit_open ev) (\<lambda>_ s.
       let k = conn_no (snd s); w = sr_world (fst s)
       in (Ok default_result, ((fst s)\<lparr>sr_world := w\<lparr>w_tx := (w_tx w)(k \<mapsto> tx_new)\<rparr>\<rparr>, snd s)))"

definition commit_transaction :: "env \<Rightarrow> query_result act" where
  "commit_transaction ev = bindA (commit_open ev) (\<lambda>_. retA default_result)"

definition rollback_transaction :: "query_result act" where
  "rollback_transaction s =
     (let k = conn_no (snd s); w = sr_world (fst s) in
      case w_tx w k of
        None \<Rightarrow> (Ok default_result, s)
      | Some tx \<Rightarrow> (Ok default_result, ((fst s)\<lparr>sr_world := finish_tx w (w_store w) k\<rparr>, snd s)))"

definition insert_table :: "statement \<Rightarrow> string option" where
  "insert_table st = (case st of StInsert table columns rows \<Rightarrow> Some table | _ \<Rightarrow> None)"

text \<open>
  Locking the table of an INSERT: for the whole transaction, or, in autocommit, for the statement, so
  that the lock has to be free and is free again afterwards.
\<close>

definition lock_for :: "statement \<Rightarrow> unit act" where
  "lock_for st s =
     (let k = conn_no (snd s); w = sr_world (fst s) in
      case insert_table st of
        None \<Rightarrow> (Ok (), s)
      | Some table \<Rightarrow>
          (case w_tx w k of
             Some tx \<Rightarrow>
               (case ensure_locked w k tx table of
                  Inl e \<Rightarrow> (Inl e, s)
                | Inr (tx', lk) \<Rightarrow>
                    (Ok (), ((fst s)\<lparr>sr_world := w\<lparr>w_tx := (w_tx w)(k \<mapsto> tx'), w_locks := lk\<rparr>\<rparr>, snd s)))
           | None \<Rightarrow> if w_locks w table \<noteq> None then (Inl err_lock_timeout, s) else (Ok (), s)))"

definition run_statement :: "env \<Rightarrow> statement \<Rightarrow> query_result act" where
  "run_statement ev st s =
     (let k = conn_no (snd s); w = sr_world (fst s);
          (io, sv) = next_io (fst s);
          (r, (en, tx)) = execute (ev_orders ev) (cn_system_variables (snd s)) io (w_store w, w_tx w k) st
      in (r, (sv\<lparr>sr_world := w\<lparr>w_store := en, w_tx := (w_tx w)(k := tx)\<rparr>\<rparr>, snd s)))"

definition execute_statement :: "env \<Rightarrow> statement \<Rightarrow> query_result act" where
  "execute_statement ev st =
     (case st of
        StBegin \<Rightarrow> begin_transaction ev
      | StCommit \<Rightarrow> commit_transaction ev
      | StRollback \<Rightarrow> rollback_transaction
      | _ \<Rightarrow> bindA (lock_for st) (\<lambda>_. run_statement ev st))"

section \<open>Results\<close>

definition SERVER_STATUS_AUTOCOMMIT :: u16 where "SERVER_STATUS_AUTOCOMMIT = 0x0002"
definition SERVER_MORE_RESULTS_EXISTS :: u16 where "SERVER_MORE_RESULTS_EXISTS = 0x0008"

definition conn_column_definition :: "column_schema \<Rightarrow> column_definition" where
  "conn_column_definition c =
     \<lparr>cdf_name = cs_name c, cdf_type = (case cs_type c of TInt \<Rightarrow> LongLong | _ \<Rightarrow> VarString)\<rparr>"

definition value_to_cell :: "value \<Rightarrow> cell" where
  "value_to_cell v =
     (case v of
        VInt n \<Rightarrow> CellInt n
      | VVarchar s \<Rightarrow> CellText s
      | VNull \<Rightarrow> CellNull
      | _ \<Rightarrow> CellText (unwrap_or_default (to_display_string v)))"

definition cell_to_expr :: "cell \<Rightarrow> expr" where
  "cell_to_expr c = (case c of CellInt n \<Rightarrow> EInteger n | CellText s \<Rightarrow> EString s | CellNull \<Rightarrow> ENull)"

definition result_set_of :: "query_result \<Rightarrow> result_set" where
  "result_set_of r =
     \<lparr>rs_columns = map conn_column_definition (qr_columns r), rs_rows = map (map value_to_cell) (qr_rows r)\<rparr>"

text \<open>The query text of a log line, cut after 500 characters and marked with an ellipsis.\<close>

definition truncate_sql :: "string \<Rightarrow> string" where
  "truncate_sql s =
     (if length (chars_of s) > 500 then concat (take 500 (chars_of s)) @ [CHR 0xE2, CHR 0x80, CHR 0xA6] else s)"

definition log_query_error :: "env \<Rightarrow> error \<Rightarrow> string option \<Rightarrow> unit act" where
  "log_query_error ev e sql =
     bindA (getC cn_connection_id) (\<lambda>sid.
     write_log_line ev Debug ''query_error''
       ([(''connection_id'', show_nat (unat sid)), (''error'', error_text e)]
        @ (case sql of None \<Rightarrow> [] | Some q \<Rightarrow> [(''sql'', truncate_sql q)])))"

definition status_flags_of :: "bool \<Rightarrow> u16" where
  "status_flags_of more_results =
     (if more_results then SERVER_STATUS_AUTOCOMMIT OR SERVER_MORE_RESULTS_EXISTS else SERVER_STATUS_AUTOCOMMIT)"

definition send_rows :: "query_result \<Rightarrow> bool \<Rightarrow> u16 \<Rightarrow> unit act" where
  "send_rows r binary status_flags =
     bindA (getC (\<lambda>c. (has_flag (cn_client_capabilities c) CLIENT_DEPRECATE_EOF, cn_sequence_id c))) (\<lambda>(deprecate_eof, sq).
     bindA (modC (\<lambda>c. c\<lparr>cn_out_buf := []\<rparr>)) (\<lambda>_.
     bindA (liftA (if binary then encode_binary_into (result_set_of r) [] deprecate_eof status_flags sq
                   else encode_text_into (result_set_of r) [] deprecate_eof status_flags sq)) (\<lambda>(out, next_seq).
     bindA (modC (\<lambda>c. c\<lparr>cn_out_buf := out\<rparr>)) (\<lambda>_.
     bindA flush_out_buf (\<lambda>_.
     modC (\<lambda>c. c\<lparr>cn_sequence_id := next_seq\<rparr>))))))"

definition send_result :: "env \<Rightarrow> error + query_result \<Rightarrow> bool \<Rightarrow> bool \<Rightarrow> string option \<Rightarrow> unit act" where
  "send_result ev outcome binary more_results sql =
     (case outcome of
        Inr r \<Rightarrow>
          bindA (count_metric query_executed) (\<lambda>_.
          if qr_columns r = [] then
            bindA (send_packet (ok_to_packet (ok_packet_new
              \<lparr>ok_affected_rows := qr_rows_affected r, ok_status_flags := status_flags_of more_results\<rparr>))) (\<lambda>_.
            bump_sequence)
          else send_rows r binary (status_flags_of more_results))
      | Inl e \<Rightarrow>
          bindA (count_metric metrics_error) (\<lambda>_.
          bindA (log_query_error ev e sql) (\<lambda>_.
          bindA (send_packet (err_to_packet (from_error e))) (\<lambda>_. bump_sequence))))"

section \<open>Commands\<close>

definition COM_QUIT :: u8 where "COM_QUIT = 0x01"
definition COM_QUERY :: u8 where "COM_QUERY = 0x03"
definition COM_PING :: u8 where "COM_PING = 0x0e"
definition COM_STMT_PREPARE :: u8 where "COM_STMT_PREPARE = 0x16"
definition COM_STMT_EXECUTE :: u8 where "COM_STMT_EXECUTE = 0x17"
definition COM_STMT_RESET :: u8 where "COM_STMT_RESET = 0x1a"
definition COM_STMT_CLOSE :: u8 where "COM_STMT_CLOSE = 0x19"

lemmas command_defs = COM_QUIT_def COM_QUERY_def COM_PING_def COM_STMT_PREPARE_def COM_STMT_EXECUTE_def
  COM_STMT_RESET_def COM_STMT_CLOSE_def

fun run_statements :: "env \<Rightarrow> string \<Rightarrow> statement list \<Rightarrow> unit act" where
  "run_statements ev sql [] = retA ()"
| "run_statements ev sql (st # sts) =
     bindA (catchA (execute_statement ev st)) (\<lambda>outcome.
     bindA (send_result ev outcome False (\<not> isl outcome \<and> sts \<noteq> []) (Some sql)) (\<lambda>_.
     if isl outcome then retA () else run_statements ev sql sts))"

definition err_multi_statements :: error where
  "err_multi_statements = Parse ''multiple statements in one query require CLIENT_MULTI_STATEMENTS''"

definition handle_query :: "env \<Rightarrow> string \<Rightarrow> unit act" where
  "handle_query ev sql =
     bindA (catchA (liftA (parse_many (ev_unicode ev) sql))) (\<lambda>parsed.
     bindA (getC cn_client_capabilities) (\<lambda>caps.
     case parsed of
       Inl e \<Rightarrow> send_result ev (Inl e) False False (Some sql)
     | Inr statements \<Rightarrow>
         if length statements > 1 \<and> \<not> has_flag caps CLIENT_MULTI_STATEMENTS
         then send_result ev (Inl err_multi_statements) False False (Some sql)
         else run_statements ev sql statements))"

definition send_stmt_error :: "error \<Rightarrow> unit act" where
  "send_stmt_error e = bindA (send_packet (err_to_packet (from_error e))) (\<lambda>_. bump_sequence)"

definition conn_eof_packet :: "u8 \<Rightarrow> packet" where
  "conn_eof_packet sequence_id = packet_of sequence_id ([0xfe] @ u16_le 0 @ u16_le 0x0002)"

fun send_param_definitions :: "nat \<Rightarrow> unit act" where
  "send_param_definitions 0 = retA ()"
| "send_param_definitions (Suc n) =
     bindA (send_packet (column_to_packet \<lparr>cdf_name = ''?'', cdf_type = VarString\<rparr>)) (\<lambda>_.
     bindA bump_sequence (\<lambda>_. send_param_definitions n))"

definition add_prepared :: "statement \<Rightarrow> nat \<Rightarrow> u32 act" where
  "add_prepared st n =
     bindA (getC cn_next_statement_id) (\<lambda>sid.
     bindA (modC (\<lambda>c. c\<lparr>cn_next_statement_id := sid + 1,
       cn_prepared := (cn_prepared c)(sid \<mapsto> \<lparr>pp_statement = st, pp_param_count = n\<rparr>)\<rparr>)) (\<lambda>_. retA sid))"

definition handle_stmt_prepare :: "env \<Rightarrow> u8 list \<Rightarrow> unit act" where
  "handle_stmt_prepare ev payload =
     (case from_utf8 (drop 1 payload) of
        None \<Rightarrow> send_stmt_error (Protocol ''COM_STMT_PREPARE: payload is not valid UTF-8'')
      | Some sql \<Rightarrow>
          bindA (catchA (liftA (parse_prepared (ev_unicode ev) sql))) (\<lambda>parsed.
          case parsed of
            Inl e \<Rightarrow> send_stmt_error e
          | Inr (st, param_count) \<Rightarrow>
              bindA (add_prepared st param_count) (\<lambda>sid.
              bindA (send_packet (stmt_prepare_ok_packet
                \<lparr>spo_statement_id = sid, spo_num_columns = 0, spo_num_params = word_of_nat param_count\<rparr>)) (\<lambda>_.
              bindA bump_sequence (\<lambda>_.
              if param_count > 0 then
                bindA (send_param_definitions param_count) (\<lambda>_.
                bindA (getC (\<lambda>c. has_flag (cn_client_capabilities c) CLIENT_DEPRECATE_EOF)) (\<lambda>deprecate_eof.
                if \<not> deprecate_eof
                then bindA (send_packet (\<lambda>sq. Ok (conn_eof_packet sq))) (\<lambda>_. bump_sequence)
                else retA ()))
              else retA ())))))"

definition statement_id_of :: "u8 list \<Rightarrow> u32 option" where
  "statement_id_of payload =
     (if length payload < 5 then None else Some (u32_from_le [payload ! 1, payload ! 2, payload ! 3, payload ! 4]))"

definition err_unknown_statement :: "u32 \<Rightarrow> error" where
  "err_unknown_statement sid =
     Execution (''Unknown prepared statement handler ('' @ show_nat (unat sid) @ '') given to COM_STMT_EXECUTE'')"

definition execute_prepared :: "env \<Rightarrow> u8 list \<Rightarrow> prepared_statement \<Rightarrow> query_result act" where
  "execute_prepared ev payload p =
     bindA (liftA (parse_execute_params payload (pp_param_count p))) (\<lambda>params.
     bindA (liftA (bind_parameters (pp_statement p) (map cell_to_expr params))) (\<lambda>bound.
     execute_statement ev bound))"

definition handle_stmt_execute :: "env \<Rightarrow> u8 list \<Rightarrow> unit act" where
  "handle_stmt_execute ev payload =
     (case statement_id_of payload of
        None \<Rightarrow> send_stmt_error (Protocol ''COM_STMT_EXECUTE: truncated header'')
      | Some sid \<Rightarrow>
          bindA (getC (\<lambda>c. cn_prepared c sid)) (\<lambda>found.
          case found of
            None \<Rightarrow> send_stmt_error (err_unknown_statement sid)
          | Some p \<Rightarrow>
              bindA (catchA (execute_prepared ev payload p)) (\<lambda>outcome.
              send_result ev outcome True False None)))"

definition handle_stmt_close :: "u8 list \<Rightarrow> unit act" where
  "handle_stmt_close payload =
     (case statement_id_of payload of
        None \<Rightarrow> retA ()
      | Some sid \<Rightarrow> modC (\<lambda>c. c\<lparr>cn_prepared := (cn_prepared c)(sid := None)\<rparr>))"

definition handle_stmt_reset :: "u8 list \<Rightarrow> unit act" where
  "handle_stmt_reset payload =
     bindA (getC (\<lambda>c. case statement_id_of payload of None \<Rightarrow> False | Some sid \<Rightarrow> cn_prepared c sid \<noteq> None)) (\<lambda>known.
     bindA (if known then send_packet (ok_to_packet ok_packet_new)
            else send_packet (err_to_packet (err_packet_new 1243 ''HY000''
              ''Unknown prepared statement handler given to COM_STMT_RESET''))) (\<lambda>_.
     bump_sequence))"

text \<open>One command; the value says whether the loop goes on.\<close>

definition dispatch_command :: "env \<Rightarrow> u8 \<Rightarrow> u8 list \<Rightarrow> bool act" where
  "dispatch_command ev command payload =
     (if command = COM_QUIT then retA False
      else
        bindA
          (if command = COM_PING then send_packet (ok_to_packet ok_packet_new)
           else if command = COM_QUERY then
             (case from_utf8 (drop 1 payload) of
                None \<Rightarrow> liftA (Inl (proto_err ''COM_QUERY: payload is not valid UTF-8''))
              | Some sql \<Rightarrow> handle_query ev sql)
           else if command = COM_STMT_PREPARE then handle_stmt_prepare ev payload
           else if command = COM_STMT_EXECUTE then handle_stmt_execute ev payload
           else if command = COM_STMT_CLOSE then handle_stmt_close payload
           else if command = COM_STMT_RESET then handle_stmt_reset payload
           else send_packet (err_to_packet (err_packet_new 1047 ''08S01'' (''Unknown command '' @ show_hex_u8 command))))
          (\<lambda>_. retA True))"

definition handle_command :: "env \<Rightarrow> packet \<Rightarrow> bool act" where
  "handle_command ev packet =
     (if pk_sequence_id packet \<noteq> 0
      then liftA (Inl (proto_err (''expected a fresh command sequence starting at 0, got '' @ show_nat (unat (pk_sequence_id packet)))))
      else
        bindA (modC (\<lambda>c. c\<lparr>cn_sequence_id := 1\<rparr>)) (\<lambda>_.
        case pk_payload packet of
          [] \<Rightarrow> liftA (Inl (proto_err ''empty command packet''))
        | command # rest \<Rightarrow> dispatch_command ev command (pk_payload packet)))"

text \<open>One round of the loop: an idle connection is closed without an error.\<close>

definition command_round :: "env \<Rightarrow> bool act" where
  "command_round ev =
     bindA timed_read (\<lambda>r. case r of
       Some r \<Rightarrow> bindA (liftA r) (handle_command ev)
     | None \<Rightarrow>
         bindA (getC (\<lambda>c. (cn_connection_id c, cn_wait_timeout c))) (\<lambda>(sid, t).
         bindA (write_log_line ev Info ''idle_connection_reaped''
           [(''connection_id'', show_nat (unat sid)), (''wait_timeout_secs'', show_nat (unat t))]) (\<lambda>_.
         retA False)))"

text \<open>The statements in the text of a command.\<close>

definition command_statements :: "env \<Rightarrow> u8 list \<Rightarrow> statement list" where
  "command_statements ev payload =
     (case payload of
        [] \<Rightarrow> []
      | command # rest \<Rightarrow>
          (case from_utf8 rest of
             None \<Rightarrow> []
           | Some sql \<Rightarrow>
               if command = COM_QUERY then (case parse_many (ev_unicode ev) sql of Inl e \<Rightarrow> [] | Inr sts \<Rightarrow> sts)
               else if command = COM_STMT_PREPARE
               then (case parse_prepared (ev_unicode ev) sql of Inl e \<Rightarrow> [] | Inr (st, n) \<Rightarrow> [st])
               else []))"

section \<open>What an action leaves alone\<close>

definition keeps :: "(session \<Rightarrow> session \<Rightarrow> bool) \<Rightarrow> 'a act \<Rightarrow> bool" where
  "keeps R m \<longleftrightarrow> (\<forall>s. R s (snd (m s)))"

text \<open>Relations between the states before and after that hold of a composed action when they hold of its parts.\<close>

locale act_frame =
  fixes R :: "session \<Rightarrow> session \<Rightarrow> bool"
  assumes R_refl: "R s s"
    and R_trans: "R s t \<Longrightarrow> R t u \<Longrightarrow> R s u"
begin

lemma keeps_ret: "keeps R (retA a)"
  by (simp add: keeps_def retA_def R_refl)

lemma keeps_lift: "keeps R (liftA r)"
  by (simp add: keeps_def liftA_def R_refl)

lemma keeps_get: "keeps R (getC f)"
  by (simp add: keeps_def getC_def R_refl)

lemma keeps_bind:
  assumes "keeps R m" "\<And>a. keeps R (f a)"
  shows "keeps R (bindA m f)"
  unfolding keeps_def bindA_def
proof
  fix s
  obtain r t where m: "m s = (r, t)" by (cases "m s")
  have t: "R s t" using assms(1) m unfolding keeps_def by (metis snd_conv)
  show "R s (snd (case m s of (Inl e, s') \<Rightarrow> (Inl e, s') | (Inr a, s') \<Rightarrow> f a s'))"
  proof (cases r)
    case (Inl e)
    then show ?thesis using m t by simp
  next
    case (Inr a)
    have "R t (snd (f a t))" using assms(2) [of a] unfolding keeps_def by blast
    then show ?thesis using m t Inr R_trans [OF t] by simp
  qed
qed

lemma keeps_catch:
  assumes "keeps R m"
  shows "keeps R (catchA m)"
  unfolding keeps_def catchA_def
proof
  fix s
  obtain r t where m: "m s = (r, t)" by (cases "m s")
  have "R s t" using assms m unfolding keeps_def by (metis snd_conv)
  then show "R s (snd (case m s of (Inl (Err e), s') \<Rightarrow> (Ok (Inl e), s') | (Inl (Panic p), s') \<Rightarrow> (Inl (Panic p), s')
      | (Inr a, s') \<Rightarrow> (Ok (Inr a), s')))"
    using m by (auto split: sum.split exn.split)
qed

lemma keeps_if: "keeps R m \<Longrightarrow> keeps R n \<Longrightarrow> keeps R (if b then m else n)"
  by simp

lemma keeps_option: "keeps R m \<Longrightarrow> (\<And>a. keeps R (f a)) \<Longrightarrow> keeps R (case x of None \<Rightarrow> m | Some a \<Rightarrow> f a)"
  by (cases x) simp_all

lemma keeps_sum: "(\<And>e. keeps R (f e)) \<Longrightarrow> (\<And>a. keeps R (g a)) \<Longrightarrow> keeps R (case x of Inl e \<Rightarrow> f e | Inr a \<Rightarrow> g a)"
  by (cases x) simp_all

lemma keeps_prod: "(\<And>a b. keeps R (f a b)) \<Longrightarrow> keeps R (case x of (a, b) \<Rightarrow> f a b)"
  by (cases x) simp

lemma keeps_list: "keeps R m \<Longrightarrow> (\<And>a as. keeps R (f a as)) \<Longrightarrow> keeps R (case x of [] \<Rightarrow> m | a # as \<Rightarrow> f a as)"
  by (cases x) simp_all

lemmas keeps_parts = keeps_ret keeps_lift keeps_get keeps_bind keeps_catch keeps_if keeps_option keeps_sum keeps_prod keeps_list

text \<open>An action that sends a packet keeps what changing the output keeps.\<close>

lemma keeps_send:
  assumes "\<And>sv c w out buf. R (sv, c) (sv, c\<lparr>cn_writes := w, cn_sent := out, cn_out_buf := buf\<rparr>)"
  shows "keeps R flush_out_buf" "keeps R (write_packet p)" "keeps R (send_packet enc)"
proof -
  show f: "keeps R flush_out_buf"
    unfolding keeps_def
  proof
    fix s :: session
    have "snd (flush_out_buf s) = (fst s, (snd s)\<lparr>cn_writes := cn_writes (snd (snd (flush_out_buf s))),
        cn_sent := cn_sent (snd (snd (flush_out_buf s))), cn_out_buf := cn_out_buf (snd s)\<rparr>)"
      by (auto simp: flush_out_buf_def Let_def split: list.split write_event.split)
    then show "R s (snd (flush_out_buf s))" using assms [of "fst s" "snd s"] by (metis prod.collapse)
  qed
  have "keeps R (modC (\<lambda>c. c\<lparr>cn_out_buf := x\<rparr>))" for x
    unfolding keeps_def
  proof
    fix s :: session
    have "(snd s)\<lparr>cn_out_buf := x\<rparr> = (snd s)\<lparr>cn_writes := cn_writes (snd s), cn_sent := cn_sent (snd s), cn_out_buf := x\<rparr>"
      by simp
    then show "R s (snd (modC (\<lambda>c. c\<lparr>cn_out_buf := x\<rparr>) s))"
      using assms [of "fst s" "snd s"] by (metis modC_def prod.collapse snd_conv)
  qed
  then show w: "keeps R (write_packet p)" for p using f by (auto simp: write_packet_def intro: keeps_bind)
  show "keeps R (send_packet enc)" using w by (auto simp: send_packet_def intro: keeps_parts)
qed

end

text \<open>
  What handling a command has to keep: the output, the sequence id, the counters and the prepared
  statements may change, and statements in \<open>allowed\<close> may run.
\<close>

locale handler_frame = act_frame +
  fixes allowed :: "statement \<Rightarrow> bool" and ev :: env
  assumes out: "R (sv, c) (sv, c\<lparr>cn_writes := w, cn_sent := o1, cn_out_buf := o2\<rparr>)"
    and sequence: "R (sv, c) (sv, c\<lparr>cn_sequence_id := sq\<rparr>)"
    and lines: "R (sv, c) (sv\<lparr>sr_lines := ls\<rparr>, c)"
    and counted: "f = query_executed \<or> f = metrics_error \<Longrightarrow> R (sv, c) (with_metrics f sv, c)"
    and prepare: "allowed st \<Longrightarrow> R (sv, c) (sv, c\<lparr>cn_next_statement_id := n,
      cn_prepared := (cn_prepared c)(i \<mapsto> \<lparr>pp_statement = st, pp_param_count = m\<rparr>)\<rparr>)"
    and forget: "R (sv, c) (sv, c\<lparr>cn_prepared := (cn_prepared c)(i := None)\<rparr>)"
    and statement: "allowed st \<Longrightarrow> keeps R (execute_statement ev st)"
    and prepared: "cn_prepared c i = Some p \<Longrightarrow> R (sv, c) (snd (execute_prepared ev payload p (sv, c)))"
begin

lemma keeps_basic:
  "keeps R flush_out_buf" "keeps R (write_packet p)" "keeps R (send_packet enc)" "keeps R bump_sequence"
  "keeps R (count_metric query_executed)" "keeps R (count_metric metrics_error)" "keeps R (write_log_line ev level event fs)"
  "keeps R (modC (\<lambda>c. c\<lparr>cn_sequence_id := sq\<rparr>))" "keeps R (modC (\<lambda>c. c\<lparr>cn_out_buf := buf\<rparr>))"
proof -
  have "R (sv, c) (sv, c\<lparr>cn_out_buf := buf\<rparr>)" for sv and c :: connection
    using out [of sv c buf "cn_sent c" "cn_writes c"] by simp
  then show "keeps R (modC (\<lambda>c. c\<lparr>cn_out_buf := buf\<rparr>))" by (auto simp: keeps_def modC_def)
  show "keeps R flush_out_buf" "keeps R (write_packet p)" "keeps R (send_packet enc)" by (rule keeps_send; rule out)+
qed (auto simp: bump_sequence_def count_metric_def write_log_line_def modC_def modS_def keeps_def log_line_def sequence lines counted)

lemma keeps_send_result: "keeps R (send_result ev outcome binary mr sql)"
  unfolding send_result_def send_rows_def log_query_error_def
  by (intro keeps_parts keeps_basic)

lemma keeps_run_statements: "list_all allowed sts \<Longrightarrow> keeps R (run_statements ev sql sts)"
proof (induction sts)
  case Nil
  then show ?case by (simp add: keeps_ret)
next
  case (Cons st sts)
  then show ?case using statement by (auto intro!: keeps_parts keeps_send_result)
qed

lemma keeps_after_lift: "(\<And>a. r = Ok a \<Longrightarrow> keeps R (f a)) \<Longrightarrow> keeps R (bindA (liftA r) f)"
  by (cases r) (auto simp: keeps_def bindA_def liftA_def R_refl)

lemma keeps_after_catch:
  "(\<And>e. r = Fail e \<Longrightarrow> keeps R (f (Inl e))) \<Longrightarrow> (\<And>a. r = Ok a \<Longrightarrow> keeps R (f (Inr a))) \<Longrightarrow>
     keeps R (bindA (catchA (liftA r)) f)"
  by (cases r; cases "projl r") (auto simp: keeps_def bindA_def catchA_def liftA_def R_refl)

lemma keeps_handle_query:
  assumes "\<And>sts. parse_many (ev_unicode ev) sql = Ok sts \<Longrightarrow> list_all allowed sts"
  shows "keeps R (handle_query ev sql)"
  unfolding handle_query_def
  by (rule keeps_after_catch) (auto intro!: keeps_parts keeps_send_result keeps_run_statements assms)

lemma keeps_send_stmt_error: "keeps R (send_stmt_error e)"
  unfolding send_stmt_error_def by (intro keeps_parts keeps_basic)

lemma keeps_send_params: "keeps R (send_param_definitions n)"
  by (induction n) (auto intro!: keeps_parts keeps_basic)

lemma keeps_add_prepared: "allowed st \<Longrightarrow> keeps R (add_prepared st n)"
  using prepare by (auto simp: add_prepared_def keeps_def bindA_def getC_def modC_def retA_def)

lemma keeps_handle_stmt_prepare:
  assumes "\<And>sql st n. from_utf8 (drop 1 payload) = Some sql \<Longrightarrow> parse_prepared (ev_unicode ev) sql = Ok (st, n) \<Longrightarrow> allowed st"
  shows "keeps R (handle_stmt_prepare ev payload)"
proof (cases "from_utf8 (drop 1 payload)")
  case None
  then show ?thesis by (simp add: handle_stmt_prepare_def keeps_send_stmt_error)
next
  case (Some sql)
  show ?thesis
    unfolding handle_stmt_prepare_def Some option.case
  proof (rule keeps_after_catch, goal_cases)
    case (1 e)
    then show ?case by (simp add: keeps_send_stmt_error)
  next
    case (2 a)
    then have "allowed (fst a)" using assms [OF Some, of "fst a" "snd a"] by simp
    then show ?case
      by (auto intro!: keeps_parts keeps_basic keeps_send_params keeps_add_prepared split: prod.split)
  qed
qed

lemma keeps_handle_stmt_execute: "keeps R (handle_stmt_execute ev payload)"
  unfolding keeps_def
proof
  fix s :: session
  obtain sv c where s: "s = (sv, c)" by (cases s)
  show "R s (snd (handle_stmt_execute ev payload s))"
  proof (cases "statement_id_of payload")
    case None
    then show ?thesis using s keeps_send_stmt_error by (simp add: handle_stmt_execute_def keeps_def)
  next
    case id: (Some i)
    show ?thesis
    proof (cases "cn_prepared c i")
      case None
      then show ?thesis
        using id s keeps_send_stmt_error by (simp add: handle_stmt_execute_def keeps_def bindA_def getC_def)
    next
      case (Some p)
      have "\<exists>r. catchA (execute_prepared ev payload p) s = (r, snd (execute_prepared ev payload p s))"
        by (auto simp: catchA_def split: prod.split sum.split exn.split)
      then obtain r where r: "catchA (execute_prepared ev payload p) s = (r, snd (execute_prepared ev payload p s))" ..
      have R: "R s (snd (execute_prepared ev payload p s))" using prepared [OF Some] s by simp
      have "handle_stmt_execute ev payload s =
          (case r of Inl e \<Rightarrow> (Inl e, snd (execute_prepared ev payload p s))
           | Inr x \<Rightarrow> send_result ev x True False None (snd (execute_prepared ev payload p s)))"
        using id Some s r by (simp add: handle_stmt_execute_def bindA_def getC_def split: sum.split)
      moreover have "R s (snd (send_result ev x True False None (snd (execute_prepared ev payload p s))))" for x
        using R_trans [OF R] keeps_send_result [of x True False None] unfolding keeps_def by blast
      ultimately show ?thesis using R by (simp split: sum.split)
    qed
  qed
qed

lemma keeps_handle_stmt_close_reset: "keeps R (handle_stmt_close payload)" "keeps R (handle_stmt_reset payload)"
proof -
  show "keeps R (handle_stmt_close payload)"
    using forget by (auto simp: handle_stmt_close_def keeps_def modC_def retA_def R_refl split: option.split)
  show "keeps R (handle_stmt_reset payload)"
    unfolding handle_stmt_reset_def by (intro keeps_parts keeps_basic)
qed

lemma keeps_dispatch_command:
  assumes "list_all allowed (command_statements ev (command # rest))"
  shows "keeps R (dispatch_command ev command (command # rest))"
proof -
  have "keeps R (handle_query ev sql)" if "command = COM_QUERY" "from_utf8 rest = Some sql" for sql
    using assms that by (intro keeps_handle_query) (auto simp: command_statements_def command_defs)
  moreover have "keeps R (handle_stmt_prepare ev (command # rest))" if "command = COM_STMT_PREPARE"
    using assms that by (intro keeps_handle_stmt_prepare) (auto simp: command_statements_def command_defs)
  ultimately show ?thesis
    unfolding dispatch_command_def
    by (auto intro!: keeps_parts keeps_basic keeps_handle_stmt_execute keeps_handle_stmt_close_reset split: option.split)
qed

lemma keeps_handle_command:
  assumes "list_all allowed (command_statements ev (pk_payload packet))"
  shows "keeps R (handle_command ev packet)"
  using assms keeps_dispatch_command
  unfolding handle_command_def by (auto intro!: keeps_parts keeps_basic split: list.split)

end

text \<open>Handling a command does not touch the input.\<close>

definition same_input :: "session \<Rightarrow> session \<Rightarrow> bool" where
  "same_input s t \<longleftrightarrow>
     cn_reads (snd t) = cn_reads (snd s) \<and> cn_read_buf (snd t) = cn_read_buf (snd s)
     \<and> cn_max_allowed_packet (snd t) = cn_max_allowed_packet (snd s)"

lemma input_statements:
  "keeps same_input (commit_open ev)" "keeps same_input rollback_transaction"
  "keeps same_input (lock_for st)" "keeps same_input (run_statement ev st)"
  by (auto simp: keeps_def same_input_def commit_open_def rollback_transaction_def lock_for_def run_statement_def Let_def
      split: option.splits sum.splits prod.splits)

interpretation input: act_frame same_input
  by unfold_locales (auto simp: same_input_def)

lemma input_execute: "keeps same_input (execute_statement ev st)"
proof -
  have "keeps same_input (begin_transaction ev)"
    unfolding begin_transaction_def
    by (rule input.keeps_bind [OF input_statements(1)]) (simp add: keeps_def same_input_def Let_def)
  then show ?thesis
    unfolding execute_statement_def commit_transaction_def
    by (auto intro!: input.keeps_parts input_statements split: statement.split)
qed

interpretation input_handlers: handler_frame same_input "\<lambda>_. True" ev for ev
proof (unfold_locales, goal_cases)
  case (8 c i p sv payload)
  have "keeps same_input (execute_prepared ev payload p)"
    unfolding execute_prepared_def by (intro input.keeps_parts input_execute)
  then show ?case unfolding keeps_def by blast
qed (auto simp: same_input_def input_execute)

section \<open>The loop\<close>

text \<open>A packet takes at least its header from the input.\<close>

lemma parse_packet_consumed: "parse_packet buf = Ok (Some (p, n)) \<Longrightarrow> 4 \<le> n \<and> n \<le> length buf"
  by (auto simp: parse_packet_def result_simps HEADER_LEN_def Let_def split: if_splits)

lemma event_size_prefixed: "sum_list (map event_size (prefixed_stream bs es)) \<le> Suc (length bs) + sum_list (map event_size es)"
  by (simp add: prefixed_stream_def)

lemma read_packet_input:
  "read_packet c = (Some (Ok p), c') \<Longrightarrow> input_left c' < input_left c"
proof (induction c rule: read_packet.induct)
  case (1 c)
  show ?case
  proof (cases "parse_packet (cn_read_buf c)")
    case (Inl e)
    then show ?thesis using "1.prems" by (simp add: read_packet.simps [of c] split: option.splits)
  next
    case (Inr m)
    show ?thesis
    proof (cases m)
      case (Some pn)
      then show ?thesis
        using "1.prems" Inr parse_packet_consumed [of "cn_read_buf c" "fst pn" "snd pn"]
        by (auto simp: read_packet.simps [of c] input_left_def split: option.splits prod.splits)
    next
      case None
      then obtain bs es where r: "oversized c = None" "cn_reads c = ReadData bs # es" "bs \<noteq> []"
        using "1.prems" Inr by (auto simp: read_packet.simps [of c] split: option.splits list.splits read_event.splits if_splits)
      let ?d = "c\<lparr>cn_read_buf := cn_read_buf c @ take READ_CHUNK bs, cn_reads := prefixed_stream (drop READ_CHUNK bs) es\<rparr>"
      have "read_packet ?d = (Some (Ok p), c')" using "1.prems" Inr None r by (simp add: read_packet.simps [of c])
      then have "input_left c' < input_left ?d" using "1.IH" [OF r(1) Inr None r(2) refl r(3)] by simp
      also have "input_left ?d \<le> input_left c"
        using event_size_prefixed [of "drop READ_CHUNK bs" es] r by (auto simp: input_left_def prefixed_stream_def min_def)
      finally show ?thesis .
    qed
  qed
qed

lemma command_round_input:
  assumes "command_round ev s = (Ok True, t)"
  shows "input_left (snd t) < input_left (snd s)"
proof -
  obtain p c where c: "read_packet (snd s) = (Some (Ok p), c)" "handle_command ev p (fst s, c) = (Ok True, t)"
    using assms by (auto simp: command_round_def bindA_def timed_read_def liftA_def getC_def write_log_line_def modS_def retA_def
        split: prod.splits sum.splits option.splits)
  have "same_input (fst s, c) t"
    using input_handlers.keeps_handle_command [of ev p] c(2) by (simp add: keeps_def list_all_def) (metis snd_conv)
  then show ?thesis using read_packet_input [OF c(1)] by (simp add: same_input_def input_left_def)
qed

function run_command_loop :: "env \<Rightarrow> unit act" where
  "run_command_loop ev s =
     (case command_round ev s of
        (Inl e, t) \<Rightarrow> (Inl e, t)
      | (Inr go_on, t) \<Rightarrow> if go_on then run_command_loop ev t else (Ok (), t))"
  by auto
termination
  by (relation "measure (\<lambda>(ev, s). input_left (snd s))") (use command_round_input in auto)

declare run_command_loop.simps [simp del]

text \<open>
  The whole life of a connection, from the random bytes of its two challenges.  When it ends the
  connection is dropped, and with it an open transaction and its locks.
\<close>

definition handle_phases :: "env \<Rightarrow> u8 list \<Rightarrow> u8 list \<Rightarrow> unit act" where
  "handle_phases ev raw1 raw2 =
     bindA (perform_handshake raw1) (\<lambda>response.
     bindA (conn_authenticate raw2 response) (\<lambda>outcome.
     if outcome = AuthOk then
       bindA (modC (\<lambda>c. c\<lparr>cn_client_capabilities := hr_capability_flags response\<rparr>)) (\<lambda>_.
       run_command_loop ev)
     else retA ()))"

definition drop_connection :: "session \<Rightarrow> session" where
  "drop_connection s =
     (let w = sr_world (fst s)
      in ((fst s)\<lparr>sr_world := finish_tx w (w_store w) (conn_no (snd s))\<rparr>, snd s))"

definition handle_connection :: "env \<Rightarrow> u8 list \<Rightarrow> u8 list \<Rightarrow> unit act" where
  "handle_connection ev raw1 raw2 s = (let (r, t) = handle_phases ev raw1 raw2 s in (r, drop_connection t))"

end
