(* ===== verification/Connection_Io.thy ===== *)
theory Connection_Io
  imports Connection Exec_Types Parser_Holes
begin

text \<open>
  The command loop and its input: a packet is read the same however the network cut its bytes,
  commands are served one by one in the order they were sent, the loop ends on every input, and the
  read buffer stays bounded.
\<close>

section \<open>Reading a packet from a stream of bytes\<close>

text \<open>A stream that delivers its bytes without failures, and what it still has to deliver.\<close>

fun event_bytes :: "read_event \<Rightarrow> u8 list" where
  "event_bytes (ReadData bs) = bs"
| "event_bytes (ReadFails e) = []"
| "event_bytes ReadElapsed = []"

definition delivers :: "connection \<Rightarrow> u8 list \<Rightarrow> bool" where
  "delivers c bs \<longleftrightarrow>
     list_all (\<lambda>e. \<exists>xs. e = ReadData xs \<and> xs \<noteq> []) (cn_reads c)
     \<and> bs = cn_read_buf c @ concat (map event_bytes (cn_reads c))"

definition with_input :: "read_event list \<Rightarrow> u8 list \<Rightarrow> connection \<Rightarrow> connection" where
  "with_input es bs c = c\<lparr>cn_reads := es, cn_read_buf := bs\<rparr>"

lemma with_input_simps [simp]:
  "with_input es bs (with_input es' bs' c) = with_input es bs c"
  "cn_reads (with_input es bs c) = es" "cn_read_buf (with_input es bs c) = bs"
  "cn_max_allowed_packet (with_input es bs c) = cn_max_allowed_packet c"
  "with_input (cn_reads c) (cn_read_buf c) c = c"
  by (simp_all add: with_input_def)

lemma declared_payload_len_eq:
  "declared_payload_len buf = (if 4 \<le> length buf then Some (header_len buf) else None)"
proof (cases "4 \<le> length buf")
  case True
  then obtain a b c d rest where "buf = a # b # c # d # rest"
    by (cases buf; cases "tl buf"; cases "tl (tl buf)"; cases "tl (tl (tl buf))") auto
  then show ?thesis by (simp add: declared_payload_len_def header_len_def numeral_3_eq_3 unat_u32_from_le)
qed (simp add: declared_payload_len_def)

text \<open>What a packet's prefix declares is its length.\<close>

lemma declared_prefix:
  assumes "fits_frame p" "4 \<le> length buf" "buf @ more1 = encode_packet p @ rest"
  shows "declared_payload_len buf = Some (length (pk_payload p))"
proof -
  have "take 3 buf = take 3 (buf @ more1)" using assms(2) by simp
  then have "header_len buf = header_len (encode_packet p @ rest)" using assms(3) by (simp add: header_len_def)
  then show ?thesis using assms(1,2) by (simp add: declared_payload_len_eq header_len_encode)
qed

lemma read_packet_delivered:
  assumes "delivers c (encode_packet p @ rest)" "fits_frame p" "length (pk_payload p) \<le> cn_max_allowed_packet c"
  shows "\<exists>es bs. read_packet c = (Some (Ok p), with_input es bs c) \<and> delivers (with_input es bs c) rest"
  using assms
proof (induction c rule: read_packet.induct)
  case (1 c)
  let ?buf = "cn_read_buf c" and ?tl = "concat (map event_bytes (cn_reads c))"
  have b: "?buf @ ?tl = encode_packet p @ rest" using "1.prems"(1) by (simp add: delivers_def)
  have o: "oversized c = None"
    using declared_prefix [OF "1.prems"(2) _ b] "1.prems"(3) by (cases "4 \<le> length ?buf") (auto simp: oversized_def declared_payload_len_def)
  show ?case
  proof (cases "length (encode_packet p) \<le> length ?buf")
    case True
    define r where "r = drop (length (encode_packet p)) ?buf"
    have "take (length (encode_packet p)) ?buf = encode_packet p"
      using arg_cong [OF b, of "take (length (encode_packet p))"] True by simp
    then have r1: "?buf = encode_packet p @ r" unfolding r_def by (metis append_take_drop_id)
    have r: "?buf = encode_packet p @ r" "rest = r @ ?tl" using r1 b by (simp_all add: r1)
    then have "read_packet c = (Some (Ok p), with_input (cn_reads c) r c)"
      using o parse_encode_packet [OF "1.prems"(2), of r] by (simp add: read_packet.simps [of c] with_input_def)
    moreover have "delivers (with_input (cn_reads c) r c) rest" using "1.prems"(1) r by (simp add: delivers_def)
    ultimately show ?thesis by blast
  next
    case False
    then have "?buf = take (length ?buf) (encode_packet p)"
      using b by (metis append_eq_conv_conj nat_le_linear take_append take_all append_Nil2 diff_is_0_eq' take0)
    then have p: "parse_packet ?buf = Ok None" using parse_partial_packet [OF "1.prems"(2), of "length ?buf"] False by simp
    have "?tl \<noteq> []" using b False by (metis append_Nil2 le_add1 length_append)
    then obtain bs es where e: "cn_reads c = ReadData bs # es" "bs \<noteq> []"
      using "1.prems"(1) by (cases "cn_reads c") (auto simp: delivers_def)
    let ?d = "c\<lparr>cn_read_buf := ?buf @ take READ_CHUNK bs, cn_reads := prefixed_stream (drop READ_CHUNK bs) es\<rparr>"
    have "delivers ?d (encode_packet p @ rest)"
      using "1.prems"(1) e b by (auto simp: delivers_def prefixed_stream_def)
    then obtain es' bs' where "read_packet ?d = (Some (Ok p), with_input es' bs' ?d)" "delivers (with_input es' bs' ?d) rest"
      using "1.IH" [OF o p refl e(1) refl e(2)] "1.prems"(2,3) by auto
    moreover have "read_packet c = read_packet ?d" using o p e by (simp add: read_packet.simps [of c])
    moreover have "with_input es' bs' ?d = with_input es' bs' c" for es' bs' by (simp add: with_input_def)
    ultimately show ?thesis by auto
  qed
qed

section \<open>Handling a command does not depend on the input\<close>

definition blind :: "(connection \<Rightarrow> connection) \<Rightarrow> 'a act \<Rightarrow> bool" where
  "blind U m \<longleftrightarrow> (\<forall>sv c. m (sv, U c) = (let (r, t) = m (sv, c) in (r, (fst t, U (snd t)))))"

named_theorems blind_intros "actions that ignore a part of the connection"

lemma blind_parts [blind_intros]:
  "blind U (retA a)" "blind U (liftA r)" "blind U (modS h)"
  "(\<And>c. f (U c) = f c) \<Longrightarrow> blind U (getC f)" "(\<And>c. g (U c) = U (g c)) \<Longrightarrow> blind U (modC g)"
  by (simp_all add: blind_def retA_def liftA_def modS_def getC_def modC_def)

lemma blind_bind [blind_intros]:
  assumes "blind U m" "\<And>a. blind U (f a)"
  shows "blind U (bindA m f)"
  unfolding blind_def
proof (intro allI)
  fix sv c
  obtain r sv1 c1 where m: "m (sv, c) = (r, (sv1, c1))" by (metis prod.exhaust)
  then have "m (sv, U c) = (r, (sv1, U c1))" using assms(1) by (simp add: blind_def)
  then show "bindA m f (sv, U c) = (let (r, t) = bindA m f (sv, c) in (r, (fst t, U (snd t))))"
    using m assms(2) by (cases r) (simp_all add: bindA_def blind_def)
qed

lemma blind_catch [blind_intros]: "blind U m \<Longrightarrow> blind U (catchA m)"
  by (auto simp: blind_def catchA_def split: prod.split sum.split exn.split)

lemma blind_cases [blind_intros]:
  "blind U m \<Longrightarrow> blind U n \<Longrightarrow> blind U (if b then m else n)"
  "blind U m \<Longrightarrow> (\<And>a. blind U (f a)) \<Longrightarrow> blind U (case x of None \<Rightarrow> m | Some a \<Rightarrow> f a)"
  "(\<And>e. blind U (g e)) \<Longrightarrow> (\<And>a. blind U (f a)) \<Longrightarrow> blind U (case y of Inl e \<Rightarrow> g e | Inr a \<Rightarrow> f a)"
  "(\<And>a b. blind U (h a b)) \<Longrightarrow> blind U (case z of (a, b) \<Rightarrow> h a b)"
  "blind U m \<Longrightarrow> (\<And>a as. blind U (k a as)) \<Longrightarrow> blind U (case l of [] \<Rightarrow> m | a # as \<Rightarrow> k a as)"
  by (auto split: option.split sum.split prod.split list.split)

text \<open>The actions of the command phase, for a changed input.\<close>

lemma blind_basic [blind_intros]:
  "blind (with_input es bs) flush_out_buf" "blind (with_input es bs) bump_sequence"
  "blind (with_input es bs) (count_metric f)" "blind (with_input es bs) (write_log_line ev level event fs)"
  by (auto simp: blind_def flush_out_buf_def bump_sequence_def modC_def count_metric_def write_log_line_def modS_def
      with_input_def split: list.split write_event.split)

lemma blind_send [blind_intros]: "blind (with_input es bs) (send_packet enc)"
  unfolding send_packet_def write_packet_def
  by (intro blind_intros) (simp_all add: with_input_def)

lemma blind_statement [blind_intros]: "blind (with_input es bs) (execute_statement ev st)"
proof -
  have "blind (with_input es bs) (commit_open ev)" "blind (with_input es bs) rollback_transaction"
    "blind (with_input es bs) (lock_for st)" "blind (with_input es bs) (run_statement ev st)"
    "blind (with_input es bs) (\<lambda>s. let k = conn_no (snd s); w = sr_world (fst s)
       in (Ok default_result, ((fst s)\<lparr>sr_world := w\<lparr>w_tx := (w_tx w)(k \<mapsto> tx_new)\<rparr>\<rparr>, snd s)))" for st
    by (auto simp: blind_def commit_open_def rollback_transaction_def lock_for_def run_statement_def with_input_def Let_def
        split: option.split sum.split prod.split)
  then show ?thesis
    unfolding execute_statement_def begin_transaction_def commit_transaction_def
    by (auto intro!: blind_intros split: statement.split)
qed

lemma blind_result [blind_intros]:
  "blind (with_input es bs) (send_result ev outcome binary mr sql)" "blind (with_input es bs) (send_stmt_error e)"
  unfolding send_result_def send_rows_def log_query_error_def send_stmt_error_def
  by (auto intro!: blind_intros simp: with_input_def)

lemma blind_loops [blind_intros]:
  "blind (with_input es bs) (run_statements ev sql sts)" "blind (with_input es bs) (send_param_definitions n)"
  by (induction sts) (auto intro!: blind_intros, induction n, auto intro!: blind_intros)

lemma blind_handlers [blind_intros]:
  "blind (with_input es bs) (handle_query ev sql)" "blind (with_input es bs) (handle_stmt_prepare ev payload)"
  "blind (with_input es bs) (handle_stmt_execute ev payload)" "blind (with_input es bs) (handle_stmt_close payload)"
  "blind (with_input es bs) (handle_stmt_reset payload)"
  unfolding handle_query_def handle_stmt_prepare_def handle_stmt_execute_def handle_stmt_close_def handle_stmt_reset_def
    add_prepared_def execute_prepared_def
  by (auto intro!: blind_intros simp: with_input_def split: option.splits)

lemma blind_handle_command: "blind (with_input es bs) (handle_command ev packet)"
  unfolding handle_command_def dispatch_command_def
  by (auto intro!: blind_intros simp: with_input_def)

section \<open>Commands are served in order\<close>

text \<open>The commands of a client, handled one after the other until one ends the connection.\<close>

fun serve :: "env \<Rightarrow> packet list \<Rightarrow> unit act" where
  "serve ev [] s = (Inl err_closed, s)"
| "serve ev (p # ps) s =
     (case handle_command ev p s of
        (Inl e, t) \<Rightarrow> (Inl e, t)
      | (Inr go_on, t) \<Rightarrow> if go_on then serve ev ps t else (Ok (), t))"

definition change_input :: "read_event list \<Rightarrow> u8 list \<Rightarrow> 'a result \<times> session \<Rightarrow> 'a result \<times> session" where
  "change_input es bs x = (fst x, (fst (snd x), with_input es bs (snd (snd x))))"

lemma handle_command_input:
  "handle_command ev p (sv, with_input es bs c) = change_input es bs (handle_command ev p (sv, c))"
  using blind_handle_command [of es bs ev p] by (simp add: blind_def change_input_def Let_def split_beta)

lemma serve_input: "serve ev ps (sv, with_input es bs c) = change_input es bs (serve ev ps (sv, c))"
proof (induction ps arbitrary: sv c)
  case Nil
  then show ?case by (simp add: change_input_def)
next
  case (Cons p ps)
  obtain r sv1 c1 where h: "handle_command ev p (sv, c) = (r, (sv1, c1))" by (metis prod.exhaust)
  then show ?case
    using handle_command_input [of ev p sv es bs c] Cons.IH [of sv1 c1]
    by (cases r) (simp_all add: change_input_def)
qed

lemma handle_command_keeps_input:
  assumes "handle_command ev p (sv, c) = (r, (sv1, c1))"
  shows "c1 = with_input (cn_reads c) (cn_read_buf c) c1" "cn_max_allowed_packet c1 = cn_max_allowed_packet c"
proof -
  have "same_input (sv, c) (sv1, c1)"
    using input_handlers.keeps_handle_command [of ev p] assms by (simp add: keeps_def list.pred_True) (metis snd_conv)
  then show "c1 = with_input (cn_reads c) (cn_read_buf c) c1" "cn_max_allowed_packet c1 = cn_max_allowed_packet c"
    by (simp_all add: same_input_def with_input_def)
qed

lemma run_loop_serves:
  assumes "delivers c (concat (map encode_packet ps))"
    and "\<forall>p \<in> set ps. fits_frame p \<and> length (pk_payload p) \<le> cn_max_allowed_packet c"
  shows "\<exists>es bs. run_command_loop ev (sv, c) = change_input es bs (serve ev ps (sv, c))"
  using assms
proof (induction ps arbitrary: sv c)
  case Nil
  then have "cn_reads c = []" "cn_read_buf c = []" by (cases "cn_reads c"; auto simp: delivers_def)+
  then have "read_packet c = (Some (Inl err_closed), c)"
    by (simp add: read_packet.simps [of c] oversized_def declared_payload_len_def parse_packet_def HEADER_LEN_def)
  then have "run_command_loop ev (sv, c) = change_input (cn_reads c) (cn_read_buf c) (serve ev [] (sv, c))"
    by (simp add: run_command_loop.simps [of ev "(sv, c)"] command_round_def bindA_def timed_read_def liftA_def change_input_def)
  then show ?case by blast
next
  case (Cons p ps)
  obtain es bs where c1: "read_packet c = (Some (Ok p), with_input es bs c)"
      "delivers (with_input es bs c) (concat (map encode_packet ps))"
    using read_packet_delivered [of c p "concat (map encode_packet ps)"] Cons.prems by auto
  obtain r sv1 c1 where h: "handle_command ev p (sv, c) = (r, (sv1, c1))" by (metis prod.exhaust)
  have h1: "handle_command ev p (sv, with_input es bs c) = (r, (sv1, with_input es bs c1))"
    using h handle_command_input [of ev p sv es bs c] by (simp add: change_input_def)
  have loop: "run_command_loop ev (sv, c) =
      (case r of Inl e \<Rightarrow> (Inl e, (sv1, with_input es bs c1))
       | Inr go_on \<Rightarrow> if go_on then run_command_loop ev (sv1, with_input es bs c1) else (Ok (), (sv1, with_input es bs c1)))"
    using c1 h1 by (simp add: run_command_loop.simps [of ev "(sv, c)"] command_round_def bindA_def timed_read_def liftA_def
        split: sum.split)
  show ?case
  proof (cases "r = Ok True")
    case True
    have "delivers (with_input es bs c1) (concat (map encode_packet ps))" using c1(2) by (simp add: delivers_def)
    moreover have "cn_max_allowed_packet c1 = cn_max_allowed_packet c" by (rule handle_command_keeps_input [OF h])
    ultimately obtain es' bs' where
      "run_command_loop ev (sv1, with_input es bs c1) = change_input es' bs' (serve ev ps (sv1, with_input es bs c1))"
      using Cons.IH [of "with_input es bs c1" sv1] Cons.prems(2) by auto
    then show ?thesis using loop h True by (auto simp: serve_input change_input_def)
  next
    case False
    then have "run_command_loop ev (sv, c) = change_input es bs (serve ev (p # ps) (sv, c))"
      using loop h by (cases r) (simp_all add: change_input_def)
    then show ?thesis by blast
  qed
qed

section \<open>The loop ends and its buffer is bounded\<close>

text \<open>What is kept of the input in memory: at most one packet that is not complete, and one chunk.\<close>

definition buffer_bound :: "connection \<Rightarrow> nat" where
  "buffer_bound c = cn_max_allowed_packet c + HEADER_LEN + READ_CHUNK"

lemma incomplete_bound:
  assumes "parse_packet (cn_read_buf c) = Ok None" "oversized c = None"
  shows "length (cn_read_buf c) < cn_max_allowed_packet c + 4 \<or> length (cn_read_buf c) < 4"
  using assms
  by (auto simp: oversized_def declared_payload_len_eq parse_packet_header split: if_splits)

lemma read_packet_bounds:
  assumes "read_packet c = (r, d)" "length (cn_read_buf c) \<le> buffer_bound c"
  shows "length (cn_read_buf d) \<le> buffer_bound d" "cn_max_allowed_packet d = cn_max_allowed_packet c"
    "(case r of Some (Inr p) \<Rightarrow> input_left d + 4 \<le> input_left c | _ \<Rightarrow> True)"
proof -
  have "length (cn_read_buf d) \<le> buffer_bound d \<and> cn_max_allowed_packet d = cn_max_allowed_packet c
      \<and> (case r of Some (Inr p) \<Rightarrow> input_left d + 4 \<le> input_left c | _ \<Rightarrow> True)"
    using assms
  proof (induction c rule: read_packet.induct)
    case (1 c)
    show ?case
    proof (cases "oversized c = None \<and> parse_packet (cn_read_buf c) = Ok None \<and> (\<exists>bs es. cn_reads c = ReadData bs # es \<and> bs \<noteq> [])")
      case True
      then obtain bs es where e: "oversized c = None" "parse_packet (cn_read_buf c) = Ok None"
        "cn_reads c = ReadData bs # es" "bs \<noteq> []" by blast
      let ?d = "c\<lparr>cn_read_buf := cn_read_buf c @ take READ_CHUNK bs, cn_reads := prefixed_stream (drop READ_CHUNK bs) es\<rparr>"
      have "read_packet ?d = (r, d)" using "1.prems"(1) e by (simp add: read_packet.simps [of c])
      moreover have "length (cn_read_buf ?d) \<le> buffer_bound ?d"
        using incomplete_bound [OF e(2,1)] by (auto simp: buffer_bound_def HEADER_LEN_def)
      moreover have "input_left ?d \<le> input_left c"
        using event_size_prefixed [of "drop READ_CHUNK bs" es] e by (auto simp: input_left_def prefixed_stream_def min_def)
      ultimately show ?thesis using "1.IH" [OF e(1,2) refl e(3) refl e(4)] by (auto split: option.splits sum.splits)
    next
      case False
      then show ?thesis
        using "1.prems" parse_packet_consumed [of "cn_read_buf c"]
        by (auto simp: read_packet.simps [of c] buffer_bound_def input_left_def
            split: option.splits sum.splits prod.splits list.splits read_event.splits if_splits)
    qed
  qed
  then show "length (cn_read_buf d) \<le> buffer_bound d" "cn_max_allowed_packet d = cn_max_allowed_packet c"
    "(case r of Some (Inr p) \<Rightarrow> input_left d + 4 \<le> input_left c | _ \<Rightarrow> True)" by auto
qed

text \<open>\<open>n\<close> rounds of the loop that go on.\<close>

inductive rounds :: "env \<Rightarrow> nat \<Rightarrow> session \<Rightarrow> session \<Rightarrow> bool" for ev where
  rounds_none: "rounds ev 0 s s"
| rounds_more: "command_round ev s = (Ok True, t) \<Longrightarrow> rounds ev n t u \<Longrightarrow> rounds ev (Suc n) s u"

lemma command_round_bounds:
  assumes "command_round ev s = (r, t)" "length (cn_read_buf (snd s)) \<le> buffer_bound (snd s)"
  shows "length (cn_read_buf (snd t)) \<le> buffer_bound (snd t)" "r = Ok True \<longrightarrow> input_left (snd t) + 4 \<le> input_left (snd s)"
proof -
  obtain m d where d: "read_packet (snd s) = (m, d)" by (cases "read_packet (snd s)")
  note b = read_packet_bounds [OF d assms(2)]
  show "length (cn_read_buf (snd t)) \<le> buffer_bound (snd t)" "r = Ok True \<longrightarrow> input_left (snd t) + 4 \<le> input_left (snd s)"
  proof (atomize (full), cases "\<exists>p. m = Some (Ok p)")
    case True
    then obtain p where p: "m = Some (Ok p)" by blast
    then have h: "handle_command ev p (fst s, d) = (r, t)"
      using assms(1) d by (simp add: command_round_def bindA_def timed_read_def liftA_def)
    then have "same_input (fst s, d) t"
      using input_handlers.keeps_handle_command [of ev p] by (simp add: keeps_def list.pred_True) (metis snd_conv)
    then show "length (cn_read_buf (snd t)) \<le> buffer_bound (snd t) \<and> (r = Ok True \<longrightarrow> input_left (snd t) + 4 \<le> input_left (snd s))"
      using b p by (simp add: same_input_def buffer_bound_def input_left_def)
  next
    case False
    then have "snd t = d \<and> r \<noteq> Ok True"
      using assms(1) d by (auto simp: command_round_def bindA_def timed_read_def liftA_def getC_def write_log_line_def
          modS_def retA_def split: option.splits sum.splits)
    then show "length (cn_read_buf (snd t)) \<le> buffer_bound (snd t) \<and> (r = Ok True \<longrightarrow> input_left (snd t) + 4 \<le> input_left (snd s))"
      using b by simp
  qed
qed

lemma rounds_bounds:
  "rounds ev n s t \<Longrightarrow> length (cn_read_buf (snd s)) \<le> buffer_bound (snd s) \<Longrightarrow>
     length (cn_read_buf (snd t)) \<le> buffer_bound (snd t) \<and> input_left (snd t) + 4 * n \<le> input_left (snd s)"
proof (induction rule: rounds.induct)
  case (rounds_more s t n u)
  then show ?case using command_round_bounds [OF rounds_more.hyps(1) rounds_more.prems] by auto
qed simp

lemma loop_rounds:
  "\<exists>n t r u. rounds ev n s t \<and> command_round ev t = (r, u) \<and> r \<noteq> Ok True
     \<and> run_command_loop ev s = (map_result (\<lambda>_. ()) r, u)"
proof (induction ev s rule: run_command_loop.induct)
  case (1 ev s)
  obtain r u where r: "command_round ev s = (r, u)" by (cases "command_round ev s")
  show ?case
  proof (cases "r = Ok True")
    case True
    then obtain n t r' u' where "rounds ev n u t" "command_round ev t = (r', u')" "r' \<noteq> Ok True"
        "run_command_loop ev u = (map_result (\<lambda>_. ()) r', u')"
      using "1.IH" [OF r [symmetric] _ True] by auto
    moreover have "run_command_loop ev s = run_command_loop ev u" using r True by (simp add: run_command_loop.simps [of ev s])
    ultimately show ?thesis using rounds_more [of ev s u n t] r True by metis
  next
    case False
    then have "run_command_loop ev s = (map_result (\<lambda>_. ()) r, u)"
      using r by (cases r) (simp_all add: run_command_loop.simps [of ev s] map_result_def)
    then show ?thesis using r False rounds_none by blast
  qed
qed

section \<open>A sample session\<close>

definition demo_env :: env where
  "demo_env = \<lparr>ev_unicode = ascii_only, ev_orders = demo_orders, ev_pending = sorted_pending, ev_clock = (\<lambda>n. 0)\<rparr>"

definition demo_server :: server where
  "demo_server = \<lparr>sr_world = world_start demo_store, sr_io = [], sr_obs = observability_new Info, sr_lines = []\<rparr>"

definition demo_connection :: "read_event list \<Rightarrow> connection" where
  "demo_connection es = connection_new es [] config_default 1"

definition command_packet :: "u8 list \<Rightarrow> packet" where
  "command_packet payload = packet_of 0 payload"

text \<open>The ping and the quit of a client, cut in the middle of the header of the first.\<close>

definition demo_bytes :: "u8 list" where
  "demo_bytes = concat (map encode_packet [command_packet [COM_PING], command_packet [COM_QUIT]])"

definition demo_chunks :: "read_event list" where
  "demo_chunks = [ReadData (take 3 demo_bytes), ReadData (drop 3 demo_bytes)]"

lemma demo_delivers:
  "delivers (demo_connection demo_chunks) (concat (map encode_packet [command_packet [COM_PING], command_packet [COM_QUIT]]))"
proof -
  have "length demo_bytes = 10" by (simp add: demo_bytes_def codec_simps HEADER_LEN_def command_packet_def packet_of_def)
  then have "take 3 demo_bytes \<noteq> []" "drop 3 demo_bytes \<noteq> []" by auto
  moreover have "concat (map encode_packet [command_packet [COM_PING], command_packet [COM_QUIT]]) = demo_bytes"
    by (simp add: demo_bytes_def)
  ultimately show ?thesis
    by (simp only: delivers_def demo_connection_def connection_new_def demo_chunks_def) simp
qed

lemma ok_reply: "ok_to_packet ok_packet_new 1 = Ok (packet_of 1 [0, 0, 0, 2, 0, 0, 0])"
  by code_simp

section \<open>Results\<close>

text \<open>
  Claim (C10). Commands are served in order.  If the client's bytes, in whatever chunks the network
  delivers them, are those of the packets \<open>ps\<close>, none too large, then the command loop does exactly
  what handling these commands one after the other does: the same result, the same changes to the
  shared state, the same bytes sent.  Only the input it has consumed differs.
\<close>

theorem commands_served_in_order:
  assumes "delivers c (concat (map encode_packet ps))"
    and "\<forall>p \<in> set ps. fits_frame p \<and> length (pk_payload p) \<le> cn_max_allowed_packet c"
  shows "\<exists>es bs. run_command_loop ev (sv, c) = change_input es bs (serve ev ps (sv, c))"
  using assms by (rule run_loop_serves)

theorem commands_served_in_order_witness:
  "\<exists>t. run_command_loop demo_env (demo_server, demo_connection demo_chunks) = (Ok (), t)
     \<and> cn_sent (snd t) = encode_packet (packet_of 1 [0, 0, 0, 2, 0, 0, 0])"
proof -
  let ?ps = "[command_packet [COM_PING], command_packet [COM_QUIT]]" and ?c = "demo_connection demo_chunks"
  have s: "serve demo_env ?ps (demo_server, ?c) =
      (Ok (), (demo_server, ?c\<lparr>cn_sequence_id := 1, cn_out_buf := encode_packet (packet_of 1 [0, 0, 0, 2, 0, 0, 0]),
        cn_sent := encode_packet (packet_of 1 [0, 0, 0, 2, 0, 0, 0])\<rparr>))"
    by (simp add: handle_command_def dispatch_command_def command_packet_def command_defs bindA_def modC_def send_packet_def
        getC_def liftA_def ok_reply write_packet_def flush_out_buf_def retA_def encode_into_eq demo_connection_def
        connection_new_def)
  show ?thesis
    using commands_served_in_order [OF demo_delivers, of demo_env demo_server] s
    by (auto simp: change_input_def with_input_def command_packet_def fits_frame_def MAX_PAYLOAD_def demo_connection_def
        connection_new_def config_default_def)
qed

text \<open>
  Claim (C12). The command loop ends.  From every state with a bounded read buffer the loop makes
  some number \<open>n\<close> of rounds and then stops, with the result of its last round; \<open>n\<close> is at most a
  quarter of the input that was left, and after every round the read buffer holds at most
  \<open>max_allowed_packet\<close> bytes, one header and one chunk.
\<close>

theorem command_loop_ends:
  assumes "length (cn_read_buf (snd s)) \<le> buffer_bound (snd s)"
  shows "(\<exists>n t r u. rounds ev n s t \<and> command_round ev t = (r, u) \<and> r \<noteq> Ok True
      \<and> run_command_loop ev s = (map_result (\<lambda>_. ()) r, u) \<and> 4 * n \<le> input_left (snd s))
    \<and> (\<forall>m v. rounds ev m s v \<longrightarrow> length (cn_read_buf (snd v)) \<le> buffer_bound (snd v))"
  using loop_rounds [of ev s] rounds_bounds [OF _ assms] by (metis add_leE)

theorem command_loop_ends_witness:
  "\<exists>n t (r :: bool result) u. rounds demo_env n (demo_server, demo_connection demo_chunks) t
     \<and> run_command_loop demo_env (demo_server, demo_connection demo_chunks) = (map_result (\<lambda>_. ()) r, u) \<and> n \<le> 3"
proof -
  let ?s = "(demo_server, demo_connection demo_chunks)"
  have "length demo_bytes = 10" by (simp add: demo_bytes_def codec_simps HEADER_LEN_def command_packet_def packet_of_def)
  then have "input_left (snd ?s) = 12"
    by (simp add: input_left_def demo_connection_def connection_new_def demo_chunks_def)
  moreover have "length (cn_read_buf (snd ?s)) \<le> buffer_bound (snd ?s)" by (simp add: demo_connection_def connection_new_def)
  ultimately obtain n t r u where "rounds demo_env n ?s t" "run_command_loop demo_env ?s = (map_result (\<lambda>_. ()) (r :: bool result), u)"
      "4 * n \<le> 12"
    using command_loop_ends [of ?s demo_env] by metis
  then show ?thesis by (intro exI [of _ n] exI [of _ t] exI [of _ r] exI [of _ u]) simp
qed

end
