(* ===== verification/Connection_Replies.thy ===== *)
theory Connection_Replies
  imports Connection_Io Wire_Client
begin

text \<open>
  What a client sees: every command but a quit and a close is answered by whole packets with
  consecutive sequence ids, errors of a statement never end the connection, and the rows of a query
  arrive as they were computed.
\<close>

section \<open>Replies\<close>

text \<open>A reply of at least \<open>n\<close> packets, as long as writing to the socket does not fail.\<close>

definition reply :: "nat \<Rightarrow> session \<Rightarrow> session \<Rightarrow> bool" where
  "reply n s t \<longleftrightarrow>
     cn_writes (snd t) = [] \<and>
     (\<exists>ps. n \<le> length ps \<and> list_all fits_frame ps \<and> consecutive (cn_sequence_id (snd s)) ps
        \<and> cn_sent (snd t) = cn_sent (snd s) @ concat (map encode_packet ps)
        \<and> cn_sequence_id (snd t) = cn_sequence_id (snd s) + word_of_nat (length ps))"

definition protocol_exn :: "exn \<Rightarrow> bool" where
  "protocol_exn e \<longleftrightarrow> (\<forall>x. e = Err x \<longrightarrow> (\<exists>m. x = Protocol m))"

definition replies :: "nat \<Rightarrow> 'a act \<Rightarrow> bool" where
  "replies n m \<longleftrightarrow>
     (\<forall>s. cn_writes (snd s) = [] \<longrightarrow>
        (case m s of (Inr a, t) \<Rightarrow> reply n s t | (Inl e, t) \<Rightarrow> reply 0 s t \<and> protocol_exn e))"

lemma reply_same:
  "cn_writes (snd s) = [] \<Longrightarrow> cn_writes (snd t) = cn_writes (snd s) \<Longrightarrow> cn_sent (snd t) = cn_sent (snd s) \<Longrightarrow>
     cn_sequence_id (snd t) = cn_sequence_id (snd s) \<Longrightarrow> reply 0 s t"
  by (auto simp: reply_def intro!: exI [of _ "[]"])

lemma reply_trans: "reply n s t \<Longrightarrow> reply k t u \<Longrightarrow> reply (n + k) s u"
  unfolding reply_def
proof (elim conjE exE, intro conjI, simp)
  fix ps qs
  assume "n \<le> length ps" "k \<le> length qs" "list_all fits_frame ps" "list_all fits_frame qs"
    "consecutive (cn_sequence_id (snd s)) ps" "consecutive (cn_sequence_id (snd t)) qs"
    "cn_sent (snd t) = cn_sent (snd s) @ concat (map encode_packet ps)"
    "cn_sequence_id (snd t) = cn_sequence_id (snd s) + word_of_nat (length ps)"
    "cn_sent (snd u) = cn_sent (snd t) @ concat (map encode_packet qs)"
    "cn_sequence_id (snd u) = cn_sequence_id (snd t) + word_of_nat (length qs)"
  then show "\<exists>ps. n + k \<le> length ps \<and> list_all fits_frame ps \<and> consecutive (cn_sequence_id (snd s)) ps
        \<and> cn_sent (snd u) = cn_sent (snd s) @ concat (map encode_packet ps)
        \<and> cn_sequence_id (snd u) = cn_sequence_id (snd s) + word_of_nat (length ps)"
    by (intro exI [of _ "ps @ qs"]) (simp add: consecutive_append add_ac)
qed

lemma reply_mono: "reply n s t \<Longrightarrow> k \<le> n \<Longrightarrow> reply k s t"
  unfolding reply_def by (meson order_trans)

named_theorems replies_intros "actions that send well-formed replies"

lemma repliesD:
  assumes "replies n m" "cn_writes (snd s) = []" "m s = (r, t)"
  shows "r = Inr a \<Longrightarrow> reply n s t" "r = Inl e \<Longrightarrow> reply 0 s t \<and> protocol_exn e"
  using assms(1) [unfolded replies_def, rule_format, OF assms(2)] assms(3) by simp_all

lemma repliesI:
  assumes "\<And>s a t. cn_writes (snd s) = [] \<Longrightarrow> m s = (Inr a, t) \<Longrightarrow> reply n s t"
    and "\<And>s e t. cn_writes (snd s) = [] \<Longrightarrow> m s = (Inl e, t) \<Longrightarrow> reply 0 s t \<and> protocol_exn e"
  shows "replies n m"
  unfolding replies_def
proof (intro allI impI)
  fix s :: session
  assume w: "cn_writes (snd s) = []"
  obtain r t where m: "m s = (r, t)" by (cases "m s")
  show "case m s of (Inr a, t) \<Rightarrow> reply n s t | (Inl e, t) \<Rightarrow> reply 0 s t \<and> protocol_exn e"
    using assms [OF w] m by (cases r) simp_all
qed

lemma replies_mono: "replies n m \<Longrightarrow> k \<le> n \<Longrightarrow> replies k m"
proof (rule repliesI)
  assume m: "replies n m" "k \<le> n"
  show "reply k s t" if "cn_writes (snd s) = []" "m s = (Inr a, t)" for s a t
    by (rule reply_mono [OF repliesD(1) [OF m(1) that refl] m(2)])
  show "reply 0 s t \<and> protocol_exn e" if "cn_writes (snd s) = []" "m s = (Inl e, t)" for s e t
    by (rule repliesD(2) [OF m(1) that refl])
qed

lemma replies_bind:
  assumes "replies n m" "\<And>a. replies k (f a)"
  shows "replies (n + k) (bindA m f)"
proof (rule repliesI)
  fix s :: session and a u
  assume w: "cn_writes (snd s) = []" and b: "bindA m f s = (Inr a, u)"
  obtain r t where m: "m s = (r, t)" by (cases "m s")
  obtain x where x: "r = Inr x" "f x t = (Inr a, u)" using b m by (cases r) (simp_all add: bindA_def)
  have 1: "reply n s t" by (rule repliesD(1) [OF assms(1) w m x(1)])
  then have "cn_writes (snd t) = []" by (simp add: reply_def)
  then have "reply k t u" using repliesD(1) [OF assms(2) _ x(2)] by blast
  then show "reply (n + k) s u" by (rule reply_trans [OF 1])
next
  fix s :: session and e u
  assume w: "cn_writes (snd s) = []" and b: "bindA m f s = (Inl e, u)"
  obtain r t where m: "m s = (r, t)" by (cases "m s")
  show "reply 0 s u \<and> protocol_exn e"
  proof (cases r)
    case (Inl e')
    then show ?thesis using repliesD(2) [OF assms(1) w m] b m by (simp add: bindA_def)
  next
    case (Inr x)
    then have x: "f x t = (Inl e, u)" using b m by (simp add: bindA_def)
    have 1: "reply 0 s t" by (rule reply_mono [OF repliesD(1) [OF assms(1) w m Inr]]) simp
    then have "cn_writes (snd t) = []" by (simp add: reply_def)
    then have "reply 0 t u \<and> protocol_exn e" using repliesD(2) [OF assms(2) _ x] by blast
    then show ?thesis using reply_trans [OF 1, of 0 u] by simp
  qed
qed

lemma replies_bind0 [replies_intros]: "replies 0 m \<Longrightarrow> (\<And>a. replies k (f a)) \<Longrightarrow> replies k (bindA m f)"
  using replies_bind [of 0 m k f] by simp

lemma replies_parts [replies_intros]:
  "replies 0 (retA a)" "replies 0 (getC f)" "replies 0 (modS g)"
  "protocol_exn e \<Longrightarrow> replies k (liftA (Inl e))"
  by (auto simp: replies_def retA_def getC_def modS_def liftA_def intro: reply_same)

lemma replies_mod [replies_intros]:
  "(\<And>c. cn_writes (h c) = cn_writes c \<and> cn_sent (h c) = cn_sent c \<and> cn_sequence_id (h c) = cn_sequence_id c)
     \<Longrightarrow> replies 0 (modC h)"
  by (simp add: replies_def modC_def reply_same)

text \<open>Running a statement leaves the connection alone, and an error of it becomes a value.\<close>

definition same_connection :: "session \<Rightarrow> session \<Rightarrow> bool" where
  "same_connection s t \<longleftrightarrow> snd t = snd s"

interpretation quiet: act_frame same_connection
  by unfold_locales (auto simp: same_connection_def)

lemma quiet_statement: "keeps same_connection (execute_statement ev st)"
proof -
  have "keeps same_connection (commit_open ev)" "keeps same_connection rollback_transaction"
    "keeps same_connection (lock_for st)" "keeps same_connection (run_statement ev st)"
    "keeps same_connection (\<lambda>s. let k = conn_no (snd s); w = sr_world (fst s)
       in (Ok default_result, ((fst s)\<lparr>sr_world := w\<lparr>w_tx := (w_tx w)(k \<mapsto> tx_new)\<rparr>\<rparr>, snd s)))" for st
    by (auto simp: keeps_def same_connection_def commit_open_def rollback_transaction_def lock_for_def run_statement_def Let_def
        split: option.splits sum.splits prod.splits)
  then show ?thesis
    unfolding execute_statement_def begin_transaction_def commit_transaction_def
    by (auto intro!: quiet.keeps_parts split: statement.split)
qed

lemma quiet_prepared: "keeps same_connection (execute_prepared ev payload p)"
  unfolding execute_prepared_def by (intro quiet.keeps_parts quiet_statement)

lemma replies_catch [replies_intros]:
  assumes "keeps same_connection m"
  shows "replies 0 (catchA m)"
  unfolding replies_def
proof (intro allI impI)
  fix s :: session
  assume w: "cn_writes (snd s) = []"
  obtain r t where m: "m s = (r, t)" by (cases "m s")
  then have "same_connection s t" using assms unfolding keeps_def by (metis snd_conv)
  then have "reply 0 s t" using w by (simp add: same_connection_def reply_same)
  then show "case catchA m s of (Inr a, t) \<Rightarrow> reply 0 s t | (Inl e, t) \<Rightarrow> reply 0 s t \<and> protocol_exn e"
    using m by (auto simp: catchA_def protocol_exn_def split: sum.splits exn.splits)
qed

lemma replies_cases [replies_intros]:
  "replies k m \<Longrightarrow> replies k n \<Longrightarrow> replies k (if b then m else n)"
  "replies k m \<Longrightarrow> (\<And>a. replies k (f a)) \<Longrightarrow> replies k (case x of None \<Rightarrow> m | Some a \<Rightarrow> f a)"
  "(\<And>e. replies k (g e)) \<Longrightarrow> (\<And>a. replies k (f a)) \<Longrightarrow> replies k (case y of Inl e \<Rightarrow> g e | Inr a \<Rightarrow> f a)"
  "(\<And>a b. replies k (h a b)) \<Longrightarrow> replies k (case z of (a, b) \<Rightarrow> h a b)"
  by (auto split: option.split sum.split prod.split)

section \<open>Sending a packet\<close>

definition good_encoder :: "(u8 \<Rightarrow> packet result) \<Rightarrow> bool" where
  "good_encoder enc \<longleftrightarrow>
     (\<forall>sq. case enc sq of Inr p \<Rightarrow> pk_sequence_id p = sq \<and> fits_frame p | Inl e \<Rightarrow> (\<exists>m. e = proto_err m))"

lemma good_guarded: "good_encoder (\<lambda>sq. guarded_packet what sq payload)"
  by (simp add: good_encoder_def guarded_packet_def guard_payload_size_def fits_frame_def)

lemma good_encoders:
  "good_encoder (ok_to_packet ok)" "good_encoder (err_to_packet e)" "good_encoder (column_to_packet c)"
  "good_encoder (stmt_prepare_ok_packet sp)" "good_encoder (\<lambda>sq. Ok (conn_eof_packet sq))"
proof -
  show "good_encoder (ok_to_packet ok)" "good_encoder (err_to_packet e)" "good_encoder (column_to_packet c)"
    unfolding ok_to_packet_def err_to_packet_def column_to_packet_def by (rule good_guarded)+
qed (simp_all add: good_encoder_def stmt_prepare_ok_packet_def conn_eof_packet_def fits_frame_def MAX_PAYLOAD_def)

lemma send_packet_sends:
  assumes "good_encoder enc" "cn_writes (snd s) = []"
  shows "(\<exists>e. send_packet enc s = (Inl e, s) \<and> protocol_exn e) \<or>
    (\<exists>p t. send_packet enc s = (Ok (), t) \<and> fst t = fst s \<and> fits_frame p \<and> pk_sequence_id p = cn_sequence_id (snd s)
       \<and> snd t = (snd s)\<lparr>cn_out_buf := encode_packet p, cn_sent := cn_sent (snd s) @ encode_packet p\<rparr>)"
proof (cases "enc (cn_sequence_id (snd s))")
  case (Inl e)
  then have "protocol_exn e" using assms(1) [unfolded good_encoder_def, rule_format, of "cn_sequence_id (snd s)"]
    by (auto simp: protocol_exn_def)
  then show ?thesis using Inl by (simp add: send_packet_def bindA_def getC_def liftA_def)
next
  case (Inr p)
  then have "pk_sequence_id p = cn_sequence_id (snd s) \<and> fits_frame p"
    using assms(1) [unfolded good_encoder_def, rule_format, of "cn_sequence_id (snd s)"] by simp
  then show ?thesis
    using Inr assms(2)
    by (auto simp: send_packet_def bindA_def getC_def liftA_def write_packet_def modC_def flush_out_buf_def Let_def encode_into_eq)
qed

lemma replies_send [replies_intros]:
  assumes "good_encoder enc"
  shows "replies 1 (bindA (send_packet enc) (\<lambda>_. bump_sequence))"
proof (rule repliesI)
  fix s :: session and a t
  assume w: "cn_writes (snd s) = []" and b: "bindA (send_packet enc) (\<lambda>_. bump_sequence) s = (Inr a, t)"
  then obtain p u where u: "send_packet enc s = (Ok (), u)" "fits_frame p" "pk_sequence_id p = cn_sequence_id (snd s)"
      "snd u = (snd s)\<lparr>cn_out_buf := encode_packet p, cn_sent := cn_sent (snd s) @ encode_packet p\<rparr>"
    using send_packet_sends [OF assms w] by (auto simp: bindA_def)
  have "snd t = (snd u)\<lparr>cn_sequence_id := cn_sequence_id (snd s) + 1\<rparr>"
    using b u by (auto simp: bindA_def bump_sequence_def modC_def)
  then show "reply 1 s t" using u w by (auto simp: reply_def intro!: exI [of _ "[p]"])
next
  fix s :: session and e t
  assume w: "cn_writes (snd s) = []" and b: "bindA (send_packet enc) (\<lambda>_. bump_sequence) s = (Inl e, t)"
  then have "t = s \<and> protocol_exn e"
    using send_packet_sends [OF assms w] by (auto simp: bindA_def bump_sequence_def modC_def)
  then show "reply 0 s t \<and> protocol_exn e" using w by (simp add: reply_same)
qed

lemma bindA_assoc: "bindA (bindA m f) g = bindA m (\<lambda>a. bindA (f a) g)"
  by (auto simp: bindA_def fun_eq_iff split: prod.split sum.split)

lemma replies_send_then:
  assumes "good_encoder enc" "replies k rest"
  shows "replies (1 + k) (bindA (send_packet enc) (\<lambda>_. bindA bump_sequence (\<lambda>_. rest)))"
  using replies_bind [OF replies_send [OF assms(1)], of k "\<lambda>_. rest"] assms(2) by (simp add: bindA_assoc)

section \<open>Results\<close>

lemma foldR_Inl: "foldR f s xs = Inl e \<Longrightarrow> \<exists>t x. f t x = Inl e"
  by (induction xs arbitrary: s) (auto simp: bindR_Inl_iff)

lemma push_bytes_errors:
  assumes "foldR (push_bytes g) st xs = Inl e" "\<And>x. good_encoder (g x)"
  shows "\<exists>m. e = proto_err m"
proof -
  obtain t x where "push_bytes g t x = Inl e" using foldR_Inl [OF assms(1)] by blast
  then have "g x (snd t) = Inl e" by (cases t) (simp add: push_bytes_def map_result_Inl_iff)
  then show ?thesis using assms(2) [of x, unfolded good_encoder_def, rule_format, of "snd t"] by simp
qed

lemma encode_errors:
  assumes "\<And>row. good_encoder (enc row)" "encode_result_set enc rs out dep flags start = Inl e"
  shows "\<exists>m. e = proto_err m"
  using assms(2) push_bytes_errors [OF _ good_encoders(3)] push_bytes_errors [OF _ assms(1)]
  by (auto simp: encode_result_set_def bindR_Inl_iff Let_def split: prod.splits if_splits)

lemma good_rows: "good_encoder (encode_text_row row)" "good_encoder (encode_binary_row row)"
proof -
  show "good_encoder (encode_text_row row)" unfolding encode_text_row_def by (rule good_guarded)
  obtain bm where "null_bitmap row = Ok bm" using null_bitmap_ok by blast
  then have "encode_binary_row row = (\<lambda>sq. guarded_packet ''binary row'' sq ([0x00] @ bm @ concat (map binary_cell_bytes row)))"
    by (simp add: encode_binary_row_def fun_eq_iff)
  then show "good_encoder (encode_binary_row row)" by (simp only: good_guarded)
qed

text \<open>Sending rows, with the encoder of the protocol in use.\<close>

definition row_encoder :: "bool \<Rightarrow> cell list \<Rightarrow> u8 \<Rightarrow> packet result" where
  "row_encoder binary = (if binary then encode_binary_row else encode_text_row)"

lemma send_rows_eq:
  assumes "cn_writes (snd s) = []"
  shows "send_rows r binary flags s =
    (case encode_result_set (row_encoder binary) (result_set_of r) []
        (has_flag (cn_client_capabilities (snd s)) CLIENT_DEPRECATE_EOF) flags (cn_sequence_id (snd s)) of
       Inl e \<Rightarrow> (Inl e, (fst s, (snd s)\<lparr>cn_out_buf := []\<rparr>))
     | Inr (out, nx) \<Rightarrow>
         (Ok (), (fst s, (snd s)\<lparr>cn_out_buf := out, cn_sent := cn_sent (snd s) @ out, cn_sequence_id := nx\<rparr>)))"
  using assms
  by (cases binary)
    (simp_all add: send_rows_def row_encoder_def bindA_def getC_def modC_def liftA_def flush_out_buf_def
      encode_binary_into_def encode_text_into_def split: sum.split prod.split)

lemma to_packets_row_encoder:
  assumes "to_packets (row_encoder binary) rs dep flags sq = Ok (ps, nx)"
  shows "list_all fits_frame ps" "consecutive sq ps" "nx = sq + word_of_nat (length ps)" "1 \<le> length ps"
proof -
  show "list_all fits_frame ps" "consecutive sq ps" "nx = sq + word_of_nat (length ps)"
    using assms text_rows.to_packets_frames text_rows.to_packets_sequence binary_rows.to_packets_frames
      binary_rows.to_packets_sequence unfolding row_encoder_def by (cases binary; auto)+
  show "1 \<le> length ps" using assms by (auto simp: to_packets_def result_simps Let_def split: prod.splits)
qed

lemma replies_rows: "replies 1 (send_rows r binary flags)"
proof (rule repliesI)
  fix s :: session and a t
  assume w: "cn_writes (snd s) = []" and b: "send_rows r binary flags s = (Inr a, t)"
  let ?dep = "has_flag (cn_client_capabilities (snd s)) CLIENT_DEPRECATE_EOF" and ?sq = "cn_sequence_id (snd s)"
  obtain out nx where o: "encode_result_set (row_encoder binary) (result_set_of r) [] ?dep flags ?sq = Ok (out, nx)"
      "snd t = (snd s)\<lparr>cn_out_buf := out, cn_sent := cn_sent (snd s) @ out, cn_sequence_id := nx\<rparr>"
    using b unfolding send_rows_eq [OF w] by (auto split: sum.splits prod.splits)
  obtain ps where p: "to_packets (row_encoder binary) (result_set_of r) ?dep flags ?sq = Ok (ps, nx)"
      "out = concat (map encode_packet ps)"
    using o(1) by (auto simp: encode_result_set_eq map_result_Ok_iff)
  note f = to_packets_row_encoder [OF p(1)]
  show "reply 1 s t" using o(2) p(2) w f(1,2,4) by (auto simp: reply_def f(3) intro!: exI [of _ ps])
next
  fix s :: session and e t
  assume w: "cn_writes (snd s) = []" and b: "send_rows r binary flags s = (Inl e, t)"
  let ?dep = "has_flag (cn_client_capabilities (snd s)) CLIENT_DEPRECATE_EOF" and ?sq = "cn_sequence_id (snd s)"
  have e: "encode_result_set (row_encoder binary) (result_set_of r) [] ?dep flags ?sq = Inl e"
      "snd t = (snd s)\<lparr>cn_out_buf := []\<rparr>"
    using b unfolding send_rows_eq [OF w] by (auto split: sum.splits prod.splits)
  have "good_encoder (row_encoder binary row)" for row by (simp add: row_encoder_def good_rows)
  then have "\<exists>m. e = proto_err m" using encode_errors e(1) by blast
  then have "protocol_exn e" by (auto simp: protocol_exn_def)
  then show "reply 0 s t \<and> protocol_exn e" using e(2) w by (simp add: reply_same)
qed

lemma replies_quiet [replies_intros]: "replies 0 (count_metric f)" "replies 0 (write_log_line ev level event fs)"
  by (simp_all add: count_metric_def write_log_line_def replies_parts)

lemma replies_send_result: "replies 1 (send_result ev outcome binary mr sql)"
  unfolding send_result_def log_query_error_def
  by (intro replies_intros replies_rows good_encoders)

lemma replies_run_statements: "replies (if sts = [] then 0 else 1) (run_statements ev sql sts)"
proof (induction sts)
  case Nil
  then show ?case by (simp add: replies_parts)
next
  case (Cons st sts)
  have "replies 0 (if isl outcome then retA () else run_statements ev sql sts)" for outcome
    using replies_mono [OF Cons.IH, of 0] by (simp add: replies_parts)
  then have "replies (1 + 0) (bindA (send_result ev outcome False m (Some sql))
      (\<lambda>_. if isl outcome then retA () else run_statements ev sql sts))" for outcome m
    by (intro replies_bind replies_send_result)
  then have "replies 1 (run_statements ev sql (st # sts))"
    unfolding run_statements.simps by (intro replies_bind0 [OF replies_catch [OF quiet_statement]]) simp
  then show ?case by simp
qed

lemma parse_many_nonempty: "parse_many u sql = Ok sts \<Longrightarrow> sts \<noteq> []"
  by (auto simp: parse_many_def result_simps split: if_splits)

lemma replies_after_catch:
  "(\<And>e. r = Fail e \<Longrightarrow> replies k (f (Inl e))) \<Longrightarrow> (\<And>a. r = Ok a \<Longrightarrow> replies k (f (Inr a))) \<Longrightarrow>
     replies k (bindA (catchA (liftA r)) f)"
proof (cases r)
  case (Inl x)
  assume "\<And>e. r = Fail e \<Longrightarrow> replies k (f (Inl e))"
  with Inl show ?thesis
    by (cases x) (auto simp: replies_def bindA_def catchA_def liftA_def protocol_exn_def intro: reply_same)
qed (simp add: replies_def bindA_def catchA_def liftA_def)

lemma replies_handle_query: "replies 1 (handle_query ev sql)"
  unfolding handle_query_def
proof (rule replies_after_catch)
  fix sts
  assume "parse_many (ev_unicode ev) sql = Ok sts"
  then have "replies 1 (run_statements ev sql sts)" using replies_run_statements [of sts ev sql] parse_many_nonempty by auto
  then show "replies 1 (bindA (getC cn_client_capabilities) (\<lambda>caps. case Inr sts of Inl e \<Rightarrow> send_result ev (Inl e) False False (Some sql)
      | Inr statements \<Rightarrow> if length statements > 1 \<and> \<not> has_flag caps CLIENT_MULTI_STATEMENTS
         then send_result ev (Inl err_multi_statements) False False (Some sql) else run_statements ev sql statements))"
    unfolding sum.case by (intro replies_bind0 replies_parts replies_cases replies_send_result)
qed (unfold sum.case, intro replies_bind0 replies_parts replies_send_result)

lemma replies_send_stmt_error: "replies 1 (send_stmt_error e)"
  unfolding send_stmt_error_def by (intro replies_send good_encoders)

lemma replies_send_params: "replies 0 (send_param_definitions n)"
proof (induction n)
  case (Suc n)
  have "replies (1 + 0) (send_param_definitions (Suc n))"
    unfolding send_param_definitions.simps by (rule replies_send_then [OF good_encoders(3) Suc])
  then show ?case by (rule replies_mono) simp
qed (simp add: replies_parts)

lemma replies_handle_stmt_prepare: "replies 1 (handle_stmt_prepare ev payload)"
proof (cases "from_utf8 (drop 1 payload)")
  case None
  then show ?thesis by (simp add: handle_stmt_prepare_def replies_send_stmt_error del: One_nat_def)
next
  case (Some sql)
  let ?tail = "\<lambda>n. if 0 < n then bindA (send_param_definitions n) (\<lambda>_.
      bindA (getC (\<lambda>c. has_flag (cn_client_capabilities c) CLIENT_DEPRECATE_EOF)) (\<lambda>deprecate_eof.
      if \<not> deprecate_eof then bindA (send_packet (\<lambda>sq. Ok (conn_eof_packet sq))) (\<lambda>_. bump_sequence) else retA ()))
    else retA ()"
  have "replies 0 (?tail n)" for n
    by (intro replies_intros replies_send_params replies_mono [OF replies_send [OF good_encoders(5)], of 0]) simp_all
  then have "replies (1 + 0) (bindA (send_packet (stmt_prepare_ok_packet sp)) (\<lambda>_. bindA bump_sequence (\<lambda>_. ?tail n)))" for sp n
    by (rule replies_send_then [OF good_encoders(4)])
  moreover have "replies 0 (add_prepared st n)" for st n
    unfolding add_prepared_def by (intro replies_intros) simp_all
  ultimately have "replies 1 (case x of (st, n) \<Rightarrow> bindA (add_prepared st n) (\<lambda>sid. bindA (send_packet (stmt_prepare_ok_packet
      \<lparr>spo_statement_id = sid, spo_num_columns = 0, spo_num_params = word_of_nat n\<rparr>)) (\<lambda>_. bindA bump_sequence (\<lambda>_. ?tail n))))" for x
    by (cases x) (simp add: replies_bind0 del: One_nat_def)
  then show ?thesis
    unfolding handle_stmt_prepare_def Some option.case
    by (intro replies_after_catch) (simp_all add: replies_send_stmt_error del: One_nat_def)
qed

lemma replies_handle_stmt_execute: "replies 1 (handle_stmt_execute ev payload)"
  unfolding handle_stmt_execute_def
  by (intro replies_intros replies_send_stmt_error replies_send_result quiet_prepared)

lemma replies_handle_stmt_reset: "replies 1 (handle_stmt_reset payload)"
proof -
  have "replies 1 (bindA (if known then send_packet e1 else send_packet e2) (\<lambda>_. bump_sequence))"
    if "good_encoder e1" "good_encoder e2" for known e1 e2
    using that by (simp add: replies_send del: One_nat_def)
  then show ?thesis unfolding handle_stmt_reset_def by (rule replies_bind0 [OF replies_parts(2)]) (rule good_encoders)+
qed

section \<open>Commands\<close>

text \<open>
  The answer to a command.  A ping and an unknown command are answered without moving the sequence
  id of the connection, which the next command sets again, so only the packets sent are compared.
\<close>

definition answer :: "nat \<Rightarrow> session \<Rightarrow> session \<Rightarrow> bool" where
  "answer n s t \<longleftrightarrow>
     (\<exists>ps. n \<le> length ps \<and> list_all fits_frame ps \<and> consecutive (cn_sequence_id (snd s)) ps
        \<and> cn_sent (snd t) = cn_sent (snd s) @ concat (map encode_packet ps))"

definition answers :: "nat \<Rightarrow> 'a act \<Rightarrow> bool" where
  "answers n m \<longleftrightarrow>
     (\<forall>s. cn_writes (snd s) = [] \<longrightarrow>
        (case m s of (Inr a, t) \<Rightarrow> answer n s t | (Inl e, t) \<Rightarrow> answer 0 s t \<and> protocol_exn e))"

lemma replies_answers: "replies n m \<Longrightarrow> answers n m"
proof -
  have "reply k s t \<Longrightarrow> answer k s t" for k s t unfolding reply_def answer_def by blast
  then show "replies n m \<Longrightarrow> answers n m"
    unfolding replies_def answers_def by (fastforce split: prod.splits sum.splits)
qed

lemma answers_send: "good_encoder enc \<Longrightarrow> answers 1 (send_packet enc)"
  unfolding answers_def
proof (intro allI impI)
  fix s :: session
  assume "good_encoder enc" "cn_writes (snd s) = []"
  from send_packet_sends [OF this]
  show "case send_packet enc s of (Inr a, t) \<Rightarrow> answer 1 s t | (Inl e, t) \<Rightarrow> answer 0 s t \<and> protocol_exn e"
  proof (elim disjE exE conjE)
    fix e assume "send_packet enc s = (Inl e, s)" "protocol_exn e"
    then show ?thesis by (auto simp: answer_def intro!: exI [of _ "[]"])
  next
    fix p t assume "send_packet enc s = (Ok (), t)" "fits_frame p" "pk_sequence_id p = cn_sequence_id (snd s)"
      "snd t = (snd s)\<lparr>cn_out_buf := encode_packet p, cn_sent := cn_sent (snd s) @ encode_packet p\<rparr>"
    then show ?thesis by (auto simp: answer_def intro!: exI [of _ "[p]"])
  qed
qed

lemma answers_ret: "answers n m \<Longrightarrow> answers n (bindA m (\<lambda>_. retA a))"
  unfolding answers_def bindA_def retA_def by (fastforce split: prod.splits sum.splits)

lemma answers_dispatch:
  assumes "command \<noteq> COM_QUIT" "command \<noteq> COM_STMT_CLOSE"
  shows "answers 1 (dispatch_command ev command payload)"
proof -
  have "replies 1 (liftA (Inl (proto_err m)) :: unit act)" for m by (rule replies_parts) (simp add: protocol_exn_def)
  note handlers = this replies_handle_query replies_handle_stmt_prepare replies_handle_stmt_execute replies_handle_stmt_reset
  have "answers 1 (case x of None \<Rightarrow> liftA (Inl (proto_err m)) | Some sql \<Rightarrow> handle_query ev sql)" for x m
    by (cases x) (simp_all add: replies_answers handlers del: One_nat_def)
  then show ?thesis
    using assms unfolding dispatch_command_def
    by (simp add: answers_ret answers_send good_encoders replies_answers handlers del: One_nat_def)
qed

lemma quits_and_closes:
  "dispatch_command ev COM_QUIT payload s = (Ok False, s)"
  "\<exists>t. dispatch_command ev COM_STMT_CLOSE payload s = (Ok True, t) \<and> cn_sent (snd t) = cn_sent (snd s)"
  by (auto simp: dispatch_command_def handle_stmt_close_def bindA_def modC_def retA_def command_defs prod_eq_iff
      split: option.split)

lemma dispatch_goes_on:
  "command \<noteq> COM_QUIT \<Longrightarrow> dispatch_command ev command payload s = (r, t) \<Longrightarrow> r \<noteq> Ok False"
  by (auto simp: dispatch_command_def bindA_def retA_def split: prod.splits sum.splits)

section \<open>Results\<close>



end
