(* ===== verification/Connection_Query.thy ===== *)
theory Connection_Query
  imports Connection_Replies
begin

text \<open>
  A query from its text to the rows a client reads: the parser, the executor on the handle of the
  connection, the encoding of the result and the packets on the socket, put together.
\<close>

section \<open>Results on the wire\<close>

lemma cell_of_value: "cell_to_text (value_to_cell v) = to_display_string v"
  by (cases v) (simp_all add: value_to_cell_def to_display_string_def unwrap_or_default_def)

lemma cell_of_value_fits: "has_type v (cs_type c) \<Longrightarrow> cell_fits (cdf_type (conn_column_definition c)) (value_to_cell v)"
  by (cases v; cases "cs_type c") (simp_all add: value_to_cell_def conn_column_definition_def)

text \<open>A typed result that was sent is read back by a client of either protocol.\<close>

lemma sent_rows_read:
  assumes w: "cn_writes (snd s) = []" and r: "result_typed r" "qr_columns r \<noteq> []" "length (qr_columns r) < 2 ^ 64"
    and s: "send_rows r binary flags s = (Ok u, t)"
  shows "\<exists>ps. cn_sent (snd t) = cn_sent (snd s) @ concat (map encode_packet ps)
      \<and> split_frames (concat (map encode_packet ps)) = Some ps \<and> consecutive (cn_sequence_id (snd s)) ps
      \<and> (let dep = has_flag (cn_client_capabilities (snd s)) CLIENT_DEPRECATE_EOF in
         if binary then client_result_set read_binary_row dep ps =
           Some (map conn_column_definition (qr_columns r), map (map value_to_cell) (qr_rows r))
         else client_result_set read_text_row dep ps =
           Some (map conn_column_definition (qr_columns r), map (map to_display_string) (qr_rows r)))"
proof -
  let ?dep = "has_flag (cn_client_capabilities (snd s)) CLIENT_DEPRECATE_EOF" and ?rs = "result_set_of r"
  obtain ps nx where p: "to_packets (row_encoder binary) ?rs ?dep flags (cn_sequence_id (snd s)) = Ok (ps, nx)"
      "cn_sent (snd t) = cn_sent (snd s) @ concat (map encode_packet ps)"
    using s unfolding send_rows_eq [OF w] encode_result_set_eq by (auto simp: map_result_Ok_iff split: sum.splits prod.splits)
  note f = to_packets_row_encoder [OF p(1)]
  have rows: "row_typed (qr_columns r) row" if "row \<in> set (qr_rows r)" for row
    using that r(1) by (simp add: result_typed_def typed_rows_def)
  have fit: "\<forall>row \<in> set (rs_rows ?rs). row \<noteq> [] \<and> list_all2 cell_fits (map cdf_type (rs_columns ?rs)) row"
  proof
    fix cells assume "cells \<in> set (rs_rows ?rs)"
    then obtain row where row: "row \<in> set (qr_rows r)" "cells = map value_to_cell row" by (auto simp: result_set_of_def)
    have "list_all2 has_type row (map cs_type (qr_columns r))" using rows [OF row(1)] by (simp add: row_typed_def)
    then show "cells \<noteq> [] \<and> list_all2 cell_fits (map cdf_type (rs_columns ?rs)) cells"
      using r(2) row(2) by (auto simp: list_all2_conv_all_nth result_set_of_def cell_of_value_fits)
  qed
  then have len: "\<forall>row \<in> set (rs_rows ?rs). row \<noteq> [] \<and> length row = length (rs_columns ?rs)"
    using list_all2_lengthD by fastforce
  have n: "length (rs_columns ?rs) < 2 ^ 64" using r(3) by (simp add: result_set_of_def)
  have "if binary then client_result_set read_binary_row ?dep ps = Some (rs_columns ?rs, rs_rows ?rs)
      else client_result_set read_text_row ?dep ps = Some (rs_columns ?rs, map (map cell_to_text) (rs_rows ?rs))"
    using p(1) binary_rows.client_reads_result_set [OF _ n fit] text_rows.client_reads_result_set [OF _ n] len
    by (cases binary) (simp_all add: row_encoder_def)
  then show ?thesis
    using p(2) f(1,2) by (intro exI [of _ ps]) (auto simp: split_frames_encode result_set_of_def cell_of_value)
qed

section \<open>Queries\<close>

abbreviation session_handle :: "server \<Rightarrow> connection \<Rightarrow> handle" where
  "session_handle sv c \<equiv> (w_store (sr_world sv), w_tx (sr_world sv) (conn_no c))"

lemma session_handle_inv: "world_inv (sr_world sv) \<Longrightarrow> handle_inv (session_handle sv c)"
  by (auto simp: handle_inv_def world_tx_inv world_inv_def split: option.split)

lemma select_statement:
  "\<exists>sv'. sr_world sv' = sr_world sv \<and> execute_statement ev (StSelect sel) (sv, c) =
     (execute_select (ev_orders ev) (cn_system_variables c) (session_handle sv c) sel, (sv', c))"
  by (cases "sr_io sv")
    (auto simp: execute_statement_def lock_for_def insert_table_def run_statement_def next_io_def bindA_def execute_def
      Let_def fun_upd_idem split: prod.split)

lemma select_query_sends:
  assumes "parse_many (ev_unicode ev) sql = Ok [StSelect sel]"
    and "execute_select (ev_orders ev) (cn_system_variables c) (session_handle sv c) sel = Ok res" "qr_columns res \<noteq> []"
  shows "\<exists>sv'. sr_world sv' = sr_world sv
    \<and> handle_query ev sql (sv, c) = send_rows res False SERVER_STATUS_AUTOCOMMIT (sv', c)"
proof -
  obtain sv1 where sv1: "sr_world sv1 = sr_world sv" and e: "execute_statement ev (StSelect sel) (sv, c) = (Ok res, (sv1, c))"
    using select_statement [of sv ev sel c] assms(2) by auto
  let ?sv2 = "with_metrics query_executed sv1"
  have sv2: "sr_world ?sv2 = sr_world sv1" "count_metric query_executed (sv1, c) = (Ok (), (?sv2, c))"
    by (simp_all add: with_metrics_def count_metric_def modS_def)
  have "bindA (send_rows res False SERVER_STATUS_AUTOCOMMIT) (\<lambda>_. retA ()) s = send_rows res False SERVER_STATUS_AUTOCOMMIT s" for s
    by (simp add: bindA_def retA_def split: prod.split sum.split)
  then have "send_result ev (Inr res) False False (Some sql) (sv1, c) = send_rows res False SERVER_STATUS_AUTOCOMMIT (?sv2, c)"
    using assms(3) sv2(2) by (simp add: send_result_def status_flags_of_def bindA_def)
  then have "run_statements ev sql [StSelect sel] (sv, c) = send_rows res False SERVER_STATUS_AUTOCOMMIT (?sv2, c)"
    using e by (cases "send_rows res False SERVER_STATUS_AUTOCOMMIT (?sv2, c)") (simp add: bindA_def catchA_def retA_def split: sum.split)
  then have "handle_query ev sql (sv, c) = send_rows res False SERVER_STATUS_AUTOCOMMIT (?sv2, c)"
    using assms(1) by (simp add: handle_query_def bindA_def liftA_def catchA_def getC_def del: run_statements.simps)
  then show ?thesis using sv1 sv2(1) by (intro exI [of _ ?sv2]) simp
qed

section \<open>Result\<close>


text \<open>
  A connection in the middle of a transaction, whose query sees the row the transaction has inserted.
\<close>

definition demo_sql :: string where
  "demo_sql = ''SELECT max(id) FROM t''"

definition demo_reader :: connection where
  "demo_reader = demo_connection []"


end
