(* ===== verification/Connection_Login.thy ===== *)
theory Connection_Login
  imports Connection_Io
begin

text \<open>
  The phases before the commands: whatever a client sends, it reaches the shared state only after a
  reply of its own was accepted for a challenge this connection had sent.
\<close>

section \<open>What handshake and authentication keep\<close>

definition same_login :: "session \<Rightarrow> session \<Rightarrow> bool" where
  "same_login s t \<longleftrightarrow>
     fst t = fst s \<and> cn_authenticator (snd t) = cn_authenticator (snd s)
     \<and> cn_connection_id (snd t) = cn_connection_id (snd s) \<and> cn_scramble (snd t) = cn_scramble (snd s)
     \<and> cn_prepared (snd t) = cn_prepared (snd s)"

interpretation login: act_frame same_login
  by unfold_locales (auto simp: same_login_def)

lemma read_packet_frame: "\<exists>es bs. snd (read_packet c) = with_input es bs c"
proof (induction c rule: read_packet.induct)
  case (1 c)
  show ?case
  proof (cases "oversized c = None \<and> parse_packet (cn_read_buf c) = Ok None \<and> (\<exists>bs es. cn_reads c = ReadData bs # es \<and> bs \<noteq> [])")
    case True
    then obtain bs es where e: "oversized c = None" "parse_packet (cn_read_buf c) = Ok None"
      "cn_reads c = ReadData bs # es" "bs \<noteq> []" by blast
    let ?d = "c\<lparr>cn_read_buf := cn_read_buf c @ take READ_CHUNK bs, cn_reads := prefixed_stream (drop READ_CHUNK bs) es\<rparr>"
    have "read_packet c = read_packet ?d" using e by (simp add: read_packet.simps [of c])
    moreover have "with_input es' bs' ?d = with_input es' bs' c" for es' bs' by (simp add: with_input_def)
    ultimately show ?thesis using "1.IH" [OF e(1,2) refl e(3) refl e(4)] by auto
  next
    case False
    have c: "c = with_input (cn_reads c) (cn_read_buf c) c" "c\<lparr>cn_reads := es\<rparr> = with_input es (cn_read_buf c) c"
      "c\<lparr>cn_read_buf := bs\<rparr> = with_input (cn_reads c) bs c" for es bs
      by (simp_all add: with_input_def)
    from False show ?thesis
      by (auto simp: read_packet.simps [of c] split: option.splits sum.splits prod.splits list.splits read_event.splits
          intro: c)
  qed
qed

lemma login_basic:
  "keeps same_login timed_read" "keeps same_login bump_sequence" "keeps same_login (send_packet enc)"
  "keeps same_login upgrade_to_tls"
proof -
  show "keeps same_login timed_read"
    unfolding keeps_def
  proof
    fix s :: session
    obtain r c where c: "read_packet (snd s) = (r, c)" by (cases "read_packet (snd s)")
    then obtain es bs where "c = with_input es bs (snd s)" using read_packet_frame [of "snd s"] by auto
    then show "same_login s (snd (timed_read s))" using c by (simp add: timed_read_def same_login_def with_input_def)
  qed
  show "keeps same_login (send_packet enc)" by (rule login.keeps_send) (simp add: same_login_def)
qed (auto simp: keeps_def same_login_def bump_sequence_def modC_def upgrade_to_tls_def Let_def split: option.split sum.split)

lemma login_read: "keeps same_login read_handshake_packet"
  unfolding read_handshake_packet_def read_packet_before_connect_timeout_def
  by (intro login.keeps_parts login_basic)

lemma login_verdict: "keeps same_login (send_verdict response plugin outcome)"
  unfolding send_verdict_def by (cases outcome) (auto intro!: login.keeps_parts login_basic)

lemma keepsD: "keeps R m \<Longrightarrow> m s = (r, t) \<Longrightarrow> R s t"
  unfolding keeps_def by (metis snd_conv)

text \<open>Setting the challenge first, as both phases do, leaves that challenge in the state.\<close>

lemma login_challenge:
  assumes "bindA (modC (\<lambda>c. c\<lparr>cn_scramble := sc\<rparr>)) (\<lambda>_. m) s = (r, t)" "keeps same_login m"
  shows "fst t = fst s" "cn_authenticator (snd t) = cn_authenticator (snd s)"
    "cn_connection_id (snd t) = cn_connection_id (snd s)" "cn_scramble (snd t) = sc" "cn_prepared (snd t) = cn_prepared (snd s)"
  using keepsD [OF assms(2), of "(fst s, (snd s)\<lparr>cn_scramble := sc\<rparr>)" r t] assms(1)
  by (simp_all add: bindA_def modC_def same_login_def)

lemma perform_handshake_login:
  assumes "perform_handshake raw s = (r, t)"
  shows "fst t = fst s" "cn_authenticator (snd t) = cn_authenticator (snd s)"
    "cn_connection_id (snd t) = cn_connection_id (snd s)" "cn_scramble (snd t) = generate_scramble raw"
    "cn_prepared (snd t) = cn_prepared (snd s)"
proof -
  let ?h = "handshake_new raw (cn_connection_id (snd s)) (sv_version (cn_system_variables (snd s)))
    (cn_tls_acceptor (snd s) \<noteq> None) (wire_name (cn_default_auth_plugin (snd s)))"
  have sc: "hs_auth_plugin_data ?h = generate_scramble raw" by (simp add: handshake_new_def Let_def)
  have "bindA (modC (\<lambda>c. c\<lparr>cn_scramble := generate_scramble raw\<rparr>)) (\<lambda>_.
     bindA (send_packet (handshake_to_packet ?h)) (\<lambda>_.
     bindA bump_sequence (\<lambda>_.
     bindA read_handshake_packet (\<lambda>packet.
     bindA (getC (\<lambda>c. cn_tls_acceptor c \<noteq> None \<and> response_has_ssl_flag (pk_payload packet))) (\<lambda>ssl.
     bindA (if ssl then bindA upgrade_to_tls (\<lambda>_. read_handshake_packet) else retA packet) (\<lambda>response_packet.
     liftA (parse_handshake_response (pk_payload response_packet)))))))) s = (r, t)"
    using assms sc unfolding perform_handshake_def bindA_def [of "getC _"] getC_def [of _ s] by simp
  from login_challenge [OF this] show "fst t = fst s" "cn_authenticator (snd t) = cn_authenticator (snd s)"
    "cn_connection_id (snd t) = cn_connection_id (snd s)" "cn_scramble (snd t) = generate_scramble raw"
    "cn_prepared (snd t) = cn_prepared (snd s)"
    by (auto intro!: login.keeps_parts login_basic login_read)
qed

lemma auth_switch_login:
  assumes "auth_switch raw plugin s = (r, t)"
  shows "fst t = fst s" "cn_authenticator (snd t) = cn_authenticator (snd s)"
    "cn_connection_id (snd t) = cn_connection_id (snd s)" "cn_scramble (snd t) = generate_scramble raw"
    "cn_prepared (snd t) = cn_prepared (snd s)"
  using login_challenge [OF assms [unfolded auth_switch_def]]
  by (auto intro!: login.keeps_parts login_basic login_read)

section \<open>Logging in\<close>

text \<open>
  The client proved itself: its reply, in the handshake response or to a switch of the plugin, was
  accepted for the challenge the server had sent before it.
\<close>

definition logged_in :: "u8 list \<Rightarrow> u8 list \<Rightarrow> session \<Rightarrow> bool" where
  "logged_in raw1 raw2 s \<longleftrightarrow>
     (\<exists>response s1. perform_handshake raw1 s = (Ok response, s1) \<and>
        (let plugin = target_plugin_of (snd s1) response;
             accepts = (\<lambda>reply challenge. authenticate (cn_authenticator (snd s)) (hr_username response) plugin reply challenge = AuthOk)
         in if client_plugin_of (snd s1) response = plugin
            then accepts (hr_auth_response response) (generate_scramble raw1)
            else \<exists>reply s2. auth_switch raw2 plugin s1 = (Ok reply, s2) \<and> accepts reply (generate_scramble raw2)))"

lemma bindA_ret_Ok: "bindA m (\<lambda>_. bindA n (\<lambda>_. retA a)) s = (Ok x, t) \<Longrightarrow> x = a"
  by (auto simp: bindA_def retA_def split: sum.splits prod.splits)

lemma bindA_getC: "bindA (getC f) g s = g (f (snd s)) s"
  by (simp add: bindA_def getC_def)

lemma conn_authenticate_login:
  assumes "conn_authenticate raw response s = (r, t)"
  shows "fst t = fst s" "cn_connection_id (snd t) = cn_connection_id (snd s)" "cn_prepared (snd t) = cn_prepared (snd s)"
    "r = Ok AuthOk \<Longrightarrow>
       (let plugin = target_plugin_of (snd s) response;
            accepts = (\<lambda>reply challenge. authenticate (cn_authenticator (snd s)) (hr_username response) plugin reply challenge = AuthOk)
        in if client_plugin_of (snd s) response = plugin
           then accepts (hr_auth_response response) (cn_scramble (snd s))
           else \<exists>reply s2. auth_switch raw plugin s = (Ok reply, s2) \<and> accepts reply (generate_scramble raw))"
proof -
  let ?p = "target_plugin_of (snd s) response"
  let ?first = "if client_plugin_of (snd s) response = ?p then retA (hr_auth_response response) else auth_switch raw ?p"
  let ?rest = "\<lambda>auth_response. bindA (getC (\<lambda>c. authenticate (cn_authenticator c) (hr_username response) ?p auth_response (cn_scramble c)))
     (\<lambda>outcome. bindA (send_verdict response ?p outcome) (\<lambda>_. bindA bump_sequence (\<lambda>_. retA outcome)))"
  obtain m s2 where f: "?first s = (m, s2)" by (cases "?first s")
  have c: "(case m of Inl e \<Rightarrow> (Inl e, s2) | Inr reply \<Rightarrow> ?rest reply s2) = (r, t)"
    using assms f by (simp add: conn_authenticate_def bindA_def [of "getC _" _ s] getC_def [of _ s] bindA_def [of ?first])
  have s2: "cn_prepared (snd s2) = cn_prepared (snd s)" "fst s2 = fst s" "cn_authenticator (snd s2) = cn_authenticator (snd s)" "cn_connection_id (snd s2) = cn_connection_id (snd s)"
    "cn_scramble (snd s2) = (if client_plugin_of (snd s) response = ?p then cn_scramble (snd s) else generate_scramble raw)"
    using f auth_switch_login [of raw ?p s m s2] by (auto simp: retA_def split: if_splits)
  have k: "keeps same_login (?rest reply)" for reply
    by (intro login.keeps_parts login_basic login_verdict)
  have t: "fst t = fst s2 \<and> cn_connection_id (snd t) = cn_connection_id (snd s2) \<and> cn_prepared (snd t) = cn_prepared (snd s2)"
  proof (cases m)
    case (Inl e)
    then show ?thesis using c by simp
  next
    case (Inr reply)
    then show ?thesis using c keepsD [OF k, of reply s2 r t] by (simp add: same_login_def)
  qed
  then show "fst t = fst s" "cn_connection_id (snd t) = cn_connection_id (snd s)" "cn_prepared (snd t) = cn_prepared (snd s)"
    using s2 by simp_all
  assume "r = Ok AuthOk"
  then obtain reply where m: "m = Ok reply" "?rest reply s2 = (Ok AuthOk, t)" using c by (cases m) auto
  have "authenticate (cn_authenticator (snd s2)) (hr_username response) ?p reply (cn_scramble (snd s2)) = AuthOk"
    by (rule bindA_ret_Ok [OF m(2) [unfolded bindA_getC], symmetric])
  then have a: "authenticate (cn_authenticator (snd s)) (hr_username response) ?p reply
      (if client_plugin_of (snd s) response = ?p then cn_scramble (snd s) else generate_scramble raw) = AuthOk"
    unfolding s2(3,5) .
  have "reply = hr_auth_response response" if "client_plugin_of (snd s) response = ?p"
    using f that unfolding m(1) by (simp add: retA_def)
  moreover have "auth_switch raw ?p s = (Ok reply, s2)" if "client_plugin_of (snd s) response \<noteq> ?p"
    using f that unfolding m(1) by simp
  ultimately show "let plugin = ?p;
            accepts = (\<lambda>reply challenge. authenticate (cn_authenticator (snd s)) (hr_username response) plugin reply challenge = AuthOk)
        in if client_plugin_of (snd s) response = plugin
           then accepts (hr_auth_response response) (cn_scramble (snd s))
           else \<exists>reply s2. auth_switch raw plugin s = (Ok reply, s2) \<and> accepts reply (generate_scramble raw)"
    using a unfolding Let_def by (cases "client_plugin_of (snd s) response = ?p") auto
qed

lemma handle_phases_login:
  assumes "handle_phases ev raw1 raw2 s = (r, t)"
  shows "logged_in raw1 raw2 s \<or> fst t = fst s \<and> cn_connection_id (snd t) = cn_connection_id (snd s)"
proof -
  obtain m s1 where h: "perform_handshake raw1 s = (m, s1)" by (cases "perform_handshake raw1 s")
  note s1 = perform_handshake_login [OF h]
  show ?thesis
  proof (cases m)
    case (Inl e)
    then show ?thesis using assms h s1 by (simp add: handle_phases_def bindA_def)
  next
    case (Inr response)
    obtain q s2 where a: "conn_authenticate raw2 response s1 = (q, s2)" by (cases "conn_authenticate raw2 response s1")
    note l = conn_authenticate_login [OF a]
    show ?thesis
    proof (cases "q = Ok AuthOk")
      case True
      then have "logged_in raw1 raw2 s"
        using l(4) h Inr unfolding logged_in_def s1(2,4) by blast
      then show ?thesis ..
    next
      case False
      then have "t = s2"
        using assms h Inr a by (cases q) (simp_all add: handle_phases_def bindA_def retA_def)
      then show ?thesis using l(1,2) s1 by simp
    qed
  qed
qed

text \<open>
  Claim (C9). No effect without a login.  On a connection that has neither a transaction nor a lock
  yet, whatever bytes the client sends and however reads, writes and the TLS layer behave: unless a
  reply of the client was accepted by its account's plugin for the challenge this connection sent to
  it, the shared state of the server (the store and its log, all transactions and locks, the
  counters) is the same after the connection as before.
\<close>

theorem no_effect_without_login:
  assumes "\<not> logged_in raw1 raw2 (sv, c)"
    and "w_tx (sr_world sv) (conn_no c) = None" "conn_no c \<notin> ran (w_locks (sr_world sv))"
  shows "fst (snd (handle_connection ev raw1 raw2 (sv, c))) = sv"
proof -
  obtain r t where t: "handle_phases ev raw1 raw2 (sv, c) = (r, t)" by (cases "handle_phases ev raw1 raw2 (sv, c)")
  have same: "fst t = sv" "cn_connection_id (snd t) = cn_connection_id c"
    using handle_phases_login [OF t] assms(1) by auto
  have "release_locks (w_locks (sr_world sv)) (conn_no c) = w_locks (sr_world sv)"
    using assms(3) by (auto simp: release_locks_def fun_eq_iff ran_def)
  moreover have "(w_tx (sr_world sv))(conn_no c := None) = w_tx (sr_world sv)" using assms(2) by (simp add: fun_upd_idem)
  ultimately have "finish_tx (sr_world sv) (w_store (sr_world sv)) (conn_no c) = sr_world sv" by (simp add: finish_tx_def)
  then show ?thesis using t same by (simp add: handle_connection_def drop_connection_def)
qed

text \<open>A server whose configuration names no user lets nobody in.\<close>

lemma no_accounts_no_login:
  assumes "cf_users cfg = []"
  shows "\<not> logged_in raw1 raw2 (sv, connection_new reads writes cfg k)"
  using assms by (auto simp: logged_in_def connection_new_def authenticate_def authenticator_new_def Let_def)

theorem no_effect_without_login_witness:
  "fst (snd (handle_connection demo_env [1, 2] [3, 4] (demo_server, demo_connection demo_chunks))) = demo_server"
proof -
  have "\<not> logged_in [1, 2] [3, 4] (demo_server, demo_connection demo_chunks)"
    unfolding demo_connection_def by (rule no_accounts_no_login) (simp add: config_default_def)
  then show ?thesis
    using no_effect_without_login [of "[1, 2]" "[3, 4]" demo_server "demo_connection demo_chunks" demo_env]
    by (simp add: demo_server_def world_start_def)
qed

end
