(* ===== verification/Connection_World.thy ===== *)
theory Connection_World
  imports Connection_Io
begin

text \<open>
  The commands of a connection as steps of the transaction model: parsing, execution and the
  handlers of the connection together do nothing to the shared store, the transactions and the locks
  that the step relation of \<^verbatim>\<open>Storage_Tx\<close> does not allow, so its invariant holds while commands are
  served.
\<close>

section \<open>Statements as steps\<close>

definition steps_of :: "((string \<rightharpoonup> row list) \<Rightarrow> string list) \<Rightarrow> nat \<Rightarrow> world \<Rightarrow> world \<Rightarrow> bool" where
  "steps_of pord k w w' \<longleftrightarrow>
     (tx_step pord)\<^sup>*\<^sup>* w w' \<and>
     (\<forall>j. j \<noteq> k \<longrightarrow> w_tx w' j = w_tx w j \<and> (\<forall>n. w_locks w' n = Some j \<longleftrightarrow> w_locks w n = Some j))"

lemma steps_of_refl: "steps_of pord k w w"
  by (simp add: steps_of_def)

lemma steps_of_trans: "steps_of pord k w w' \<Longrightarrow> steps_of pord k w' w'' \<Longrightarrow> steps_of pord k w w''"
  by (auto simp: steps_of_def)

lemma steps_of_step:
  "tx_step pord w w' \<Longrightarrow> (\<And>j. j \<noteq> k \<Longrightarrow> w_tx w' j = w_tx w j) \<Longrightarrow>
     (\<And>j n. j \<noteq> k \<Longrightarrow> w_locks w' n = Some j \<longleftrightarrow> w_locks w n = Some j) \<Longrightarrow> steps_of pord k w w'"
  by (simp add: steps_of_def r_into_rtranclp)

text \<open>Numbering rows draws numbers from the table's counter and does nothing else.\<close>

definition draws :: "string \<Rightarrow> engine \<Rightarrow> engine \<Rightarrow> bool" where
  "draws n = (\<lambda>en en'. \<exists>v. next_auto_increment en n = (v, en'))\<^sup>*\<^sup>*"

lemma draws_refl: "draws n en en"
  by (simp add: draws_def)

lemma draws_trans: "draws n a b \<Longrightarrow> draws n b c \<Longrightarrow> draws n a c"
  by (simp add: draws_def)

lemma number_null_draws:
  assumes "number_null h n col v = (r, h')"
  shows "draws n (fst h) (fst h') \<and> snd h' = snd h"
proof (cases "v = VNull \<and> cs_auto_increment col")
  case True
  obtain r1 en' where e: "next_auto_increment (fst h) n = (r1, en')" by fastforce
  then have "h' = (en', snd h)"
    using assms True by (auto simp: number_null_def st_next_auto_increment_def on_engine_def split: prod.splits)
  then show ?thesis using e by (auto simp: draws_def)
qed (use assms in \<open>auto simp: number_null_def draws_refl\<close>)

lemma insert_values_draws:
  "insert_values h n ecs = (r, h') \<Longrightarrow> draws n (fst h) (fst h') \<and> snd h' = snd h"
proof (induction ecs arbitrary: h r h')
  case (Cons ec rest)
  obtain e col where ec: "ec = (e, col)" by (cases ec)
  show ?case
  proof (cases "coerce e (cs_type col) (cs_name col)")
    case (Inl x)
    then show ?thesis using Cons.prems ec by (simp add: draws_refl)
  next
    case (Inr v)
    obtain r1 h1 where 1: "number_null h n col v = (r1, h1)" by (cases "number_null h n col v")
    note n = number_null_draws [OF 1]
    obtain r2 h2 where r: "insert_values h1 n rest = (r2, h2)" by (cases "insert_values h1 n rest")
    have "h' = h1 \<or> h' = h2" using Cons.prems ec Inr 1 r by (auto split: sum.splits if_splits)
    with n Cons.IH [OF r] show ?thesis using draws_trans by auto
  qed
qed (simp add: draws_refl)

lemma insert_batch_draws:
  "insert_batch h n schema columns rows = (r, h') \<Longrightarrow>
     draws n (fst h) (fst h') \<and> snd h' = snd h \<and> (\<forall>batch. r = Ok batch \<longrightarrow> (\<exists>rs. batch = map (\<lambda>row. (n, row)) rs))"
proof (induction rows arbitrary: h r h')
  case (Cons row rows)
  show ?case
  proof (cases "ordered_exprs n schema columns row")
    case (Inl x)
    then show ?thesis using Cons.prems by (auto simp: draws_refl)
  next
    case (Inr es)
    obtain r1 h1 where 1: "insert_values h n (zip es (ts_columns schema)) = (r1, h1)"
      by (cases "insert_values h n (zip es (ts_columns schema))")
    obtain r2 h2 where 2: "insert_batch h1 n schema columns rows = (r2, h2)" by (cases "insert_batch h1 n schema columns rows")
    note i = insert_values_draws [OF 1] and IH = Cons.IH [OF 2]
    have "(\<exists>x. r = Inl x) \<and> h' = h1 \<or> (\<exists>vs. r = map_result (Cons (n, vs)) r2) \<and> h' = h2"
      using Cons.prems Inr 1 2 by (auto split: sum.splits)
    then show ?thesis
    proof (elim disjE conjE exE)
      fix vs
      assume r: "r = map_result (Cons (n, vs)) r2" "h' = h2"
      have "\<exists>rs. batch = map (\<lambda>row. (n, row)) rs" if b: "r = Ok batch" for batch
      proof -
        obtain b' rs where "r2 = Ok b'" "batch = (n, vs) # b'" "b' = map (\<lambda>row. (n, row)) rs"
          using b r IH by (auto simp: map_result_Ok_iff)
        then show ?thesis by (intro exI [of _ "vs # rs"]) simp
      qed
      then show ?thesis using r(2) i IH draws_trans by auto
    qed (use i in auto)
  qed
qed (auto simp: draws_refl)

lemma draws_steps: "draws n en en' \<Longrightarrow> steps_of pord k (w\<lparr>w_store := en\<rparr>) (w\<lparr>w_store := en'\<rparr>)"
  unfolding draws_def
proof (induction rule: rtranclp_induct)
  case base
  show ?case by (rule steps_of_refl)
next
  case (step a b)
  then obtain v where v: "next_auto_increment a n = (v, b)" by blast
  have "tx_step pord (w\<lparr>w_store := a\<rparr>) ((w\<lparr>w_store := a\<rparr>)\<lparr>w_store := b\<rparr>)" by (rule step_next_auto) (use v in simp)
  then have "steps_of pord k (w\<lparr>w_store := a\<rparr>) (w\<lparr>w_store := b\<rparr>)" by (intro steps_of_step) simp_all
  then show ?case using step.IH steps_of_trans by blast
qed

text \<open>An INSERT: numbers are drawn, and then the rows of the batch, or none, are inserted.\<close>

lemma execute_insert_cases:
  assumes "execute_insert io h n columns rows = (r, h')"
  obtains h1 rs where "draws n (fst h) (fst h1)" "snd h1 = snd h"
    "h' = h1 \<or> (\<exists>r'. st_insert_rows io h1 (map (\<lambda>row. (n, row)) rs) = (r', h'))"
proof (cases "st_table_schema h n")
  case (Inl x)
  then show ?thesis using assms that [of h] by (simp add: execute_insert_def draws_refl)
next
  case (Inr schema)
  obtain b h1 where b: "insert_batch h n schema columns rows = (b, h1)" by (cases "insert_batch h n schema columns rows")
  note d = insert_batch_draws [OF b]
  show ?thesis
  proof (cases b)
    case (Inl x)
    then show ?thesis using assms Inr b d that [of h1] by (simp add: execute_insert_def)
  next
    case (Inr batch)
    then obtain rs where "batch = map (\<lambda>row. (n, row)) rs" using d by blast
    then show ?thesis
      using assms \<open>st_table_schema h n = Ok schema\<close> b d Inr that [of h1 rs]
      by (auto simp: execute_insert_def split: prod.splits)
  qed
qed

lemma insert_in_tx_steps:
  assumes w: "w_tx w k = Some tx" "ensure_locked w k tx n = Ok (tx1, lk)"
    and e: "execute_insert io (w_store w, Some tx1) n columns rows = (r, (en', t'))"
  shows "steps_of pord k w (w\<lparr>w_store := en', w_tx := (w_tx w)(k := t'), w_locks := lk\<rparr>)"
proof -
  have lk: "(w_locks w m = Some j) = (lk m = Some j)" if "j \<noteq> k" for j m
    using w(2) that by (auto simp: ensure_locked_def split: if_splits)
  have step: "steps_of pord k w (w\<lparr>w_store := en1, w_tx := (w_tx w)(k \<mapsto> tx2), w_locks := lk\<rparr>)"
    if d: "draws n (w_store w) en1" and i: "tx_insert_rows en1 tx1 (map (\<lambda>row. (n, row)) rs) = (r1, tx2)" for en1 rs r1 tx2
  proof -
    let ?w = "w\<lparr>w_store := en1\<rparr>"
    have "ensure_locked ?w k tx n = Ok (tx1, lk)" using w(2) by (simp add: ensure_locked_def split: if_splits)
    then have "tx_step pord ?w (?w\<lparr>w_tx := (w_tx ?w)(k \<mapsto> tx2), w_locks := lk\<rparr>)"
      by (rule step_insert [rotated]) (use w(1) i in simp_all)
    then have "steps_of pord k ?w (w\<lparr>w_store := en1, w_tx := (w_tx w)(k \<mapsto> tx2), w_locks := lk\<rparr>)"
      by (intro steps_of_step) (simp_all add: lk)
    moreover have "steps_of pord k (w\<lparr>w_store := w_store w\<rparr>) ?w" by (rule draws_steps [OF d])
    ultimately show ?thesis using steps_of_trans by simp
  qed
  obtain h1 rs where h: "draws n (w_store w) (fst h1)" "snd h1 = Some tx1"
    "(en', t') = h1 \<or> (\<exists>r'. st_insert_rows io h1 (map (\<lambda>row. (n, row)) rs) = (r', (en', t')))"
    using execute_insert_cases [OF e] by auto
  from h(3) show ?thesis
  proof (elim disjE exE)
    assume "(en', t') = h1"
    then show ?thesis using step [of en' "[]" "Ok ()" tx1] h by auto
  next
    fix r'
    assume "st_insert_rows io h1 (map (\<lambda>row. (n, row)) rs) = (r', (en', t'))"
    then obtain tx2 where "tx_insert_rows (fst h1) tx1 (map (\<lambda>row. (n, row)) rs) = (r', tx2)" "en' = fst h1" "t' = Some tx2"
      using h(2) by (auto simp: st_insert_rows_def split: prod.splits)
    then show ?thesis using step h(1) by auto
  qed
qed

lemma insert_autocommit_steps:
  assumes w: "w_tx w k = None" "w_locks w n = None"
    and e: "execute_insert io (w_store w, None) n columns rows = (r, (en', t'))"
  shows "steps_of pord k w (w\<lparr>w_store := en', w_tx := (w_tx w)(k := t')\<rparr>)"
proof -
  obtain h1 rs where h: "draws n (w_store w) (fst h1)" "snd h1 = None"
    "(en', t') = h1 \<or> (\<exists>r'. st_insert_rows io h1 (map (\<lambda>row. (n, row)) rs) = (r', (en', t')))"
    using execute_insert_cases [OF e] by auto
  have d: "steps_of pord k w (w\<lparr>w_store := fst h1\<rparr>)" using draws_steps [OF h(1), of pord k w] by simp
  have tx: "(w_tx w)(k := None) = w_tx w" using w(1) by (simp add: fun_upd_idem)
  from h(3) show ?thesis
  proof (elim disjE exE)
    assume "(en', t') = h1"
    then show ?thesis using d h tx by auto
  next
    fix r'
    assume "st_insert_rows io h1 (map (\<lambda>row. (n, row)) rs) = (r', (en', t'))"
    then have i: "insert_rows io (fst h1) (map (\<lambda>row. (n, row)) rs) = (r', en')" "t' = None"
      using h(2) by (auto simp: st_insert_rows_def on_engine_def split: prod.splits)
    let ?w = "w\<lparr>w_store := fst h1\<rparr>"
    have "tx_step pord ?w (?w\<lparr>w_store := en'\<rparr>)" by (rule step_autocommit [of _ k n]) (use w i in simp_all)
    then have "steps_of pord k ?w (w\<lparr>w_store := en'\<rparr>)" by (intro steps_of_step) simp_all
    then show ?thesis using d steps_of_trans i(2) tx by simp
  qed
qed

text \<open>Statements that change names of tables and databases, and those that only read.\<close>

definition no_alter :: "statement \<Rightarrow> bool" where
  "no_alter st = (case st of StAlterTable table action \<Rightarrow> False | _ \<Rightarrow> True)"

lemma other_statement_steps:
  assumes "execute od vars io (w_store w, t) st = (r, (en', t'))" "no_alter st" "insert_table st = None"
  shows "t' = t \<and> steps_of pord k w (w\<lparr>w_store := en'\<rparr>)"
proof -
  have step: "steps_of pord k w (w\<lparr>w_store := en'\<rparr>)" if "tx_step pord w (w\<lparr>w_store := en'\<rparr>)"
    using that by (intro steps_of_step) simp_all
  show ?thesis
  proof (cases st)
    case (StCreateTable table columns)
    then show ?thesis
      using assms(1) step step_create_table [of io w] steps_of_refl [of pord k w]
      by (auto simp: execute_def execute_create_table_def st_create_table_def on_engine_def split: prod.splits sum.splits)
  next
    case (StCreateDatabase name ine)
    then show ?thesis
      using assms(1) step step_create_database [of io w]
      by (auto simp: execute_def st_create_database_def on_engine_def split: prod.splits)
  next
    case (StDropDatabase name ie)
    then show ?thesis
      using assms(1) step step_drop_database [of io w]
      by (auto simp: execute_def st_drop_database_def on_engine_def split: prod.splits)
  qed (use assms steps_of_refl in \<open>auto simp: execute_def no_alter_def insert_table_def\<close>)
qed

section \<open>Commands as steps\<close>

definition prepared_within :: "(statement \<Rightarrow> bool) \<Rightarrow> connection \<Rightarrow> bool" where
  "prepared_within P c \<longleftrightarrow> (\<forall>i p. cn_prepared c i = Some p \<longrightarrow> P (pp_statement p))"

text \<open>
  What a command does to the world, on a connection none of whose prepared statements is an ALTER
  TABLE: steps of this connection, and the prepared statements stay as they should.
\<close>

definition world_frame :: "env \<Rightarrow> session \<Rightarrow> session \<Rightarrow> bool" where
  "world_frame ev s t \<longleftrightarrow>
     (prepared_within no_alter (snd s) \<longrightarrow>
        prepared_within no_alter (snd t) \<and> cn_connection_id (snd t) = cn_connection_id (snd s)
        \<and> steps_of (ev_pending ev) (conn_no (snd s)) (sr_world (fst s)) (sr_world (fst t)))"

interpretation world: act_frame "world_frame ev" for ev
  by unfold_locales (auto simp: world_frame_def intro: steps_of_refl steps_of_trans)

lemma world_frameI:
  "snd t = snd s \<Longrightarrow> steps_of (ev_pending ev) (conn_no (snd s)) (sr_world (fst s)) (sr_world (fst t)) \<Longrightarrow> world_frame ev s t"
  by (simp add: world_frame_def)

lemma next_io_world: "next_io sv = (io, sv') \<Longrightarrow> sr_world sv' = sr_world sv"
  by (auto simp: next_io_def split: list.splits)

lemma finish_tx_others:
  "j \<noteq> k \<Longrightarrow> w_tx (finish_tx w en k) j = w_tx w j"
  "j \<noteq> k \<Longrightarrow> w_locks (finish_tx w en k) n = Some j \<longleftrightarrow> w_locks w n = Some j"
  by (auto simp: finish_tx_def release_locks_def)

lemma commit_open_frame: "keeps (world_frame ev) (commit_open ev)"
  unfolding keeps_def
proof
  fix s :: session
  let ?k = "conn_no (snd s)" and ?w = "sr_world (fst s)"
  show "world_frame ev s (snd (commit_open ev s))"
  proof (cases "w_tx ?w ?k")
    case None
    then show ?thesis by (simp add: commit_open_def Let_def world.R_refl)
  next
    case (Some tx)
    obtain io sv where io: "next_io (fst s) = (io, sv)" by (cases "next_io (fst s)")
    obtain r en where c: "tx_commit (ev_pending ev) io (w_store ?w) tx = (r, en)"
      by (cases "tx_commit (ev_pending ev) io (w_store ?w) tx")
    have "tx_step (ev_pending ev) ?w (finish_tx ?w en ?k)" unfolding finish_tx_def by (rule step_commit [OF Some c])
    then have "steps_of (ev_pending ev) ?k ?w (finish_tx ?w en ?k)" by (intro steps_of_step) (simp_all add: finish_tx_others)
    then show ?thesis using Some io c by (intro world_frameI) (simp_all add: commit_open_def Let_def)
  qed
qed

lemma commit_open_closes: "commit_open ev s = (Ok a, t) \<Longrightarrow> w_tx (sr_world (fst t)) (conn_no (snd t)) = None \<and> snd t = snd s"
  by (auto simp: commit_open_def Let_def finish_tx_def split: option.splits prod.splits)

lemma begin_frame: "keeps (world_frame ev) (begin_transaction ev)"
  unfolding keeps_def
proof
  fix s :: session
  obtain r t where c: "commit_open ev s = (r, t)" by (cases "commit_open ev s")
  have 1: "world_frame ev s t" using commit_open_frame c unfolding keeps_def by (metis snd_conv)
  show "world_frame ev s (snd (begin_transaction ev s))"
  proof (cases r)
    case (Inl e)
    then show ?thesis using 1 c by (simp add: begin_transaction_def bindA_def)
  next
    case (Inr a)
    let ?k = "conn_no (snd t)" and ?w = "sr_world (fst t)"
    have "w_tx ?w ?k = None" using commit_open_closes c Inr by blast
    then have "tx_step (ev_pending ev) ?w (?w\<lparr>w_tx := (w_tx ?w)(?k \<mapsto> tx_new)\<rparr>)" by (rule step_begin)
    then have "steps_of (ev_pending ev) ?k ?w (?w\<lparr>w_tx := (w_tx ?w)(?k \<mapsto> tx_new)\<rparr>)" by (intro steps_of_step) simp_all
    then have "world_frame ev t (snd (begin_transaction ev s))"
      using c Inr by (intro world_frameI) (simp_all add: begin_transaction_def bindA_def Let_def)
    then show ?thesis by (rule world.R_trans [OF 1])
  qed
qed

lemma rollback_frame: "keeps (world_frame ev) rollback_transaction"
  unfolding keeps_def
proof
  fix s :: session
  let ?k = "conn_no (snd s)" and ?w = "sr_world (fst s)"
  have "steps_of (ev_pending ev) ?k ?w (finish_tx ?w (w_store ?w) ?k)" if "w_tx ?w ?k = Some tx" for tx
  proof -
    have "tx_step (ev_pending ev) ?w (finish_tx ?w (w_store ?w) ?k)"
      using step_rollback [OF that, of "ev_pending ev"] by (simp add: finish_tx_def)
    then show ?thesis by (intro steps_of_step) (simp_all add: finish_tx_others)
  qed
  then show "world_frame ev s (snd (rollback_transaction s))"
    by (auto simp: rollback_transaction_def Let_def world.R_refl intro!: world_frameI split: option.split)
qed

text \<open>A statement that is no transaction control: lock, then run.\<close>

lemma run_insert_frame:
  assumes "insert_table st = Some n"
  shows "keeps (world_frame ev) (bindA (lock_for st) (\<lambda>_. run_statement ev st))"
  unfolding keeps_def
proof
  fix s :: session
  let ?k = "conn_no (snd s)" and ?w = "sr_world (fst s)" and ?m = "bindA (lock_for st) (\<lambda>_. run_statement ev st)"
  obtain columns rows where st: "st = StInsert n columns rows" using assms by (auto simp: insert_table_def split: statement.splits)
  obtain io sv where io: "next_io (fst s) = (io, sv)" by (cases "next_io (fst s)")
  show "world_frame ev s (snd (?m s))"
  proof (cases "w_tx ?w ?k")
    case None
    obtain r en t where e: "execute (ev_orders ev) (cn_system_variables (snd s)) io (w_store ?w, None) st = (r, (en, t))"
      by (metis prod.exhaust)
    show ?thesis
    proof (cases "w_locks ?w n = None")
      case True
      have i: "execute_insert io (w_store ?w, None) n columns rows = (r, (en, t))" using e st by (simp add: execute_def)
      have "steps_of (ev_pending ev) ?k ?w (?w\<lparr>w_store := en, w_tx := (w_tx ?w)(?k := t)\<rparr>)"
        by (rule insert_autocommit_steps [OF None True i])
      moreover have "?m s = (r, (sv\<lparr>sr_world := ?w\<lparr>w_store := en, w_tx := (w_tx ?w)(?k := t)\<rparr>\<rparr>, snd s))"
        using None True e io assms by (simp add: bindA_def lock_for_def run_statement_def Let_def)
      ultimately show ?thesis by (intro world_frameI) simp_all
    next
      case False
      then have "snd (?m s) = s" using None assms by (simp add: bindA_def lock_for_def Let_def)
      then show ?thesis by (simp add: world.R_refl)
    qed
  next
    case (Some tx)
    show ?thesis
    proof (cases "ensure_locked ?w ?k tx n")
      case (Inl e)
      then have "snd (?m s) = s" using Some assms by (simp add: bindA_def lock_for_def Let_def)
      then show ?thesis by (simp add: world.R_refl)
    next
      case (Inr x)
      obtain tx1 lk where l: "ensure_locked ?w ?k tx n = Ok (tx1, lk)" using Inr by (cases x) simp
      obtain r en t where e: "execute (ev_orders ev) (cn_system_variables (snd s)) io (w_store ?w, Some tx1) st = (r, (en, t))"
        by (metis prod.exhaust)
      have i: "execute_insert io (w_store ?w, Some tx1) n columns rows = (r, (en, t))" using e st by (simp add: execute_def)
      have "steps_of (ev_pending ev) ?k ?w (?w\<lparr>w_store := en, w_tx := (w_tx ?w)(?k := t), w_locks := lk\<rparr>)"
        by (rule insert_in_tx_steps [OF Some l i])
      moreover have n: "next_io (fst s\<lparr>sr_world := w'\<rparr>) = (io, sv\<lparr>sr_world := w'\<rparr>)" for w'
        using io by (auto simp: next_io_def split: list.splits)
      have "?m s = (r, (sv\<lparr>sr_world := ?w\<lparr>w_store := en, w_tx := (w_tx ?w)(?k := t), w_locks := lk\<rparr>\<rparr>, snd s))"
        using Some l e assms by (simp add: bindA_def lock_for_def run_statement_def Let_def n)
      ultimately show ?thesis by (intro world_frameI) simp_all
    qed
  qed
qed

lemma run_other_frame:
  assumes "insert_table st = None" "no_alter st"
  shows "keeps (world_frame ev) (bindA (lock_for st) (\<lambda>_. run_statement ev st))"
  unfolding keeps_def
proof
  fix s :: session
  let ?k = "conn_no (snd s)" and ?w = "sr_world (fst s)" and ?m = "bindA (lock_for st) (\<lambda>_. run_statement ev st)"
  obtain io sv where io: "next_io (fst s) = (io, sv)" by (cases "next_io (fst s)")
  obtain r en t where e: "execute (ev_orders ev) (cn_system_variables (snd s)) io (w_store ?w, w_tx ?w ?k) st = (r, (en, t))"
    by (metis prod.exhaust)
  have "t = w_tx ?w ?k \<and> steps_of (ev_pending ev) ?k ?w (?w\<lparr>w_store := en\<rparr>)"
    by (rule other_statement_steps [OF e assms(2,1)])
  moreover have "?m s = (r, (sv\<lparr>sr_world := ?w\<lparr>w_store := en, w_tx := (w_tx ?w)(?k := t)\<rparr>\<rparr>, snd s))"
    using e io assms by (simp add: bindA_def lock_for_def run_statement_def Let_def)
  ultimately show "world_frame ev s (snd (?m s))" by (intro world_frameI) simp_all
qed

lemma statement_frame:
  assumes "no_alter st"
  shows "keeps (world_frame ev) (execute_statement ev st)"
proof -
  have run: "keeps (world_frame ev) (bindA (lock_for st) (\<lambda>_. run_statement ev st))"
    using run_insert_frame run_other_frame assms by (cases "insert_table st") auto
  have commit: "keeps (world_frame ev) (commit_transaction ev)"
    unfolding commit_transaction_def by (intro world.keeps_parts commit_open_frame)
  show ?thesis
    unfolding execute_statement_def
    by (cases st) (use run commit begin_frame rollback_frame in auto)
qed

lemma bind_parameters_no_alter: "bind_parameters st params = Ok st' \<Longrightarrow> no_alter st \<Longrightarrow> no_alter st'"
  by (auto simp: bind_parameters_def no_alter_def result_simps split: statement.splits)

lemma prepared_frame:
  assumes "cn_prepared (snd s) i = Some p"
  shows "world_frame ev s (snd (execute_prepared ev payload p s))"
proof (cases "prepared_within no_alter (snd s)")
  case False
  then show ?thesis by (simp add: world_frame_def)
next
  case True
  then have "no_alter (pp_statement p)" using assms by (simp add: prepared_within_def)
  then have "world_frame ev s (snd (execute_statement ev st' s))"
    if "bind_parameters (pp_statement p) params = Ok st'" for params st'
    using statement_frame [OF bind_parameters_no_alter [OF that]] unfolding keeps_def by blast
  then show ?thesis
    by (auto simp: execute_prepared_def bindA_def liftA_def world.R_refl split: sum.split)
qed

interpretation world_handlers: handler_frame "world_frame ev" no_alter ev for ev
proof (unfold_locales, goal_cases)
  case (5 st sv c n i m)
  then show ?case by (auto simp: world_frame_def prepared_within_def steps_of_refl)
next
  case (6 sv c i)
  then show ?case by (auto simp: world_frame_def prepared_within_def steps_of_refl)
next
  case (7 st)
  then show ?case by (rule statement_frame)
next
  case (8 c i p sv payload)
  then show ?case using prepared_frame [of "(sv, c)" i p] by simp
qed (auto simp: world_frame_def prepared_within_def steps_of_refl with_metrics_def)

lemma serve_frame:
  assumes "\<forall>p \<in> set ps. list_all no_alter (command_statements ev (pk_payload p))"
  shows "world_frame ev s (snd (serve ev ps s))"
  using assms
proof (induction ps arbitrary: s)
  case Nil
  then show ?case by (simp add: world.R_refl)
next
  case (Cons p ps)
  obtain r t where h: "handle_command ev p s = (r, t)" by (cases "handle_command ev p s")
  have 1: "world_frame ev s t"
    using world_handlers.keeps_handle_command [of ev p] Cons.prems h unfolding keeps_def by (metis list.set_intros(1) snd_conv)
  have "world_frame ev t (snd (serve ev ps t))" using Cons by simp
  then show ?case using h 1 world.R_trans [OF 1] by (auto split: sum.split)
qed

text \<open>Every lock belongs to an open transaction that knows of it.\<close>

definition locks_owned :: "world \<Rightarrow> bool" where
  "locks_owned w \<longleftrightarrow> (\<forall>n k. w_locks w n = Some k \<longrightarrow> (\<exists>tx. w_tx w k = Some tx \<and> n \<in> tx_locked tx))"

lemma tx_insert_rows_locked: "tx_insert_rows en tx rows = (r, tx') \<Longrightarrow> tx_locked tx' = tx_locked tx"
proof (induction rows arbitrary: tx)
  case (Cons nr rows)
  obtain n row where nr: "nr = (n, row)" by (cases nr)
  obtain r1 tx1 where t: "tx_insert_row en tx n row = (r1, tx1)" by (cases "tx_insert_row en tx n row")
  then have "tx_locked tx1 = tx_locked tx" by (auto simp: tx_insert_row_def split: sum.splits)
  then show ?case using Cons nr t by (auto split: sum.splits)
qed simp

lemma locks_owned_step:
  assumes "tx_step pord w w'" "locks_owned w"
  shows "locks_owned w'"
  using assms(1)
proof cases
  case (step_begin c)
  then have "w_locks w n \<noteq> Some c" for n using assms(2) unfolding locks_owned_def by fastforce
  then show ?thesis using step_begin assms(2) by (auto simp: locks_owned_def)
next
  case (step_insert c tx n tx1 lk rows r tx2)
  have "tx_locked tx2 = tx_locked tx1" by (rule tx_insert_rows_locked [OF step_insert(4)])
  moreover have "m \<in> tx_locked tx" if "w_locks w m = Some c" for m
    using assms(2) that step_insert(2) unfolding locks_owned_def by fastforce
  ultimately show ?thesis
    using step_insert assms(2) by (auto simp: locks_owned_def ensure_locked_def split: if_splits)
qed (use assms(2) in \<open>auto simp: locks_owned_def release_locks_def split: if_splits\<close>)

lemma locks_owned_reachable: "(tx_step pord)\<^sup>*\<^sup>* w w' \<Longrightarrow> locks_owned w \<Longrightarrow> locks_owned w'"
  by (induction rule: rtranclp_induct) (simp_all add: locks_owned_step)

text \<open>Ending a connection rolls its transaction back, if it has one, and changes nothing otherwise.\<close>

lemma finish_tx_steps:
  assumes "locks_owned w"
  shows "steps_of pord k w (finish_tx w (w_store w) k)"
proof (cases "w_tx w k")
  case None
  then have "w_locks w n \<noteq> Some k" for n using assms unfolding locks_owned_def by fastforce
  then have "finish_tx w (w_store w) k = w"
    using None by (auto simp: finish_tx_def release_locks_def fun_eq_iff fun_upd_idem)
  then show ?thesis by (simp add: steps_of_refl)
next
  case (Some tx)
  then have "tx_step pord w (finish_tx w (w_store w) k)" using step_rollback [OF Some, of pord] by (simp add: finish_tx_def)
  then show ?thesis by (intro steps_of_step) (simp_all add: finish_tx_others)
qed

text \<open>
  Claim (C7). Serving commands refines the transaction model.  On a world that satisfies the
  invariant and whose locks all belong to open transactions, let a connection serve any commands (text queries, prepared statements and their
  executions, whatever their parameters) that contain no ALTER TABLE, and then end, at whatever
  point.  The world then results from steps of the transaction model, satisfies both again, and
  as far as other connections are concerned has the same transactions and the same locks; nothing is
  left of this connection's transaction or locks.
\<close>

theorem commands_refine_steps:
  assumes "world_inv (sr_world sv)" "locks_owned (sr_world sv)" "prepared_within no_alter c"
    and "\<forall>p \<in> set ps. list_all no_alter (command_statements ev (pk_payload p))"
    and "w' = sr_world (fst (drop_connection (snd (serve ev ps (sv, c)))))"
  shows "(tx_step (ev_pending ev))\<^sup>*\<^sup>* (sr_world sv) w' \<and> world_inv w' \<and> locks_owned w' \<and>
    w_tx w' (conn_no c) = None \<and> conn_no c \<notin> ran (w_locks w') \<and>
    (\<forall>j. j \<noteq> conn_no c \<longrightarrow> w_tx w' j = w_tx (sr_world sv) j \<and> (\<forall>n. w_locks w' n = Some j \<longleftrightarrow> w_locks (sr_world sv) n = Some j))"
proof -
  obtain r sv1 c1 where s: "serve ev ps (sv, c) = (r, (sv1, c1))" by (metis prod.exhaust)
  have 1: "steps_of (ev_pending ev) (conn_no c) (sr_world sv) (sr_world sv1)" "conn_no c1 = conn_no c"
    using serve_frame [OF assms(4), of "(sv, c)"] s assms(3) by (auto simp: world_frame_def)
  have inv: "locks_owned (sr_world sv1)" using 1(1) assms(2) locks_owned_reachable by (auto simp: steps_of_def)
  have w': "w' = finish_tx (sr_world sv1) (w_store (sr_world sv1)) (conn_no c)"
    using assms(5) s 1(2) by (simp add: drop_connection_def Let_def)
  have "steps_of (ev_pending ev) (conn_no c) (sr_world sv) w'"
    using steps_of_trans [OF 1(1) finish_tx_steps [OF inv]] w' by simp
  moreover have "w_tx w' (conn_no c) = None" "conn_no c \<notin> ran (w_locks w')"
    by (auto simp: w' finish_tx_def release_locks_def ran_def split: if_splits)
  ultimately show ?thesis
    using world_inv_reachable [OF _ assms(1)] locks_owned_reachable [OF _ assms(2)] unfolding steps_of_def by blast
qed

definition demo_insert :: packet where
  "demo_insert = command_packet (COM_QUERY # as_bytes ''BEGIN; INSERT INTO t VALUES (9, NULL)'')"

theorem commands_refine_steps_witness:
  "world_inv (sr_world (fst (drop_connection (snd (serve demo_env [demo_insert] (demo_server, demo_connection []))))))"
proof -
  have u: "from_utf8 (as_bytes ''BEGIN; INSERT INTO t VALUES (9, NULL)'') = Some ''BEGIN; INSERT INTO t VALUES (9, NULL)''"
    by code_simp
  have p: "parse_many ascii_only ''BEGIN; INSERT INTO t VALUES (9, NULL)'' = Ok [StBegin, StInsert ''t'' None [[EInteger 9, ENull]]]"
    by code_simp
  have "\<forall>p \<in> set [demo_insert]. list_all no_alter (command_statements demo_env (pk_payload p))"
    by (simp add: demo_insert_def command_packet_def command_statements_def u demo_env_def p no_alter_def)
  moreover have "world_inv (sr_world demo_server)"
    using demo_store_inv world_inv_start by (simp add: demo_server_def)
  moreover have "locks_owned (sr_world demo_server)" by (simp add: demo_server_def world_start_def locks_owned_def)
  moreover have "prepared_within no_alter (demo_connection [])"
    by (simp add: prepared_within_def demo_connection_def connection_new_def)
  ultimately show ?thesis using commands_refine_steps [of demo_server "demo_connection []" "[demo_insert]" demo_env] by blast
qed

end
