(* ===== verification/Server_Loop.thy ===== *)
theory Server_Loop
  imports Connection_Login Connection_World
begin

text \<open>
  The server (\<^verbatim>\<open>src/src/server/mod.rs\<close>): starting up, accepting and refusing connections, the
  tasks that run them side by side, and the shutdown.

  The state of a running server is the state shared by its connections, the permits left in the
  semaphore, and the set of tasks.  A task that runs a connection goes through the phases of
  \<^verbatim>\<open>Connection::handle\<close>; one step of the server is one step of any task, so the steps of the tasks
  interleave in every order.  A step is the login or one command; the interleaving of the phases of a single
  store operation is the subject of \<^verbatim>\<open>Storage_Races\<close>.
\<close>

section \<open>State\<close>

datatype task =
    LoggingIn connection "u8 list" "u8 list"
  | Serving connection
  | Closing connection "unit result"
  | Rejecting "write_event list"

datatype phase = Accepting | Draining | Stopped

text \<open>
  The last two fields only count, for the statements below: the sockets accepted so far, and the
  connections whose task ended before it could report the end, by a panic or at the shutdown.
\<close>

record running =
  rn_next_connection_id :: u32
  rn_shared :: server
  rn_permits :: "nat option"
  rn_tasks :: "task list"
  rn_refused :: "u8 list list"
  rn_phase :: phase
  rn_accepted :: nat
  rn_lost :: nat

fun task_connection :: "task \<Rightarrow> connection option" where
  "task_connection (LoggingIn c raw1 raw2) = Some c"
| "task_connection (Serving c) = Some c"
| "task_connection (Closing c r) = Some c"
| "task_connection (Rejecting ws) = None"

definition open_connections :: "running \<Rightarrow> connection list" where
  "open_connections s = List.map_filter task_connection (rn_tasks s)"

section \<open>Starting\<close>

definition server_new :: "tls_acceptor config \<Rightarrow> u32 \<times> observability" where
  "server_new cfg = (1, observability_new (cf_log_level cfg))"

definition connection_limit :: "tls_acceptor config \<Rightarrow> nat option" where
  "connection_limit cfg = (if cf_max_connections cfg > 0 then Some (cf_max_connections cfg) else None)"

definition open_storage :: "env \<Rightarrow> tls_acceptor config \<Rightarrow> u8 list option \<Rightarrow> engine result" where
  "open_storage ev cfg file =
     (case cf_data_dir cfg of
        Some dir \<Rightarrow> open_store (od_tables (ev_orders ev)) (od_databases (ev_orders ev)) (cf_sync_policy cfg)
          (unat (cf_checkpoint_threshold_bytes cfg)) file
      | None \<Rightarrow> Ok new_storage)"

text \<open>
  The state in which the accept loop starts, from the text of the listening address, the log file in the data
  directory, if there is one, and the outcomes of the coming log writes.
\<close>

definition serve_start ::
    "env \<Rightarrow> tls_acceptor config \<Rightarrow> string \<Rightarrow> u8 list option \<Rightarrow> io_outcome list \<Rightarrow> running result" where
  "serve_start ev cfg addr file ios =
     map_result (\<lambda>en.
       let sv = log_line ev Info ''server_listening'' [(''addr'', addr), (''version'', cf_server_version cfg)]
             \<lparr>sr_world = world_start en, sr_io = ios, sr_obs = snd (server_new cfg), sr_lines = []\<rparr>;
           sv = (if cf_data_dir cfg = None
             then log_line ev Warn ''volatile_mode'' [(''hint'',
               ''running without persistence -- data will not survive a restart; set MYSQLRUST_DATA_DIR to persist it'')] sv
             else sv)
       in \<lparr>rn_next_connection_id = fst (server_new cfg), rn_shared = sv, rn_permits = connection_limit cfg, rn_tasks = [],
           rn_refused = [], rn_phase = Accepting, rn_accepted = 0, rn_lost = 0\<rparr>)
     (open_storage ev cfg file)"

section \<open>Accepting and refusing\<close>

definition ER_CON_COUNT_ERROR :: u16 where "ER_CON_COUNT_ERROR = 1040"

text \<open>The result and the bytes that reach the client.\<close>

definition reject_too_many_connections :: "write_event list \<Rightarrow> unit result \<times> u8 list" where
  "reject_too_many_connections ws =
     (case err_to_packet (err_packet_new ER_CON_COUNT_ERROR ''08004'' ''Too many connections'') 0 of
        Inl e \<Rightarrow> (Inl e, [])
      | Inr p \<Rightarrow>
          (case ws of
             WriteBroken n e # ws' \<Rightarrow> (Fail (Io e), take n (encode_packet p))
           | _ \<Rightarrow> (Ok (), encode_packet p)))"

text \<open>
  A new socket: the text of its peer's address, what its reads and writes will do, and the random
  bytes its challenges will be made of.
\<close>

record socket =
  so_peer :: string
  so_reads :: "read_event list"
  so_writes :: "write_event list"
  so_raw1 :: "u8 list"
  so_raw2 :: "u8 list"

definition spawn_connection :: "env \<Rightarrow> tls_acceptor config \<Rightarrow> socket \<Rightarrow> u32 \<Rightarrow> running \<Rightarrow> running" where
  "spawn_connection ev cfg so connection_id s =
     (if rn_permits s = Some 0 then
        s\<lparr>rn_shared := log_line ev Warn ''connection_rejected'' [(''reason'', ''too_many_connections''), (''peer'', so_peer so)]
             (with_metrics metrics_error (rn_shared s)),
          rn_tasks := rn_tasks s @ [Rejecting (so_writes so)]\<rparr>
      else
        s\<lparr>rn_permits := map_option (\<lambda>n. n - 1) (rn_permits s),
          rn_shared := log_line ev Info ''connection_opened''
             [(''connection_id'', show_nat (unat connection_id)), (''peer'', so_peer so)]
             (with_metrics connection_opened (rn_shared s)),
          rn_tasks := rn_tasks s
             @ [LoggingIn (connection_new (so_reads so) (so_writes so) cfg connection_id) (so_raw1 so) (so_raw2 so)]\<rparr>)"

definition accept_connection :: "env \<Rightarrow> tls_acceptor config \<Rightarrow> socket \<Rightarrow> running \<Rightarrow> running" where
  "accept_connection ev cfg so s =
     spawn_connection ev cfg so (rn_next_connection_id s)
       (s\<lparr>rn_next_connection_id := rn_next_connection_id s + 1, rn_accepted := Suc (rn_accepted s)\<rparr>)"

definition accept_error :: "env \<Rightarrow> string \<Rightarrow> running \<Rightarrow> running" where
  "accept_error ev err s =
     s\<lparr>rn_shared := log_line ev Warn ''accept_error'' [(''error'', err)] (with_metrics metrics_error (rn_shared s))\<rparr>"

section \<open>Tasks\<close>

text \<open>The phases of \<^verbatim>\<open>Connection::handle\<close> before the command loop; the value says whether it is entered.\<close>

definition login_phase :: "u8 list \<Rightarrow> u8 list \<Rightarrow> bool act" where
  "login_phase raw1 raw2 =
     bindA (perform_handshake raw1) (\<lambda>response.
     bindA (conn_authenticate raw2 response) (\<lambda>outcome.
     if outcome = AuthOk then
       bindA (modC (\<lambda>c. c\<lparr>cn_client_capabilities := hr_capability_flags response\<rparr>)) (\<lambda>_. retA True)
     else retA False))"

lemma handle_phases_login_loop:
  "handle_phases ev raw1 raw2 = bindA (login_phase raw1 raw2) (\<lambda>go_on. if go_on then run_command_loop ev else retA ())"
  by (auto simp: handle_phases_def login_phase_def bindA_def modC_def retA_def fun_eq_iff split: prod.split sum.split)

text \<open>A task that is alone does what \<^verbatim>\<open>Connection::handle\<close> does: after the login, rounds until one ends the loop.\<close>

lemma task_runs_handle:
  assumes "login_phase raw1 raw2 s = (Ok go_on, t)"
  shows "if go_on then \<exists>n u r v. rounds ev n t u \<and> command_round ev u = (r, v) \<and> r \<noteq> Ok True
      \<and> handle_phases ev raw1 raw2 s = (map_result (\<lambda>_. ()) r, v)
    else handle_phases ev raw1 raw2 s = (Ok (), t)"
  using loop_rounds [of ev t] assms by (auto simp: handle_phases_login_loop bindA_def retA_def)

definition remove_task :: "nat \<Rightarrow> task list \<Rightarrow> task list" where
  "remove_task i ts = take i ts @ drop (Suc i) ts"

definition release_permit :: "running \<Rightarrow> running" where
  "release_permit s = s\<lparr>rn_permits := map_option Suc (rn_permits s)\<rparr>"

text \<open>A task that panics is unwound: its connection and its permit are dropped, nothing else runs.\<close>

definition unwind_task :: "nat \<Rightarrow> session \<Rightarrow> running \<Rightarrow> running" where
  "unwind_task i t s =
     release_permit (s\<lparr>rn_shared := fst (drop_connection t), rn_tasks := remove_task i (rn_tasks s), rn_lost := Suc (rn_lost s)\<rparr>)"

definition advance_task :: "nat \<Rightarrow> bool result \<Rightarrow> session \<Rightarrow> running \<Rightarrow> running" where
  "advance_task i r t s =
     (let goto = (\<lambda>k. s\<lparr>rn_shared := fst t, rn_tasks := (rn_tasks s)[i := k]\<rparr>) in
      case r of
        Inr go_on \<Rightarrow> goto (if go_on then Serving (snd t) else Closing (snd t) (Ok ()))
      | Inl (Err e) \<Rightarrow> goto (Closing (snd t) (Fail e))
      | Inl (Panic m) \<Rightarrow> unwind_task i t s)"

definition close_connection :: "env \<Rightarrow> nat \<Rightarrow> connection \<Rightarrow> unit result \<Rightarrow> running \<Rightarrow> running" where
  "close_connection ev i c r s =
     (let sid = (''connection_id'', show_nat (unat (cn_connection_id c)));
          sv = with_metrics connection_closed (rn_shared s);
          sv = (case r of
              Inl (Err e) \<Rightarrow> log_line ev Warn ''connection_error'' [sid, (''error'', error_text e)] (with_metrics metrics_error sv)
            | _ \<Rightarrow> log_line ev Info ''connection_closed'' [sid] sv)
      in release_permit (s\<lparr>rn_shared := fst (drop_connection (sv, c)), rn_tasks := remove_task i (rn_tasks s)\<rparr>))"

definition finish_reject :: "nat \<Rightarrow> write_event list \<Rightarrow> running \<Rightarrow> running" where
  "finish_reject i ws s =
     s\<lparr>rn_refused := rn_refused s @ [snd (reject_too_many_connections ws)], rn_tasks := remove_task i (rn_tasks s)\<rparr>"

section \<open>Shutting down\<close>

definition start_shutdown :: "env \<Rightarrow> running \<Rightarrow> running" where
  "start_shutdown ev s =
     s\<lparr>rn_shared := log_line ev Info ''shutdown_started''
          [(''active_connections'', show_nat (unat (mt_connections_active (ob_metrics (sr_obs (rn_shared s))))))] (rn_shared s),
       rn_phase := Draining\<rparr>"

definition drop_tasks :: "connection list \<Rightarrow> server \<Rightarrow> server" where
  "drop_tasks cs sv = fold (\<lambda>c sv. fst (drop_connection (sv, c))) cs sv"

definition log_shutdown :: "env \<Rightarrow> running \<Rightarrow> server" where
  "log_shutdown ev s =
     (let sv = (if rn_tasks s \<noteq> []
            then log_line ev Warn ''shutdown_drain_timeout'' [(''still_running'', show_nat (length (rn_tasks s)))] (rn_shared s)
            else rn_shared s);
          snap = ob_metrics (sr_obs sv)
      in log_line ev Info ''shutdown_complete''
           [(''connections_total'', show_nat (unat (mt_connections_total snap))),
            (''queries_total'', show_nat (unat (mt_queries_total snap))),
            (''errors_total'', show_nat (unat (mt_errors_total snap)))] sv)"

text \<open>
  The end of \<^verbatim>\<open>serve\<close>, when all tasks have ended or the time to drain them is over; the tasks that
  are left are aborted, which drops their connections.
\<close>

definition finish_shutdown :: "env \<Rightarrow> running \<Rightarrow> running" where
  "finish_shutdown ev s =
     s\<lparr>rn_shared := drop_tasks (open_connections s) (log_shutdown ev s), rn_tasks := [], rn_phase := Stopped,
       rn_permits := map_option (\<lambda>n. n + length (open_connections s)) (rn_permits s),
       rn_lost := rn_lost s + length (open_connections s)\<rparr>"

section \<open>Steps\<close>

text \<open>What the next command of a connection has to satisfy.\<close>

definition next_command :: "(u8 list \<Rightarrow> bool) \<Rightarrow> connection \<Rightarrow> bool" where
  "next_command ok c = (case fst (read_packet c) of Some (Inr p) \<Rightarrow> ok (pk_payload p) | _ \<Rightarrow> True)"

inductive server_step :: "env \<Rightarrow> tls_acceptor config \<Rightarrow> (u8 list \<Rightarrow> bool) \<Rightarrow> running \<Rightarrow> running \<Rightarrow> bool"
  for ev cfg ok where
  step_accept: "rn_phase s = Accepting \<Longrightarrow> server_step ev cfg ok s (accept_connection ev cfg so s)"
| step_accept_error: "rn_phase s = Accepting \<Longrightarrow> server_step ev cfg ok s (accept_error ev err s)"
| step_login: "i < length (rn_tasks s) \<Longrightarrow> rn_tasks s ! i = LoggingIn c raw1 raw2 \<Longrightarrow>
    login_phase raw1 raw2 (rn_shared s, c) = (r, t) \<Longrightarrow> server_step ev cfg ok s (advance_task i r t s)"
| step_command: "i < length (rn_tasks s) \<Longrightarrow> rn_tasks s ! i = Serving c \<Longrightarrow> next_command ok c \<Longrightarrow>
    command_round ev (rn_shared s, c) = (r, t) \<Longrightarrow> server_step ev cfg ok s (advance_task i r t s)"
| step_close: "i < length (rn_tasks s) \<Longrightarrow> rn_tasks s ! i = Closing c r \<Longrightarrow>
    server_step ev cfg ok s (close_connection ev i c r s)"
| step_reject: "i < length (rn_tasks s) \<Longrightarrow> rn_tasks s ! i = Rejecting ws \<Longrightarrow>
    server_step ev cfg ok s (finish_reject i ws s)"
| step_shutdown: "rn_phase s = Accepting \<Longrightarrow> server_step ev cfg ok s (start_shutdown ev s)"
| step_stop: "rn_phase s = Draining \<Longrightarrow> server_step ev cfg ok s (finish_shutdown ev s)"

end
