(* ===== verification/Server_Invariants.thy ===== *)
theory Server_Invariants
  imports Server_Loop
begin

text \<open>
  What holds in every reachable state of the server: no more connections than configured, one
  connection id each, counters that count, and a shared store in the state the transaction model
  allows, with no transaction or lock that does not belong to an open connection.
\<close>

section \<open>Frames of one round\<close>

text \<open>What a round of the command loop keeps, when reading input keeps it too.\<close>

locale round_frame = handler_frame +
  assumes input: "R (sv, c) (sv, with_input es bs c)"
begin

lemma keeps_command_round:
  assumes "next_command (\<lambda>payload. list_all allowed (command_statements ev payload)) c" "command_round ev (sv, c) = (r, t)"
  shows "R (sv, c) t"
proof -
  obtain m d where d: "read_packet c = (m, d)" by (cases "read_packet c")
  then obtain es bs where "d = with_input es bs c" using read_packet_frame [of c] by auto
  then have 1: "R (sv, c) (sv, d)" by (simp add: input)
  show ?thesis
  proof (cases "\<exists>p. m = Some (Ok p)")
    case True
    then obtain p where p: "m = Some (Ok p)" by blast
    then have "handle_command ev p (sv, d) = (r, t)"
      using assms(2) d by (simp add: command_round_def bindA_def timed_read_def liftA_def)
    moreover have "list_all allowed (command_statements ev (pk_payload p))" using assms(1) d p by (simp add: next_command_def)
    ultimately have "R (sv, d) t" using keepsD [OF keeps_handle_command] by blast
    then show ?thesis by (rule R_trans [OF 1])
  next
    case False
    have l: "R (sv, d) (log_line ev level event fs sv, d)" for level event fs by (simp add: log_line_def lines)
    show ?thesis
      using False assms(2) d 1 R_trans [OF 1 l]
      by (auto simp: command_round_def bindA_def timed_read_def liftA_def getC_def write_log_line_def
          modS_def retA_def split: option.splits sum.splits)
  qed
qed

end

interpretation world_round: round_frame "world_frame ev" no_alter ev for ev
  by unfold_locales (simp add: world_frame_def with_input_def prepared_within_def steps_of_refl)

text \<open>A command changes neither the number of open connections the counters show nor its connection's id.\<close>

abbreviation active :: "server \<Rightarrow> u64" where
  "active sv \<equiv> mt_connections_active (ob_metrics (sr_obs sv))"

definition same_counts :: "session \<Rightarrow> session \<Rightarrow> bool" where
  "same_counts s t \<longleftrightarrow> active (fst t) = active (fst s) \<and> cn_connection_id (snd t) = cn_connection_id (snd s)"

interpretation counts: act_frame same_counts
  by unfold_locales (auto simp: same_counts_def)

lemma counts_statement: "keeps same_counts (execute_statement ev st)"
proof -
  have "keeps same_counts (commit_open ev)" "keeps same_counts rollback_transaction"
    "keeps same_counts (lock_for st)" "keeps same_counts (run_statement ev st)"
    "keeps same_counts (\<lambda>s. let k = conn_no (snd s); w = sr_world (fst s)
       in (Ok default_result, ((fst s)\<lparr>sr_world := w\<lparr>w_tx := (w_tx w)(k \<mapsto> tx_new)\<rparr>\<rparr>, snd s)))" for st
    by (auto simp: keeps_def same_counts_def commit_open_def rollback_transaction_def lock_for_def run_statement_def Let_def
        next_io_def split: option.splits sum.splits prod.splits list.splits)
  then show ?thesis
    unfolding execute_statement_def begin_transaction_def commit_transaction_def
    by (auto intro!: counts.keeps_parts split: statement.split)
qed

interpretation counts_round: round_frame same_counts "\<lambda>_. True" ev for ev
proof (unfold_locales, goal_cases)
  case (8 c i p sv payload)
  have "keeps same_counts (execute_prepared ev payload p)"
    unfolding execute_prepared_def by (intro counts.keeps_parts counts_statement)
  then show ?case unfolding keeps_def by blast
qed (auto simp: same_counts_def with_metrics_def query_executed_def metrics_error_def with_input_def counts_statement)

text \<open>The login leaves the shared state alone, and of the connection its id and its prepared statements.\<close>

lemma login_phase_keeps:
  assumes "login_phase raw1 raw2 s = (r, t)"
  shows "fst t = fst s" "cn_connection_id (snd t) = cn_connection_id (snd s)" "cn_prepared (snd t) = cn_prepared (snd s)"
proof -
  obtain m s1 where h: "perform_handshake raw1 s = (m, s1)" by (cases "perform_handshake raw1 s")
  note s1 = perform_handshake_login [OF h]
  have "fst t = fst s \<and> cn_connection_id (snd t) = cn_connection_id (snd s) \<and> cn_prepared (snd t) = cn_prepared (snd s)"
  proof (cases m)
    case (Inl e)
    then show ?thesis using assms h s1 by (simp add: login_phase_def bindA_def)
  next
    case (Inr response)
    obtain q s2 where a: "conn_authenticate raw2 response s1 = (q, s2)" by (cases "conn_authenticate raw2 response s1")
    note l = conn_authenticate_login(1-3) [OF a]
    have "fst t = fst s2 \<and> cn_connection_id (snd t) = cn_connection_id (snd s2) \<and> cn_prepared (snd t) = cn_prepared (snd s2)"
      using assms h a Inr by (auto simp: login_phase_def bindA_def modC_def retA_def split: sum.splits if_splits)
    then show ?thesis using l s1 by simp
  qed
  then show "fst t = fst s" "cn_connection_id (snd t) = cn_connection_id (snd s)" "cn_prepared (snd t) = cn_prepared (snd s)"
    by simp_all
qed

section \<open>Open connections\<close>

text \<open>The connections of the tasks before and after a position in the task list.\<close>

abbreviation before :: "nat \<Rightarrow> running \<Rightarrow> connection list" where
  "before i s \<equiv> List.map_filter task_connection (take i (rn_tasks s))"

abbreviation after :: "nat \<Rightarrow> running \<Rightarrow> connection list" where
  "after i s \<equiv> List.map_filter task_connection (drop (Suc i) (rn_tasks s))"

lemma map_filter_append: "List.map_filter f (xs @ ys) = List.map_filter f xs @ List.map_filter f ys"
  by (simp add: List.map_filter_def)

lemma open_at:
  assumes "i < length (rn_tasks s)"
  shows "task_connection (rn_tasks s ! i) = Some c \<Longrightarrow> open_connections s = before i s @ c # after i s"
    "task_connection (rn_tasks s ! i) = None \<Longrightarrow> open_connections s = before i s @ after i s"
    "task_connection k = Some c' \<Longrightarrow>
       open_connections (s\<lparr>rn_shared := sv, rn_tasks := (rn_tasks s)[i := k]\<rparr>) = before i s @ c' # after i s"
    "List.map_filter task_connection (remove_task i (rn_tasks s)) = before i s @ after i s"
proof -
  have "open_connections s = List.map_filter task_connection (take i (rn_tasks s) @ rn_tasks s ! i # drop (Suc i) (rn_tasks s))"
    using assms by (simp add: open_connections_def id_take_nth_drop [symmetric])
  then show "task_connection (rn_tasks s ! i) = Some c \<Longrightarrow> open_connections s = before i s @ c # after i s"
    "task_connection (rn_tasks s ! i) = None \<Longrightarrow> open_connections s = before i s @ after i s"
    by (simp_all add: map_filter_append List.map_filter_simps)
qed (use assms in \<open>simp_all add: open_connections_def remove_task_def upd_conv_take_nth_drop map_filter_append List.map_filter_simps\<close>)

lemma shared_counters [simp]:
  "active (log_line ev level event fs sv) = active sv"
  "active (with_metrics metrics_error sv) = active sv"
  "active (with_metrics connection_opened sv) = active sv + 1"
  "active (fst (drop_connection (sv, c))) = active sv"
  "active (drop_tasks cs sv) = active sv" "active (log_shutdown ev s) = active (rn_shared s)"
proof -
  show d: "active (fst (drop_connection (sv, c))) = active sv" for sv c by (simp add: drop_connection_def Let_def)
  show "active (drop_tasks cs sv) = active sv"
    unfolding drop_tasks_def by (induction cs arbitrary: sv) (simp_all add: d)
qed (simp_all add: log_shutdown_def Let_def log_line_def with_metrics_def metrics_error_def connection_opened_def)

lemma shared_world [simp]:
  "sr_world (log_line ev level event fs sv) = sr_world sv" "sr_world (with_metrics f sv) = sr_world sv"
  "sr_world (fst (drop_connection (sv, c))) = finish_tx (sr_world sv) (w_store (sr_world sv)) (conn_no c)"
  "sr_world (log_shutdown ev s) = sr_world (rn_shared s)"
  by (simp_all add: log_shutdown_def log_line_def with_metrics_def drop_connection_def Let_def)

section \<open>Limits and counters\<close>

definition counted :: "tls_acceptor config \<Rightarrow> running \<Rightarrow> bool" where
  "counted cfg s \<longleftrightarrow>
     (let cs = open_connections s; n = length cs in
        (\<forall>m. connection_limit cfg = Some m \<longrightarrow> n \<le> m)
      \<and> rn_permits s = map_option (\<lambda>m. m - n) (connection_limit cfg)
      \<and> rn_next_connection_id s = 1 + word_of_nat (rn_accepted s)
      \<and> n + rn_lost s \<le> rn_accepted s
      \<and> (rn_accepted s < 2 ^ 32 \<longrightarrow> unat (active (rn_shared s)) = n + rn_lost s)
      \<and> (\<forall>c \<in> set cs. \<exists>k < rn_accepted s. cn_connection_id c = 1 + word_of_nat k)
      \<and> (rn_accepted s < 2 ^ 32 \<longrightarrow> distinct (map cn_connection_id cs)))"

lemma counted_advance:
  assumes inv: "counted cfg s" and i: "i < length (rn_tasks s)" "task_connection (rn_tasks s ! i) = Some c"
    and t: "active (fst t) = active (rn_shared s)" "cn_connection_id (snd t) = cn_connection_id c"
  shows "counted cfg (advance_task i r t s)"
proof -
  note o = open_at(1) [OF i] open_at(3,4) [OF i(1)]
  have 1: "counted cfg (s\<lparr>rn_shared := fst t, rn_tasks := (rn_tasks s)[i := k]\<rparr>)" if "task_connection k = Some (snd t)" for k
    using inv t unfolding counted_def Let_def o(2) [OF that] o(1) by auto
  have 2: "counted cfg (unwind_task i t s)"
    using inv t o(1,3) shared_counters(4) [of "fst t" "snd t"]
    unfolding counted_def Let_def unwind_task_def release_permit_def open_connections_def [of "_\<lparr>rn_permits := _\<rparr>"]
    by (cases "connection_limit cfg") (auto simp: o(1))
  show ?thesis using 1 2 by (auto simp: advance_task_def Let_def split: sum.split exn.split)
qed

lemma admitted:
  assumes "counted cfg s"
  shows "open_connections (accept_connection ev cfg so s) = open_connections s
    @ (if connection_limit cfg = Some (length (open_connections s)) then []
       else [connection_new (so_reads so) (so_writes so) cfg (rn_next_connection_id s)])"
proof -
  have "rn_permits s = Some 0 \<longleftrightarrow> connection_limit cfg = Some (length (open_connections s))"
    using assms by (cases "connection_limit cfg") (auto simp: counted_def Let_def)
  then show ?thesis
    by (simp add: accept_connection_def spawn_connection_def open_connections_def map_filter_append List.map_filter_simps)
qed

lemma fresh_id:
  assumes "k < n" "n < 2 ^ 32"
  shows "(1 + word_of_nat k :: u32) \<noteq> 1 + word_of_nat n"
  using assms by (simp add: word_of_nat_eq_iff take_bit_nat_eq_self)

lemma counted_accept:
  assumes "counted cfg s"
  shows "counted cfg (accept_connection ev cfg so s)"
proof -
  let ?s = "accept_connection ev cfg so s" and ?cs = "open_connections s"
  note c = assms [unfolded counted_def Let_def]
  have a: "rn_accepted ?s = Suc (rn_accepted s)" "rn_lost ?s = rn_lost s"
    "rn_next_connection_id ?s = 1 + word_of_nat (Suc (rn_accepted s))"
    using c by (simp_all add: accept_connection_def spawn_connection_def)
  have ids: "\<forall>c \<in> set ?cs. \<exists>k < Suc (rn_accepted s). cn_connection_id c = 1 + word_of_nat k"
    using c by (meson less_SucI)
  show ?thesis
  proof (cases "connection_limit cfg = Some (length ?cs)")
    case True
    then have "rn_permits s = Some 0" using c by simp
    then have "rn_permits ?s = Some 0" "active (rn_shared ?s) = active (rn_shared s)"
      by (simp_all add: accept_connection_def spawn_connection_def)
    moreover have "open_connections ?s = ?cs" using admitted [OF assms] True by simp
    ultimately show ?thesis using c True ids unfolding counted_def Let_def a by auto
  next
    case False
    let ?c = "connection_new (so_reads so) (so_writes so) cfg (rn_next_connection_id s)"
    have o: "open_connections ?s = ?cs @ [?c]" using admitted [OF assms] False by simp
    have p: "rn_permits s \<noteq> Some 0" using c False by (cases "connection_limit cfg") auto
    then have s: "rn_permits ?s = map_option (\<lambda>n. n - 1) (rn_permits s)" "active (rn_shared ?s) = active (rn_shared s) + 1"
      by (simp_all add: accept_connection_def spawn_connection_def)
    have id: "cn_connection_id ?c = 1 + word_of_nat (rn_accepted s)" using c by (simp add: connection_new_def)
    have "unat (active (rn_shared s) + 1) = Suc (length ?cs + rn_lost s)" if "Suc (rn_accepted s) < 2 ^ 32"
    proof -
      have "unat (active (rn_shared s)) = length ?cs + rn_lost s" "length ?cs + rn_lost s \<le> rn_accepted s" using c that by auto
      then have "unat (active (rn_shared s)) + 1 < 2 ^ 64" using that by simp
      then show ?thesis using c that by (simp add: unat_add_lem [THEN iffD1])
    qed
    moreover have "distinct (map cn_connection_id (?cs @ [?c]))" if "Suc (rn_accepted s) < 2 ^ 32"
      using c that id fresh_id [of _ "rn_accepted s"] by fastforce
    moreover have "\<forall>c \<in> set (?cs @ [?c]). \<exists>k < Suc (rn_accepted s). cn_connection_id c = 1 + word_of_nat k"
      using ids id by auto
    moreover have "Suc (length ?cs) \<le> m" if "connection_limit cfg = Some m" for m
      using c that False by (auto simp: le_less)
    ultimately show ?thesis
      using c s unfolding counted_def Let_def a o by (auto simp: option.map_comp o_def)
  qed
qed

lemma counted_close:
  assumes inv: "counted cfg s" and i: "i < length (rn_tasks s)" "rn_tasks s ! i = Closing c r"
  shows "counted cfg (close_connection ev i c r s)"
proof -
  let ?s = "close_connection ev i c r s"
  have t: "task_connection (rn_tasks s ! i) = Some c" using i(2) by simp
  note o = open_at(1) [OF i(1) t] open_at(4) [OF i(1)]
  note c = inv [unfolded counted_def Let_def o(1)]
  have s: "open_connections ?s = before i s @ after i s" "rn_permits ?s = map_option Suc (rn_permits s)"
    "rn_accepted ?s = rn_accepted s" "rn_lost ?s = rn_lost s" "rn_next_connection_id ?s = rn_next_connection_id s"
    "active (rn_shared ?s) = active (with_metrics connection_closed (rn_shared s))"
    using o(2) by (simp_all add: close_connection_def Let_def release_permit_def open_connections_def split: sum.split exn.split)
  have "unat (active (with_metrics connection_closed (rn_shared s))) = unat (active (rn_shared s)) - 1"
    by (simp add: with_metrics_def connection_closed_saturates)
  then show ?thesis
    using c s unfolding counted_def Let_def by (cases "connection_limit cfg") auto
qed

lemma counted_stop: "counted cfg s \<Longrightarrow> counted cfg (finish_shutdown ev s)"
  by (cases "connection_limit cfg")
    (auto simp: counted_def Let_def finish_shutdown_def open_connections_def List.map_filter_simps)

lemma counted_step:
  assumes "server_step ev cfg ok s s'" "counted cfg s"
  shows "counted cfg s'"
  using assms(1)
proof cases
  case (step_login i c raw1 raw2 r t)
  then show ?thesis using login_phase_keeps [OF step_login(4)] counted_advance [OF assms(2) step_login(2), of c t r] by simp
next
  case (step_command i c r t)
  have "next_command (\<lambda>payload. list_all (\<lambda>_. True) (command_statements ev payload)) c"
    by (simp add: next_command_def list.pred_True split: option.split sum.split)
  then have "same_counts (rn_shared s, c) t" using counts_round.keeps_command_round step_command(5) by blast
  then show ?thesis using step_command counted_advance [OF assms(2) step_command(2), of c t r] by (simp add: same_counts_def)
next
  case (step_reject i ws)
  then have "open_connections s' = open_connections s"
    using open_at(2,4) [OF step_reject(2)] by (simp add: finish_reject_def open_connections_def)
  then show ?thesis using assms(2) step_reject(1) by (simp add: counted_def finish_reject_def)
next
  case (step_accept_error err)
  then show ?thesis using assms(2) by (simp add: counted_def accept_error_def open_connections_def)
next
  case step_shutdown
  then show ?thesis using assms(2) by (simp add: counted_def start_shutdown_def open_connections_def)
qed (use assms(2) in \<open>auto intro: counted_accept counted_close counted_stop\<close>)

lemma serve_start_state:
  assumes "serve_start ev cfg addr file ios = Ok s"
  shows "\<exists>en. open_storage ev cfg file = Ok en \<and> sr_world (rn_shared s) = world_start en"
    "active (rn_shared s) = 0" "rn_tasks s = []" "rn_refused s = []" "rn_phase s = Accepting" "open_connections s = []"
    "rn_accepted s = 0" "rn_lost s = 0" "rn_next_connection_id s = 1" "rn_permits s = connection_limit cfg"
proof -
  obtain en where "open_storage ev cfg file = Ok en" using assms by (auto simp: serve_start_def map_result_Ok_iff)
  then show "\<exists>en. open_storage ev cfg file = Ok en \<and> sr_world (rn_shared s) = world_start en"
    "active (rn_shared s) = 0" "rn_tasks s = []" "rn_refused s = []" "rn_phase s = Accepting" "open_connections s = []"
    "rn_accepted s = 0" "rn_lost s = 0" "rn_next_connection_id s = 1" "rn_permits s = connection_limit cfg"
    using assms by (auto simp: serve_start_def Let_def open_connections_def List.map_filter_simps
        server_new_def observability_new_def metrics_new_def)
qed

lemma counted_start:
  assumes "serve_start ev cfg addr file ios = Ok s"
  shows "counted cfg s"
  using serve_start_state [OF assms] by (cases "connection_limit cfg") (simp_all add: counted_def Let_def)

lemma counted_reachable:
  "(server_step ev cfg ok)\<^sup>*\<^sup>* s s' \<Longrightarrow> counted cfg s \<Longrightarrow> counted cfg s'"
  by (induction rule: rtranclp_induct) (simp_all add: counted_step)

text \<open>Who is refused is told so.\<close>

lemma refused_step:
  assumes "server_step ev cfg ok s s'" "\<forall>bs \<in> set (rn_refused s). \<exists>ws. bs = snd (reject_too_many_connections ws)"
  shows "\<forall>bs \<in> set (rn_refused s'). \<exists>ws. bs = snd (reject_too_many_connections ws)"
  using assms
  by cases (auto simp: accept_connection_def spawn_connection_def accept_error_def advance_task_def unwind_task_def
      release_permit_def close_connection_def finish_reject_def start_shutdown_def finish_shutdown_def Let_def
      split: sum.split exn.split)

lemma refused_bytes:
  "\<exists>p n. err_to_packet (err_packet_new ER_CON_COUNT_ERROR ''08004'' ''Too many connections'') 0 = Ok p
     \<and> snd (reject_too_many_connections ws) = take n (encode_packet p)"
proof -
  have "\<not> isl (err_to_packet (err_packet_new ER_CON_COUNT_ERROR ''08004'' ''Too many connections'') 0)" by code_simp
  then obtain p where p: "err_to_packet (err_packet_new ER_CON_COUNT_ERROR ''08004'' ''Too many connections'') 0 = Ok p"
    by (cases "err_to_packet (err_packet_new ER_CON_COUNT_ERROR ''08004'' ''Too many connections'') 0") auto
  have "\<exists>n. snd (reject_too_many_connections ws) = take n (encode_packet p)"
    using take_all [of "encode_packet p" "length (encode_packet p)"]
    by (auto simp: reject_too_many_connections_def p split: list.split write_event.split intro: exI [of _ "length (encode_packet p)"])
  then show ?thesis using p by blast
qed

lemma refused_reachable:
  "(server_step ev cfg ok)\<^sup>*\<^sup>* s s' \<Longrightarrow> rn_refused s = [] \<Longrightarrow>
     \<forall>bs \<in> set (rn_refused s'). \<exists>ws. bs = snd (reject_too_many_connections ws)"
  by (induction rule: rtranclp_induct) (simp, metis refused_step)

section \<open>The shared store\<close>

definition tidy :: "running \<Rightarrow> bool" where
  "tidy s \<longleftrightarrow>
     (let w = sr_world (rn_shared s) in
        locks_owned w \<and> dom (w_tx w) \<subseteq> conn_no ` set (open_connections s)
      \<and> (\<forall>c \<in> set (open_connections s). prepared_within no_alter c))"

abbreviation no_alter_command :: "env \<Rightarrow> u8 list \<Rightarrow> bool" where
  "no_alter_command ev payload \<equiv> list_all no_alter (command_statements ev payload)"

definition world_steps :: "env \<Rightarrow> running \<Rightarrow> running \<Rightarrow> bool" where
  "world_steps ev s s' \<longleftrightarrow> (tx_step (ev_pending ev))\<^sup>*\<^sup>* (sr_world (rn_shared s)) (sr_world (rn_shared s'))"

lemma world_frameD:
  assumes "world_frame ev (sv, c) t" "prepared_within no_alter c"
  shows "prepared_within no_alter (snd t)" "conn_no (snd t) = conn_no c"
    "steps_of (ev_pending ev) (conn_no c) (sr_world sv) (sr_world (fst t))"
  using assms by (simp_all add: world_frame_def)

text \<open>Dropping a connection ends its transaction and releases its locks.\<close>

lemma dropped:
  assumes "locks_owned w" "w' = finish_tx w (w_store w) k" "dom (w_tx w) \<subseteq> insert k S"
  shows "(tx_step pord)\<^sup>*\<^sup>* w w'" "locks_owned w'" "dom (w_tx w') \<subseteq> S"
proof -
  show "(tx_step pord)\<^sup>*\<^sup>* w w'" using finish_tx_steps [OF assms(1), of pord k] assms(2) by (simp add: steps_of_def)
  then show "locks_owned w'" using locks_owned_reachable assms(1) by blast
  show "dom (w_tx w') \<subseteq> S" using assms(2,3) by (auto simp: finish_tx_def split: if_splits)
qed

lemma tidy_advance:
  assumes inv: "tidy s" and i: "i < length (rn_tasks s)" "task_connection (rn_tasks s ! i) = Some c"
    and t: "world_frame ev (rn_shared s, c) t"
  shows "tidy (advance_task i r t s) \<and> world_steps ev s (advance_task i r t s)"
proof -
  let ?w = "sr_world (rn_shared s)" and ?w1 = "sr_world (fst t)"
  note o = open_at(1) [OF i] open_at(3,4) [OF i(1)]
  have "prepared_within no_alter c" using inv o(1) by (simp add: tidy_def Let_def)
  note d = world_frameD [OF t this]
  have st: "(tx_step (ev_pending ev))\<^sup>*\<^sup>* ?w ?w1" using d(3) by (simp add: steps_of_def)
  have lo: "locks_owned ?w1" using inv st locks_owned_reachable by (auto simp: tidy_def Let_def)
  have dm: "dom (w_tx ?w1) \<subseteq> insert (conn_no c) (conn_no ` set (before i s @ after i s))"
    using inv d(3) o(1) by (fastforce simp: tidy_def Let_def steps_of_def)
  have 1: "tidy s' \<and> world_steps ev s s'"
    if "s' = s\<lparr>rn_shared := fst t, rn_tasks := (rn_tasks s)[i := k]\<rparr>" "task_connection k = Some (snd t)" for k s'
    using inv lo dm d(1,2) st o(2) [OF that(2), of "fst t"] o(1)
    unfolding that(1) by (auto simp: tidy_def Let_def world_steps_def)
  note dr = dropped [OF lo refl dm]
  have w: "sr_world (rn_shared (unwind_task i t s)) = finish_tx ?w1 (w_store ?w1) (conn_no c)"
    using d(2) shared_world(3) [of "fst t" "snd t"] by (simp add: unwind_task_def release_permit_def)
  have oc: "open_connections (unwind_task i t s) = before i s @ after i s"
    using o(3) by (simp add: unwind_task_def release_permit_def open_connections_def)
  have "tidy (unwind_task i t s) \<and> world_steps ev s (unwind_task i t s)"
    using inv dr o(1) rtranclp_trans [OF st dr(1)] unfolding tidy_def Let_def world_steps_def w oc by auto
  then show ?thesis using 1 by (auto simp: advance_task_def Let_def split: sum.split exn.split)
qed

lemma tidy_close:
  assumes inv: "tidy s" and i: "i < length (rn_tasks s)" "rn_tasks s ! i = Closing c r"
  shows "tidy (close_connection ev' i c r s) \<and> world_steps ev s (close_connection ev' i c r s)"
proof -
  let ?w = "sr_world (rn_shared s)" and ?s = "close_connection ev' i c r s"
  have t: "task_connection (rn_tasks s ! i) = Some c" using i(2) by simp
  note o = open_at(1) [OF i(1) t] open_at(4) [OF i(1)]
  have w: "sr_world (rn_shared ?s) = finish_tx ?w (w_store ?w) (conn_no c)"
    by (simp add: close_connection_def Let_def release_permit_def split: sum.split exn.split)
  have oc: "open_connections ?s = before i s @ after i s"
    using o(2) by (simp add: close_connection_def Let_def release_permit_def open_connections_def)
  have "locks_owned ?w" "dom (w_tx ?w) \<subseteq> insert (conn_no c) (conn_no ` set (before i s @ after i s))"
    using inv o(1) by (auto simp: tidy_def Let_def)
  note dr = dropped [OF this(1) refl this(2)]
  show ?thesis using inv o(1) dr unfolding tidy_def Let_def world_steps_def w oc by auto
qed

lemma drop_tasks_world:
  assumes "locks_owned (sr_world sv)" "dom (w_tx (sr_world sv)) \<subseteq> conn_no ` set cs"
  shows "(tx_step pord)\<^sup>*\<^sup>* (sr_world sv) (sr_world (drop_tasks cs sv)) \<and> locks_owned (sr_world (drop_tasks cs sv))
    \<and> w_tx (sr_world (drop_tasks cs sv)) = Map.empty"
  using assms
proof (induction cs arbitrary: sv)
  case Nil
  then show ?case by (simp add: drop_tasks_def)
next
  case (Cons c cs)
  let ?sv = "fst (drop_connection (sv, c))"
  have "dom (w_tx (sr_world sv)) \<subseteq> insert (conn_no c) (conn_no ` set cs)" using Cons.prems(2) by simp
  note dr = dropped [OF Cons.prems(1) shared_world(3) this]
  have "drop_tasks (c # cs) sv = drop_tasks cs ?sv" by (simp add: drop_tasks_def)
  then show ?case using Cons.IH [of ?sv] dr rtranclp_trans [OF dr(1)] by simp
qed

lemma tidy_step:
  assumes "server_step ev cfg (no_alter_command ev) s s'" "tidy s"
  shows "tidy s' \<and> world_steps ev s s'"
  using assms(1)
proof cases
  case (step_accept so)
  let ?c = "connection_new (so_reads so) (so_writes so) cfg (rn_next_connection_id s)"
  have "prepared_within no_alter ?c" by (simp add: connection_new_def prepared_within_def)
  moreover have "open_connections s' = open_connections s \<or> open_connections s' = open_connections s @ [?c]"
    "sr_world (rn_shared s') = sr_world (rn_shared s)"
    using step_accept(1)
    by (auto simp: accept_connection_def spawn_connection_def open_connections_def map_filter_append List.map_filter_simps)
  ultimately show ?thesis using assms(2) by (auto simp: tidy_def Let_def world_steps_def)
next
  case (step_accept_error err)
  then show ?thesis using assms(2) by (simp add: tidy_def accept_error_def open_connections_def world_steps_def)
next
  case (step_login i c raw1 raw2 r t)
  have "world_frame ev (rn_shared s, c) t"
    using login_phase_keeps [OF step_login(4)] by (simp add: world_frame_def prepared_within_def steps_of_refl)
  then show ?thesis using step_login(1,3) tidy_advance [OF assms(2) step_login(2), of c ev t r] by simp
next
  case (step_command i c r t)
  have "world_frame ev (rn_shared s, c) t" by (rule world_round.keeps_command_round [OF step_command(4,5)])
  then show ?thesis using step_command(1,3) tidy_advance [OF assms(2) step_command(2), of c ev t r] by simp
next
  case (step_close i c r)
  then show ?thesis using tidy_close [OF assms(2)] by blast
next
  case (step_reject i ws)
  then have "open_connections s' = open_connections s" "rn_shared s' = rn_shared s"
    using open_at(2,4) [OF step_reject(2)] by (simp_all add: finish_reject_def open_connections_def)
  then show ?thesis using assms(2) by (simp add: tidy_def world_steps_def)
next
  case step_shutdown
  then show ?thesis using assms(2) by (simp add: tidy_def start_shutdown_def open_connections_def world_steps_def)
next
  case step_stop
  have "open_connections s' = []" using step_stop(1) by (simp add: finish_shutdown_def open_connections_def List.map_filter_simps)
  moreover have "rn_shared s' = drop_tasks (open_connections s) (log_shutdown ev s)" using step_stop(1) by (simp add: finish_shutdown_def)
  ultimately show ?thesis
    using drop_tasks_world [of "log_shutdown ev s" "open_connections s" "ev_pending ev"] assms(2)
    by (simp add: tidy_def Let_def world_steps_def)
qed

lemma tidy_reachable:
  "(server_step ev cfg (no_alter_command ev))\<^sup>*\<^sup>* s s' \<Longrightarrow> tidy s \<Longrightarrow> tidy s' \<and> world_steps ev s s'"
  by (induction rule: rtranclp_induct) (auto simp: world_steps_def dest!: tidy_step intro: rtranclp_trans)

lemma tidy_start:
  assumes "serve_start ev cfg addr file ios = Ok s"
  shows "tidy s"
  using serve_start_state(1,6) [OF assms] by (auto simp: tidy_def world_start_def locks_owned_def)

text \<open>Once the server has stopped no task is left.\<close>

lemma stopped_step:
  assumes "server_step ev cfg ok s s'" "rn_phase s = Stopped \<longrightarrow> rn_tasks s = []"
  shows "rn_phase s' = Stopped \<longrightarrow> rn_tasks s' = []"
  using assms
  by cases (auto simp: accept_connection_def spawn_connection_def accept_error_def advance_task_def unwind_task_def
      release_permit_def close_connection_def finish_reject_def start_shutdown_def finish_shutdown_def Let_def
      split: sum.split exn.split)

lemma stopped_reachable:
  "(server_step ev cfg ok)\<^sup>*\<^sup>* s s' \<Longrightarrow> rn_phase s = Accepting \<Longrightarrow> rn_phase s' = Stopped \<longrightarrow> rn_tasks s' = []"
  by (induction rule: rtranclp_induct) (simp, metis stopped_step)

section \<open>Results\<close>


text \<open>
  Claim (C5). The server keeps the store.  From a start on a store that satisfies its invariant, let
  any number of clients connect, log in, send commands that contain no ALTER TABLE, break off,
  panic the code that serves them or be cut off by the shutdown, in any interleaving.  All of this together changes
  the shared store, the transactions and the locks by steps of the transaction model only; the invariant of
  that model holds throughout; every open transaction and every lock belongs to a connection
  that is still open; and once the server has stopped there are none.
\<close>

theorem server_keeps_world:
  assumes "serve_start ev cfg addr file ios = Ok s0" "store_inv (w_store (sr_world (rn_shared s0)))"
    and "(server_step ev cfg (\<lambda>payload. list_all no_alter (command_statements ev payload)))\<^sup>*\<^sup>* s0 s"
    and "w = sr_world (rn_shared s)"
  shows "(tx_step (ev_pending ev))\<^sup>*\<^sup>* (sr_world (rn_shared s0)) w \<and> world_inv w
    \<and> dom (w_tx w) \<subseteq> conn_no ` set (open_connections s) \<and> ran (w_locks w) \<subseteq> dom (w_tx w)
    \<and> (rn_phase s = Stopped \<longrightarrow> w_tx w = Map.empty \<and> w_locks w = Map.empty)"
proof -
  obtain en where en: "sr_world (rn_shared s0) = world_start en" using serve_start_state(1) [OF assms(1)] by blast
  have t: "tidy s" "world_steps ev s0 s" using tidy_reachable [OF assms(3) tidy_start [OF assms(1)]] by simp_all
  have "world_inv (sr_world (rn_shared s0))" using assms(2) world_inv_start en by (simp add: world_start_def)
  then have w: "world_inv w" using world_inv_reachable t(2) assms(4) by (auto simp: world_steps_def)
  have l: "dom (w_tx w) \<subseteq> conn_no ` set (open_connections s)" "locks_owned w" using t(1) assms(4) by (simp_all add: tidy_def Let_def)
  have r: "ran (w_locks w) \<subseteq> dom (w_tx w)" using l(2) unfolding locks_owned_def ran_def by fastforce
  have "open_connections s = []" if "rn_phase s = Stopped"
    using stopped_reachable [OF assms(3) serve_start_state(5) [OF assms(1)]] that by (simp add: open_connections_def List.map_filter_simps)
  then have "w_tx w = Map.empty \<and> w_locks w = Map.empty" if "rn_phase s = Stopped"
    using l(1) r that by (auto simp: ran_def) (metis not_None_eq ext)
  then show ?thesis using t(2) w l(1) r assms(4) by (simp add: world_steps_def)
qed

text \<open>A server that admits one connection.\<close>

definition small_config :: "tls_acceptor config" where
  "small_config = config_default\<lparr>cf_max_connections := 1\<rparr>"

definition demo_socket :: socket where
  "demo_socket = \<lparr>so_peer = ''127.0.0.1:5000'', so_reads = demo_chunks, so_writes = [], so_raw1 = [1, 2], so_raw2 = [3, 4]\<rparr>"

lemma small_start:
  obtains s0 where "serve_start demo_env small_config ''127.0.0.1:3306'' None [] = Ok s0" "open_connections s0 = []"
    "rn_phase s0 = Accepting" "sr_world (rn_shared s0) = world_start new_storage"
proof -
  have o: "open_storage demo_env small_config None = Ok new_storage"
    by (simp add: open_storage_def small_config_def config_default_def)
  then obtain s0 where s: "serve_start demo_env small_config ''127.0.0.1:3306'' None [] = Ok s0" by (simp add: serve_start_def)
  show thesis using that [OF s] serve_start_state [OF s] o by auto
qed


theorem server_keeps_world_witness:
  "\<exists>s0 s. serve_start demo_env small_config ''127.0.0.1:3306'' None [] = Ok s0
     \<and> s = finish_shutdown demo_env (start_shutdown demo_env (accept_connection demo_env small_config demo_socket s0))
     \<and> rn_lost s = 1 \<and> w_tx (sr_world (rn_shared s)) = Map.empty \<and> world_inv (sr_world (rn_shared s))"
proof -
  obtain s0 where s0: "serve_start demo_env small_config ''127.0.0.1:3306'' None [] = Ok s0" "open_connections s0 = []"
    "rn_phase s0 = Accepting" "sr_world (rn_shared s0) = world_start new_storage" by (rule small_start)
  let ?ok = "\<lambda>payload. list_all no_alter (command_statements demo_env payload)"
  let ?s1 = "accept_connection demo_env small_config demo_socket s0"
  let ?s2 = "start_shutdown demo_env ?s1" and ?s3 = "finish_shutdown demo_env (start_shutdown demo_env ?s1)"
  have "rn_phase ?s1 = Accepting" "rn_phase ?s2 = Draining" "rn_phase ?s3 = Stopped"
    using s0(3) by (simp_all add: accept_connection_def spawn_connection_def start_shutdown_def finish_shutdown_def)
  then have "(server_step demo_env small_config ?ok)\<^sup>*\<^sup>* s0 ?s3" "rn_phase ?s3 = Stopped"
    using step_accept [OF s0(3)] step_shutdown [of ?s1] step_stop [of ?s2]
    by (auto intro!: rtranclp.rtrancl_into_rtrancl [OF rtranclp.rtrancl_into_rtrancl [OF r_into_rtranclp]])
  moreover have "store_inv (w_store (sr_world (rn_shared s0)))"
    by (simp add: s0(4) world_start_def new_storage_def store_inv_def tables_wf_def tables_unique_def)
  moreover have "rn_lost ?s3 = 1"
    using serve_start_state(8,10) [OF s0(1)] s0(2)
    by (simp add: finish_shutdown_def start_shutdown_def accept_connection_def spawn_connection_def open_connections_def
        connection_limit_def small_config_def map_filter_append List.map_filter_simps)
  ultimately show ?thesis
    using server_keeps_world [OF s0(1), of ?s3] s0(1) by (intro exI [of _ s0] exI [of _ ?s3]) simp
qed

end
