(* ===== verification/Spec2Isabelle.thy ===== *)
theory Spec2Isabelle
  imports Sql_Value Storage_Writer Storage_Tx Storage_Races Exec_Types Wire_Client Wire_Requests Auth Parser_Holes
    Connection_Query Server_Invariants
begin

text \<open>
  A verification of \<^verbatim>\<open>mysql-rust\<close>, a database server in Rust that speaks the MySQL client/server
  protocol (sources under \<^verbatim>\<open>src/src/\<close>).

  \<^bold>\<open>The program.\<close>  A listener accepts sockets and runs one task per client (\<^verbatim>\<open>server/mod.rs\<close>).  A task
  (\<^verbatim>\<open>server/connection.rs\<close>, \<^verbatim>\<open>server/tls.rs\<close>) exchanges packets (\<^verbatim>\<open>protocol/\<close>), authenticates the client
  (\<^verbatim>\<open>auth/\<close>) and serves commands: the text of a query is parsed (\<^verbatim>\<open>query/parser.rs\<close>) and executed
  (\<^verbatim>\<open>query/executor.rs\<close>) against the store, directly or through the open transaction of the connection
  (\<^verbatim>\<open>storage/transaction.rs\<close>).  The store (\<^verbatim>\<open>storage/engine.rs\<close>) keeps tables in memory and appends every
  change to a log file (\<^verbatim>\<open>storage/log.rs\<close>) through a writer thread (\<^verbatim>\<open>storage/log_writer.rs\<close>); at the next
  start the log is replayed.  Configuration and logging are in \<^verbatim>\<open>config.rs\<close> and \<^verbatim>\<open>observability.rs\<close>.

  \<^bold>\<open>Conventions.\<close>  Functions of the source are HOL functions with the source's names where these are
  free.  A \<^verbatim>\<open>String\<close> is the \<open>string\<close> of its UTF-8 bytes, a \<^verbatim>\<open>char\<close> the string of its encoding; machine
  integers are words of their width, \<^verbatim>\<open>usize\<close> is \<open>nat\<close>; unchecked arithmetic on words wraps around, as in a release
  build.  Fallible code returns a \<open>result\<close>: a value, an error of the crate (\<open>Err\<close>) or a panic
  (\<open>Panic\<close>), so that indexing out of range and \<^verbatim>\<open>unwrap\<close> are visible.  State is passed explicitly;
  operations that fail return the state they leave behind.

  \<^bold>\<open>Theories.\<close>
  \<^item> \<^verbatim>\<open>Rust_Prelude\<close>, \<^verbatim>\<open>Result_Logic\<close>, \<^verbatim>\<open>Rust_Bytes\<close>, \<^verbatim>\<open>Rust_Chars\<close>: errors (\<^verbatim>\<open>error.rs\<close>), the result monad and
    the logic \<open>safe\<close> for it, integers and text of the Rust library.
  \<^item> \<^verbatim>\<open>Sql_Value\<close> (\<^verbatim>\<open>storage/value.rs\<close>): values, column types, decimals and dates.
  \<^item> \<^verbatim>\<open>Log_Codec\<close>, \<^verbatim>\<open>Storage_Log\<close> (\<^verbatim>\<open>storage/log.rs\<close>), \<^verbatim>\<open>Storage_Writer\<close> (\<^verbatim>\<open>storage/log_writer.rs\<close>): the encoding
    of log entries, framing with CRC, replay, checkpoints, torn and damaged files, and group commit.
  \<^item> \<^verbatim>\<open>Storage_Table\<close>, \<^verbatim>\<open>Storage_Engine\<close> (\<^verbatim>\<open>storage/engine.rs\<close>): a table with its key index and counter, and
    the operations of the store; \<^verbatim>\<open>Storage_Spec\<close> has the abstract database they refine;
    \<^verbatim>\<open>Storage_Races\<close> interleaves the three phases (check, log, apply) of concurrent operations.
  \<^item> \<^verbatim>\<open>Storage_Tx\<close> (\<^verbatim>\<open>storage/transaction.rs\<close>): transactions and table locks as a step relation on a \<open>world\<close>;
    \<^verbatim>\<open>Storage_Handle\<close> (\<^verbatim>\<open>storage/mod.rs\<close>): the storage a statement sees, with the locales
    \<open>storage_view\<close> and \<open>typed_view\<close> interpreted for store, transaction and handle.
  \<^item> \<^verbatim>\<open>Sql_Lexer\<close>, \<^verbatim>\<open>Parser_Core\<close>, \<^verbatim>\<open>Sql_Parser\<close>, \<^verbatim>\<open>Query_Ast\<close> (\<^verbatim>\<open>query/parser.rs\<close>): tokens, the recursive
    descent parser with every production, the syntax tree and the binding of parameters;
    \<^verbatim>\<open>Parser_Holes\<close> numbers the placeholders.
  \<^item> \<^verbatim>\<open>Exec_Values\<close>, \<^verbatim>\<open>Exec_Order\<close>, \<^verbatim>\<open>Exec_Select\<close>, \<^verbatim>\<open>Exec_Aggregate\<close>, \<^verbatim>\<open>Exec_Statement\<close> (\<^verbatim>\<open>query/executor.rs\<close>):
    every statement; \<^verbatim>\<open>Exec_Insert\<close> and \<^verbatim>\<open>Exec_Types\<close> show what inserts do and that results are typed.
  \<^item> \<^verbatim>\<open>Wire_Codec\<close>, \<^verbatim>\<open>Wire_Messages\<close>, \<^verbatim>\<open>Wire_Requests\<close> (\<^verbatim>\<open>protocol/\<close>): packets and messages; \<^verbatim>\<open>Wire_Client\<close> is
    a reader for the client's side, with the locale \<open>row_encoding\<close> for text and binary rows.
  \<^item> \<^verbatim>\<open>Auth_Hash\<close>, \<^verbatim>\<open>Auth\<close> (\<^verbatim>\<open>auth/\<close>): SHA-1, SHA-256, both password plugins, and the accounts.
  \<^item> \<^verbatim>\<open>Observability\<close>, \<^verbatim>\<open>Server_Config\<close>: logging, counters and the configuration.
  \<^item> \<^verbatim>\<open>Connection\<close> (\<^verbatim>\<open>server/connection.rs\<close>, \<^verbatim>\<open>server/tls.rs\<close>, \<^verbatim>\<open>protocol/command.rs\<close>): the whole life of a
    connection as actions on a \<open>session\<close>, the shared \<open>server\<close> state and the \<open>connection\<close>; the locales
    \<open>act_frame\<close> and \<open>handler_frame\<close> say what a relation must allow so that every command keeps it.
    \<^verbatim>\<open>Connection_Io\<close>, \<^verbatim>\<open>Connection_Login\<close>, \<^verbatim>\<open>Connection_World\<close>, \<^verbatim>\<open>Connection_Replies\<close> and \<^verbatim>\<open>Connection_Query\<close>
    have its theorems.
  \<^item> \<^verbatim>\<open>Server_Loop\<close> (\<^verbatim>\<open>server/mod.rs\<close>): the start, the accept loop, the tasks of all connections and the
    shutdown as the step relation \<open>server_step\<close>; \<^verbatim>\<open>Server_Invariants\<close> has its invariants.

  \<^bold>\<open>What is shown.\<close>
  \<^item> Durability: what was acknowledged survives a crash and a restart, with group commit and with concurrent
    inserts; a torn tail is cut off, single damaged records are refused, a failed operation has no effect.
  \<^item> The store refines the abstract database: keys stay unique, the index agrees with the rows,
    batches are all or nothing, ALTER TABLE keeps the invariant.
  \<^item> Transactions: a commit appends exactly the pending rows, a transaction reads what it will commit,
    locked tables are stable in every interleaving.
  \<^item> Queries: results are typed and no SELECT panics; WHERE with the key index equals a filter, the
    hash join equals the nested loop, sorting with LIMIT and OFFSET, grouping, SUM, AVG and LIKE are correct.
  \<^item> The protocol: result sets and parameters survive the wire, prepared statements are numbered right, and
    logins are accepted exactly for the right reply.
  \<^item> The connection: commands are served in order however the network cuts them, each is answered,
    the loop ends, nothing happens without a login, commands refine the transaction model, and the
    rows of a query reach the client as the executor computed them.
  \<^item> The server: the limit of connections holds, and under any interleaving of clients the store keeps its
    invariant and no transaction or lock outlives its connection.
  \<^item> Where the code does not do what it means to, a theorem has the counterexample: a race of two CREATE
    TABLE, MODIFY on a key, a failed log write, ALTER TABLE under an open transaction.

  \<^bold>\<open>Parameters.\<close>  Code outside the sources is an argument with named hypotheses: the iteration
  orders of hash maps and the choice of unstable selection (\<open>orders\<close>, with \<open>selector_ok\<close> and \<open>groups_ok\<close>), Unicode classes of
  non-ASCII characters (\<open>unicode\<close>), the outcomes of file writes and syncs (\<open>io_outcome\<close>), random bytes, the
  clock, the TLS acceptor and the parser of socket addresses.  A socket is the list of results its coming
  reads and writes have; an elapsed timer is one of these results.

  \<^bold>\<open>Termination and fuel.\<close>  All functions are total.  The parser's recursion and the loops on bytes have
  measures; \<open>read_packet\<close> and \<open>run_command_loop\<close> decrease the input that is left, since every round consumes a header of
  four bytes.  Where a helper takes fuel (\<open>trim_with\<close>) it is the length of its argument, and a lemma
  shows that this is enough.

  \<^bold>\<open>Granularity.\<close>  A step of \<open>server_step\<close> is a login or one command, and a statement runs without
  interruption.  Where operations of the store release their locks between their phases, \<^verbatim>\<open>Storage_Races\<close>
  interleaves these phases.  Transactions are keyed by the connection id, which the limit theorem
  shows to be unique up to \<open>2 ^ 32\<close> accepted sockets.

  \<^bold>\<open>Not modelled.\<close>  The scheduler of the async runtime and the lengths of timers; the TLS library and
  \<^verbatim>\<open>TlsConfig\<close>; binding sockets and OS signals (\<^verbatim>\<open>run\<close>, \<^verbatim>\<open>run_until\<close>, \<^verbatim>\<open>shutdown_signal\<close>); \<^verbatim>\<open>main.rs\<close> and
  \<^verbatim>\<open>lib.rs\<close>, which only print, exit and declare modules; the capacity of the read buffer, which is not
  observable; the poisoning of mutexes, which the code ignores everywhere; the output buffer after an encoder has failed,
  which every writer clears first.
\<close>

end
